(* ===== verification/Prelude.thy ===== *)
theory Prelude
  imports Main "HOL-Library.Word"
begin

text \<open>
  Shared vocabulary of the development: machine-integer and byte types, typed stores for the
  objects the C++ code allocates, the outcome type of an execution and its sequencing operator,
  and the generic lemmas on lists, words and stores that the component theories use.

  An execution has one of three outcomes. \<open>ret x\<close> is a normal return. \<open>fault f\<close> is a step the
  C++ abstract machine gives no meaning to (a null or dangling dereference, an index out of range),
  a failed \<open>assert\<close>, or the deliberate \<open>abort\<close> of \<open>die\<close>, with \<open>errno\<close> and the message. \<open>None\<close> is a loop that never ends; it arises from
  \<^theory_text>\<open>partial_function\<close> definitions only.
\<close>

section \<open>Machine types\<close>

type_synonym u8 = "8 word"
type_synonym u32 = "32 word"
type_synonym u64 = "64 word"
type_synonym bytes = "u8 list"

section \<open>Outcomes of an execution\<close>

datatype fault = NullDeref | Dangling | OutOfBounds | AssertFailed | Aborted nat string

type_synonym 'a exec = "(fault + 'a) option"

definition ret :: "'a \<Rightarrow> 'a exec" where
  "ret x = Some (Inr x)"

definition fault :: "fault \<Rightarrow> 'a exec" where
  "fault f = Some (Inl f)"

definition bindE :: "'a exec \<Rightarrow> ('a \<Rightarrow> 'b exec) \<Rightarrow> 'b exec" where
  "bindE m k = Option.bind m (\<lambda>r. case r of Inl f \<Rightarrow> Some (Inl f) | Inr x \<Rightarrow> k x)"

definition assertE :: "bool \<Rightarrow> unit exec" where
  "assertE b = (if b then ret () else fault AssertFailed)"

lemma bindE_ret [simp]: "bindE (ret x) k = k x"
  by (simp add: bindE_def ret_def)

lemma bindE_fault [simp]: "bindE (fault f) k = fault f"
  by (simp add: bindE_def fault_def)

lemma bindE_None [simp]: "bindE None k = None"
  by (simp add: bindE_def)

lemma ret_inject [simp]: "ret x = ret y \<longleftrightarrow> x = y"
  by (simp add: ret_def)

lemma ret_not_fault [simp]: "ret x \<noteq> fault f" "fault f \<noteq> ret x"
  by (simp_all add: ret_def fault_def)

lemma ret_not_None [simp]: "ret x \<noteq> None" "None \<noteq> ret x"
  by (simp_all add: ret_def)

lemma fault_not_None [simp]: "fault f \<noteq> None" "None \<noteq> fault f"
  by (simp_all add: fault_def)

lemma assertE_True [simp]: "assertE True = ret ()"
  by (simp add: assertE_def)

lemma assertE_False [simp]: "assertE False = fault AssertFailed"
  by (simp add: assertE_def)

lemma exec_cases [case_names ret fault diverge]:
  obtains (ret) x where "m = ret x" | (fault) f where "m = fault f" | (diverge) "m = None"
proof (cases m)
  case (Some r)
  then show thesis by (cases r) (auto simp: ret_def fault_def intro: that)
qed (auto intro: that)

lemma bindE_assoc: "bindE (bindE m f) g = bindE m (\<lambda>x. bindE (f x) g)"
  by (cases m rule: exec_cases) auto

lemma bindE_eq_ret_iff: "bindE m k = ret y \<longleftrightarrow> (\<exists>x. m = ret x \<and> k x = ret y)"
  by (cases m rule: exec_cases) auto

lemma bindE_cong [fundef_cong]:
  "m = m' \<Longrightarrow> (\<And>x. m' = ret x \<Longrightarrow> k x = k' x) \<Longrightarrow> bindE m k = bindE m' k'"
  by (cases m' rule: exec_cases) auto

text \<open>Sequencing is monotone, so that loops may be defined by \<^theory_text>\<open>partial_function\<close>.\<close>

lemma bindE_mono [partial_function_mono]:
  assumes "mono_option B" and "\<And>y. mono_option (\<lambda>f. C y f)"
  shows "mono_option (\<lambda>f. bindE (B f) (\<lambda>y. C y f))"
  unfolding bindE_def
proof (rule bind_mono [OF assms(1)])
  fix r
  show "mono_option (\<lambda>f. case r of Inl e \<Rightarrow> Some (Inl e) | Inr x \<Rightarrow> C x f)"
    by (cases r) (auto intro: assms(2) option.const_mono)
qed

section \<open>Typed stores\<close>

text \<open>
  Objects live in stores, one per C++ struct (or per intrusive member of a struct): a partial map
  from addresses, where \<open>None\<close> is memory that is not allocated for that struct. An intrusive
  member has the address of the object that contains it, so \<open>container_of\<close> is the identity.
\<close>

type_synonym addr = nat
type_synonym ptr = "addr option"
type_synonym 'a store = "addr \<rightharpoonup> 'a"

definition rd :: "'a store \<Rightarrow> ptr \<Rightarrow> 'a exec" where
  "rd h p = (case p of None \<Rightarrow> fault NullDeref
     | Some a \<Rightarrow> (case h a of None \<Rightarrow> fault Dangling | Some n \<Rightarrow> ret n))"

definition wr :: "'a store \<Rightarrow> ptr \<Rightarrow> ('a \<Rightarrow> 'a) \<Rightarrow> 'a store exec" where
  "wr h p f = (case p of None \<Rightarrow> fault NullDeref
     | Some a \<Rightarrow> (case h a of None \<Rightarrow> fault Dangling | Some n \<Rightarrow> ret (h(a \<mapsto> f n))))"

lemma rd_Some [simp]: "h a = Some n \<Longrightarrow> rd h (Some a) = ret n"
  by (simp add: rd_def)

lemma rd_None [simp]: "rd h None = fault NullDeref"
  by (simp add: rd_def)

lemma wr_Some [simp]: "h a = Some n \<Longrightarrow> wr h (Some a) f = ret (h(a \<mapsto> f n))"
  by (simp add: wr_def)

lemma wr_None [simp]: "wr h None f = fault NullDeref"
  by (simp add: wr_def)

text \<open>
  \<open>same_outside A h h'\<close>: an execution that went from \<open>h\<close> to \<open>h'\<close> wrote only inside \<open>A\<close>, and
  neither allocated nor freed an object.
\<close>

definition same_outside :: "addr set \<Rightarrow> 'a store \<Rightarrow> 'a store \<Rightarrow> bool" where
  "same_outside A h h' \<longleftrightarrow> (\<forall>x. (x \<notin> A \<longrightarrow> h' x = h x) \<and> (h' x = None \<longleftrightarrow> h x = None))"

lemma same_outside_refl [simp]: "same_outside A h h"
  by (simp add: same_outside_def)

lemma same_outside_comp:
  "same_outside A h h' \<Longrightarrow> same_outside B h' h'' \<Longrightarrow> same_outside (A \<union> B) h h''"
  by (simp add: same_outside_def)

lemma same_outside_trans:
  "same_outside A h h' \<Longrightarrow> same_outside B h' h'' \<Longrightarrow> A \<union> B \<subseteq> C \<Longrightarrow> same_outside C h h''"
  unfolding same_outside_def by (metis Un_iff subsetD)

lemma same_outside_mono: "same_outside A h h' \<Longrightarrow> A \<subseteq> B \<Longrightarrow> same_outside B h h'"
  unfolding same_outside_def by blast

lemma same_outside_upd: "a \<in> A \<Longrightarrow> h a = Some n \<Longrightarrow> same_outside A h (h(a \<mapsto> v))"
  by (simp add: same_outside_def)

lemma same_outside_alloc: "same_outside A h h' \<Longrightarrow> h x = Some n \<Longrightarrow> \<exists>n'. h' x = Some n'"
  unfolding same_outside_def by (metis not_None_eq)

lemma same_outsideD: "same_outside A h h' \<Longrightarrow> x \<notin> A \<Longrightarrow> h' x = h x"
  by (simp add: same_outside_def)

lemma same_outside_dom: "same_outside A h h' \<Longrightarrow> dom h' = dom h"
  unfolding same_outside_def dom_def by simp

section \<open>Words read as natural numbers\<close>

lemma u32_of_nat_eq_iff:
  "a < 2 ^ 32 \<Longrightarrow> b < 2 ^ 32 \<Longrightarrow> (of_nat a :: u32) = of_nat b \<longleftrightarrow> a = b"
  by (simp add: word_of_nat_eq_iff take_bit_nat_eq_self)

lemma u32_of_nat_less_iff:
  "a < 2 ^ 32 \<Longrightarrow> b < 2 ^ 32 \<Longrightarrow> (of_nat a :: u32) < of_nat b \<longleftrightarrow> a < b"
  by (simp add: word_of_nat_less_iff take_bit_nat_eq_self)

lemma unat_of_nat_u32: "n < 2 ^ 32 \<Longrightarrow> unat (of_nat n :: u32) = n"
  by (simp add: unat_of_nat take_bit_nat_eq_self)

lemma unat_of_nat_u64: "n < 2 ^ 64 \<Longrightarrow> unat (of_nat n :: u64) = n"
  by (simp add: unat_of_nat take_bit_nat_eq_self)

lemma unat_pow2_u64: "k < 64 \<Longrightarrow> unat (2 ^ k :: u64) = 2 ^ k"
  using unat_of_nat_u64 [of "2 ^ k"] power_strict_increasing [of k 64 "2 :: nat"] by simp

lemma u64_of_nat_eq_iff:
  "a < 2 ^ 64 \<Longrightarrow> b < 2 ^ 64 \<Longrightarrow> (of_nat a :: u64) = of_nat b \<longleftrightarrow> a = b"
  by (simp add: word_of_nat_eq_iff take_bit_nat_eq_self)

section \<open>Lists\<close>

lemma sorted_wrt_remove1': "sorted_wrt P xs \<Longrightarrow> sorted_wrt P (remove1 a xs)"
  by (induction xs) (auto dest: notin_set_remove1)

end
