(* ===== verification/Avl_Tree.thy ===== *)
theory Avl_Tree
  imports Prelude "HOL-Library.Tree"
begin

text \<open>
  The reference level of the AVL tree: pure binary trees labelled with node addresses, whose
  heights are recomputed, and a zipper that names a position in such a tree. The pointer code of
  \<open>avl.cpp\<close> (theory \<open>Avl\<close>) is proved to compute these functions; here they are proved to keep the
  in-order sequence and the height balance.
\<close>

section \<open>Positions in a tree\<close>

datatype 'a crumb = LeftOf 'a "'a tree" | RightOf "'a tree" 'a

fun plug :: "'a crumb \<Rightarrow> 'a tree \<Rightarrow> 'a tree" where
  "plug (LeftOf a r) t = \<langle>t, a, r\<rangle>"
| "plug (RightOf l a) t = \<langle>l, a, t\<rangle>"

fun plug_all :: "'a tree \<Rightarrow> 'a crumb list \<Rightarrow> 'a tree" where
  "plug_all t [] = t"
| "plug_all t (c # cs) = plug_all (plug c t) cs"

fun crumb_list :: "'a crumb \<Rightarrow> 'a list" where
  "crumb_list (LeftOf a r) = a # inorder r"
| "crumb_list (RightOf l a) = inorder l @ [a]"

fun ctx_left :: "'a crumb list \<Rightarrow> 'a list" where
  "ctx_left [] = []"
| "ctx_left (LeftOf a r # cs) = ctx_left cs"
| "ctx_left (RightOf l a # cs) = ctx_left cs @ inorder l @ [a]"

fun ctx_right :: "'a crumb list \<Rightarrow> 'a list" where
  "ctx_right [] = []"
| "ctx_right (LeftOf a r # cs) = a # inorder r @ ctx_right cs"
| "ctx_right (RightOf l a # cs) = ctx_right cs"

definition ctx_set :: "'a crumb list \<Rightarrow> 'a set" where
  "ctx_set cs = set (ctx_left cs) \<union> set (ctx_right cs)"

definition ctx_size :: "'a crumb list \<Rightarrow> nat" where
  "ctx_size cs = length (ctx_left cs) + length (ctx_right cs)"

lemma ctx_set_simps [simp]:
  "ctx_set [] = {}"
  "ctx_set (LeftOf a r # cs) = insert a (set_tree r \<union> ctx_set cs)"
  "ctx_set (RightOf l a # cs) = insert a (set_tree l \<union> ctx_set cs)"
  by (auto simp: ctx_set_def)

lemma ctx_size_simps [simp]:
  "ctx_size [] = 0"
  "ctx_size (LeftOf a r # cs) = 1 + size r + ctx_size cs"
  "ctx_size (RightOf l a # cs) = 1 + size l + ctx_size cs"
  by (simp_all add: ctx_size_def)

lemma inorder_plug_all [simp]:
  "inorder (plug_all t cs) = ctx_left cs @ inorder t @ ctx_right cs"
proof (induction cs arbitrary: t)
  case (Cons c cs)
  then show ?case by (cases c) simp_all
qed simp

lemma set_plug_all: "set_tree (plug_all t cs) = set_tree t \<union> ctx_set cs"
  by (auto simp: ctx_set_def simp flip: set_inorder)

lemma size_plug_all: "size (plug_all t cs) = size t + ctx_size cs"
  by (simp add: ctx_size_def flip: length_inorder)

lemma plug_all_distinct:
  assumes "distinct (inorder (plug_all t cs))"
  shows "distinct (inorder t)" "set_tree t \<inter> ctx_set cs = {}"
  using assms by (auto simp: ctx_set_def)

section \<open>Height balance\<close>

fun avl :: "'a tree \<Rightarrow> bool" where
  "avl \<langle>\<rangle> = True"
| "avl \<langle>l, a, r\<rangle> = (height l \<le> height r + 1 \<and> height r \<le> height l + 1 \<and> avl l \<and> avl r)"

text \<open>\<open>ctx_avl k cs\<close>: around a hole that holds a tree of height \<open>k\<close>, every node is balanced.\<close>

fun ctx_avl :: "nat \<Rightarrow> 'a crumb list \<Rightarrow> bool" where
  "ctx_avl k [] = True"
| "ctx_avl k (LeftOf a r # cs) =
     (k \<le> height r + 1 \<and> height r \<le> k + 1 \<and> avl r \<and> ctx_avl (max k (height r) + 1) cs)"
| "ctx_avl k (RightOf l a # cs) =
     (height l \<le> k + 1 \<and> k \<le> height l + 1 \<and> avl l \<and> ctx_avl (max (height l) k + 1) cs)"

lemma avl_plug_all: "avl (plug_all t cs) \<longleftrightarrow> avl t \<and> ctx_avl (height t) cs"
proof (induction cs arbitrary: t)
  case (Cons c cs)
  then show ?case by (cases c) auto
qed simp

section \<open>Rotations and rebalancing\<close>

fun rotl :: "'a tree \<Rightarrow> 'a tree" where
  "rotl \<langle>a, x, \<langle>b, y, c\<rangle>\<rangle> = \<langle>\<langle>a, x, b\<rangle>, y, c\<rangle>"
| "rotl t = t"

fun rotr :: "'a tree \<Rightarrow> 'a tree" where
  "rotr \<langle>\<langle>a, x, b\<rangle>, y, c\<rangle> = \<langle>a, x, \<langle>b, y, c\<rangle>\<rangle>"
| "rotr t = t"

fun fixl :: "'a tree \<Rightarrow> 'a tree" where
  "fixl \<langle>\<langle>ll, y, lr\<rangle>, x, r\<rangle> =
     rotr \<langle>if height ll < height lr then rotl \<langle>ll, y, lr\<rangle> else \<langle>ll, y, lr\<rangle>, x, r\<rangle>"
| "fixl t = t"

fun fixr :: "'a tree \<Rightarrow> 'a tree" where
  "fixr \<langle>l, x, \<langle>rl, y, rr\<rangle>\<rangle> =
     rotl \<langle>l, x, if height rr < height rl then rotr \<langle>rl, y, rr\<rangle> else \<langle>rl, y, rr\<rangle>\<rangle>"
| "fixr t = t"

fun bal :: "'a tree \<Rightarrow> 'a tree" where
  "bal \<langle>\<rangle> = \<langle>\<rangle>"
| "bal \<langle>l, x, r\<rangle> =
     (if height l = height r + 2 then fixl \<langle>l, x, r\<rangle>
      else if height l + 2 = height r then fixr \<langle>l, x, r\<rangle> else \<langle>l, x, r\<rangle>)"

fun rebalance :: "'a tree \<Rightarrow> 'a crumb list \<Rightarrow> 'a tree" where
  "rebalance t [] = bal t"
| "rebalance t (c # cs) = rebalance (plug c (bal t)) cs"

fun rebal_up :: "'a tree \<Rightarrow> 'a crumb list \<Rightarrow> 'a tree" where
  "rebal_up t [] = t"
| "rebal_up t (c # cs) = rebalance (plug c t) cs"

lemma inorder_rotl [simp]: "inorder (rotl t) = inorder t"
  by (induction t rule: rotl.induct) auto

lemma inorder_rotr [simp]: "inorder (rotr t) = inorder t"
  by (induction t rule: rotr.induct) auto

lemma inorder_fixl [simp]: "inorder (fixl t) = inorder t"
  by (induction t rule: fixl.induct) (auto simp del: rotl.simps rotr.simps)

lemma inorder_fixr [simp]: "inorder (fixr t) = inorder t"
  by (induction t rule: fixr.induct) (auto simp del: rotl.simps rotr.simps)

lemma inorder_bal [simp]: "inorder (bal t) = inorder t"
  by (cases t) (auto simp del: fixl.simps fixr.simps)

lemma set_bal [simp]: "set_tree (bal t) = set_tree t"
  by (metis inorder_bal set_inorder)

lemma size_bal [simp]: "size (bal t) = size t"
  by (metis inorder_bal length_inorder)

lemma inorder_plug_cong: "inorder t = inorder t' \<Longrightarrow> inorder (plug c t) = inorder (plug c t')"
  by (cases c) auto

lemma inorder_rebalance [simp]:
  "inorder (rebalance t cs) = ctx_left cs @ inorder t @ ctx_right cs"
proof (induction cs arbitrary: t)
  case (Cons c cs)
  then show ?case by (cases c) auto
qed simp

lemma inorder_rebal_up [simp]:
  "inorder (rebal_up t cs) = ctx_left cs @ inorder t @ ctx_right cs"
proof (cases cs)
  case (Cons c cs)
  then show ?thesis by (cases c) auto
qed simp

lemma set_rebalance: "set_tree (rebalance t cs) = set_tree t \<union> ctx_set cs"
  by (auto simp: ctx_set_def simp flip: set_inorder)

lemma set_rebal_up: "set_tree (rebal_up t cs) = set_tree t \<union> ctx_set cs"
  by (auto simp: ctx_set_def simp flip: set_inorder)

section \<open>Rebalancing restores the balance\<close>

text \<open>
  A node whose subtrees differ by two is repaired, and its height shrinks by at most one. The
  statement covers insertion (the deeper subtree leans to one side) and deletion (it may not).
\<close>

definition near :: "nat \<Rightarrow> nat \<Rightarrow> bool" where
  "near a b \<longleftrightarrow> a \<le> b + 1 \<and> b \<le> a + 1"

lemma fixl_avl:
  assumes "avl l" "avl r" "height l = height r + 2"
  shows "avl (fixl \<langle>l, x, r\<rangle>) \<and> height (fixl \<langle>l, x, r\<rangle>) \<in> {height r + 2, height r + 3}"
proof (cases l)
  case (Node ll y lr)
  with assms show ?thesis by (cases lr) (auto simp: max_def split: if_splits)
qed (use assms in auto)

lemma fixr_avl:
  assumes "avl l" "avl r" "height l + 2 = height r"
  shows "avl (fixr \<langle>l, x, r\<rangle>) \<and> height (fixr \<langle>l, x, r\<rangle>) \<in> {height l + 2, height l + 3}"
proof (cases r)
  case (Node rl y rr)
  with assms show ?thesis by (cases rl) (auto simp: max_def split: if_splits)
qed (use assms in auto)

lemma bal_avl:
  assumes "avl l" "avl r" "height l \<le> height r + 2" "height r \<le> height l + 2"
  shows "avl (bal \<langle>l, x, r\<rangle>)"
  using assms fixl_avl [of l r x] fixr_avl [of l r x]
  by (auto simp del: fixl.simps fixr.simps)

lemma height_bal:
  assumes "avl l" "avl r" "height l \<le> height r + 2" "height r \<le> height l + 2"
  shows "height (bal \<langle>l, x, r\<rangle>) \<in>
    (if height l = height r + 2 \<or> height r = height l + 2
     then {max (height l) (height r), max (height l) (height r) + 1}
     else {max (height l) (height r) + 1})"
  using assms fixl_avl [of l r x] fixr_avl [of l r x]
  by (auto simp del: fixl.simps fixr.simps)

lemma rebalance_avl:
  assumes "avl l" "avl r" "height l \<le> height r + 2" "height r \<le> height l + 2"
    and "near (height (bal \<langle>l, x, r\<rangle>)) k" "ctx_avl k cs"
  shows "avl (rebalance \<langle>l, x, r\<rangle> cs)"
  using assms
proof (induction cs arbitrary: l x r k)
  case Nil
  then show ?case using bal_avl [of l r x] by (simp del: bal.simps)
next
  case (Cons c cs)
  let ?t = "bal \<langle>l, x, r\<rangle>"
  have t: "avl ?t" using Cons.prems by (intro bal_avl)
  show ?case
  proof (cases c)
    case (LeftOf a s)
    let ?h = "height (bal \<langle>?t, a, s\<rangle>)"
    have s: "avl s" "k \<le> height s + 1" "height s \<le> k + 1" "ctx_avl (max k (height s) + 1) cs"
      using Cons.prems LeftOf by auto
    have nk: "height ?t \<le> k + 1" "k \<le> height ?t + 1"
      using Cons.prems(5) by (simp_all add: near_def del: bal.simps)
    have d: "height ?t \<le> height s + 2" "height s \<le> height ?t + 2" using s nk by linarith+
    have "near ?h (max k (height s) + 1)"
      using height_bal [OF t s(1) d, of a] s(2,3) nk
      by (auto simp: near_def simp del: bal.simps split: if_splits)
    from Cons.IH [OF t s(1) d this s(4)] LeftOf show ?thesis by (simp del: bal.simps)
  next
    case (RightOf s a)
    let ?h = "height (bal \<langle>s, a, ?t\<rangle>)"
    have s: "avl s" "height s \<le> k + 1" "k \<le> height s + 1" "ctx_avl (max (height s) k + 1) cs"
      using Cons.prems RightOf by auto
    have nk: "height ?t \<le> k + 1" "k \<le> height ?t + 1"
      using Cons.prems(5) by (simp_all add: near_def del: bal.simps)
    have d: "height s \<le> height ?t + 2" "height ?t \<le> height s + 2" using s nk by linarith+
    have "near ?h (max (height s) k + 1)"
      using height_bal [OF s(1) t d, of a] s(2,3) nk
      by (auto simp: near_def simp del: bal.simps split: if_splits)
    from Cons.IH [OF s(1) t d this s(4)] RightOf show ?thesis by (simp del: bal.simps)
  qed
qed

lemma rebal_up_avl:
  assumes "avl t" "near (height t) k" "ctx_avl k cs"
  shows "avl (rebal_up t cs)"
proof (cases cs)
  case Nil
  with assms show ?thesis by simp
next
  case (Cons c cs')
  note nk = assms(2)[unfolded near_def]
  show ?thesis
  proof (cases c)
    case (LeftOf a s)
    then have s: "avl s" "k \<le> height s + 1" "height s \<le> k + 1" "ctx_avl (max k (height s) + 1) cs'"
      using assms Cons by auto
    have d: "height t \<le> height s + 2" "height s \<le> height t + 2" using s nk by linarith+
    have "near (height (bal \<langle>t, a, s\<rangle>)) (max k (height s) + 1)"
      using height_bal [OF assms(1) s(1) d, of a] s(2,3) nk
      by (auto simp: near_def simp del: bal.simps split: if_splits)
    from rebalance_avl [OF assms(1) s(1) d this s(4)] show ?thesis
      using LeftOf Cons by simp
  next
    case (RightOf s a)
    then have s: "avl s" "height s \<le> k + 1" "k \<le> height s + 1" "ctx_avl (max (height s) k + 1) cs'"
      using assms Cons by auto
    have d: "height s \<le> height t + 2" "height t \<le> height s + 2" using s nk by linarith+
    have "near (height (bal \<langle>s, a, t\<rangle>)) (max (height s) k + 1)"
      using height_bal [OF s(1) assms(1) d, of a] s(2,3) nk
      by (auto simp: near_def simp del: bal.simps split: if_splits)
    from rebalance_avl [OF s(1) assms(1) d this s(4)] show ?thesis
      using RightOf Cons by simp
  qed
qed

lemma rebalance_insert_avl:
  assumes "avl (plug_all \<langle>\<rangle> cs)"
  shows "avl (rebalance \<langle>\<langle>\<rangle>, x, \<langle>\<rangle>\<rangle> cs)"
  by (rule rebalance_avl [where k = 0]) (use assms in \<open>auto simp: avl_plug_all near_def\<close>)


section \<open>Deletion at a position\<close>

fun go_left :: "'a tree \<Rightarrow> 'a crumb list \<Rightarrow> 'a tree \<times> 'a crumb list" where
  "go_left \<langle>\<langle>ll, b, lr\<rangle>, a, r\<rangle> cs = go_left \<langle>ll, b, lr\<rangle> (LeftOf a r # cs)"
| "go_left t cs = (t, cs)"

definition relabel :: "'a \<Rightarrow> 'a \<Rightarrow> 'a tree \<Rightarrow> 'a tree" where
  "relabel a v = map_tree (\<lambda>x. if x = a then v else x)"

lemma go_left_plug: "go_left t cs = (v, cs') \<Longrightarrow> plug_all v cs' = plug_all t cs"
  by (induction t cs rule: go_left.induct) auto

lemma go_left_ctx_left: "go_left t cs = (v, cs') \<Longrightarrow> ctx_left cs' = ctx_left cs"
  by (induction t cs rule: go_left.induct) auto

lemma go_left_Node: "t \<noteq> \<langle>\<rangle> \<Longrightarrow> go_left t cs = (v, cs') \<Longrightarrow> \<exists>b s. v = \<langle>\<langle>\<rangle>, b, s\<rangle>"
  by (induction t cs rule: go_left.induct) auto

lemma go_left_size: "go_left t cs = (v, cs') \<Longrightarrow> size v \<le> size t"
  by (induction t cs rule: go_left.induct) auto

function avl_del :: "'a tree \<Rightarrow> 'a crumb list \<Rightarrow> 'a tree" where
  "avl_del \<langle>\<rangle> cs = plug_all \<langle>\<rangle> cs"
| "avl_del \<langle>l, a, r\<rangle> cs =
     (if r = \<langle>\<rangle> then rebal_up l cs
      else case go_left r (RightOf l a # cs) of (v, cs') \<Rightarrow>
        (case v of \<langle>\<rangle> \<Rightarrow> avl_del v cs' | \<langle>_, b, _\<rangle> \<Rightarrow> relabel a b (avl_del v cs')))"
  by pat_completeness auto
termination
  by (relation "measure (\<lambda>(t, cs). size t)") (auto dest: go_left_size split: prod.split)

declare avl_del.simps(2) [simp del]

lemma avl_del_no_right [simp]: "avl_del \<langle>l, a, \<langle>\<rangle>\<rangle> cs = rebal_up l cs"
  by (simp add: avl_del.simps(2))

lemma avl_del_right:
  "r \<noteq> \<langle>\<rangle> \<Longrightarrow> go_left r (RightOf l a # cs) = (\<langle>\<langle>\<rangle>, b, s\<rangle>, cs') \<Longrightarrow>
   avl_del \<langle>l, a, r\<rangle> cs = relabel a b (avl_del \<langle>\<langle>\<rangle>, b, s\<rangle> cs')"
  by (simp add: avl_del.simps(2))

lemma successor_cases:
  assumes "r \<noteq> \<langle>\<rangle>"
  obtains b s cs' where "go_left r (RightOf l a # cs) = (\<langle>\<langle>\<rangle>, b, s\<rangle>, cs')" "size s < size r"
proof -
  obtain v cs' where g: "go_left r (RightOf l a # cs) = (v, cs')" by fastforce
  from go_left_Node [OF assms g] obtain b s where v: "v = \<langle>\<langle>\<rangle>, b, s\<rangle>" by blast
  with go_left_size [OF g] have "size s < size r" by simp
  with g v that show thesis by blast
qed

lemma avl_relabel [simp]: "avl (relabel a v t) = avl t" "height (relabel a v t) = height t"
proof -
  have h: "height (map_tree f u) = height u" for f :: "'a \<Rightarrow> 'a" and u by (induction u) auto
  show "height (relabel a v t) = height t" by (simp add: relabel_def h)
  show "avl (relabel a v t) = avl t" unfolding relabel_def by (induction t) (auto simp: h)
qed

lemma inorder_relabel: "inorder (relabel a v t) = map (\<lambda>x. if x = a then v else x) (inorder t)"
  unfolding relabel_def by (induction t) auto

lemma map_replace_id: "a \<notin> set xs \<Longrightarrow> map (\<lambda>x. if x = a then v else x) xs = xs"
  by (induction xs) auto

text \<open>Deleting at a position removes exactly that label from the in-order sequence.\<close>

lemma inorder_avl_del:
  assumes "distinct (inorder (plug_all \<langle>l, a, r\<rangle> cs))"
  shows "inorder (avl_del \<langle>l, a, r\<rangle> cs) = ctx_left cs @ inorder l @ inorder r @ ctx_right cs"
  using assms
proof (induction "size r" arbitrary: l a r cs rule: less_induct)
  case less
  show ?case
  proof (cases "r = \<langle>\<rangle>")
    case False
    then obtain b s cs' where g: "go_left r (RightOf l a # cs) = (\<langle>\<langle>\<rangle>, b, s\<rangle>, cs')"
      and sz: "size s < size r" by (rule successor_cases)
    have pl: "plug_all \<langle>\<langle>\<rangle>, b, s\<rangle> cs' = plug_all \<langle>l, a, r\<rangle> cs"
      using go_left_plug [OF g] by simp
    have cl: "ctx_left cs' = ctx_left cs @ inorder l @ [a]"
      using go_left_ctx_left [OF g] by simp
    have sp: "inorder r @ ctx_right cs = b # inorder s @ ctx_right cs'"
      using arg_cong [OF pl, of inorder] cl by simp
    have d: "distinct (inorder (plug_all \<langle>\<langle>\<rangle>, b, s\<rangle> cs'))" using less.prems pl by simp
    have IH: "inorder (avl_del \<langle>\<langle>\<rangle>, b, s\<rangle> cs') = ctx_left cs' @ inorder s @ ctx_right cs'"
      using less.hyps [OF sz d] by simp
    have da: "a \<notin> set (ctx_left cs)" "a \<notin> set (inorder l)" "a \<notin> set (inorder r @ ctx_right cs)"
      using less.prems by auto
    then have "a \<notin> set (inorder s)" "a \<notin> set (ctx_right cs')" unfolding sp by auto
    with da show ?thesis
      unfolding avl_del_right [OF False g] inorder_relabel IH cl
      by (simp add: map_replace_id sp del: set_inorder)
  qed auto
qed

lemma avl_del_avl:
  assumes "avl (plug_all \<langle>l, a, r\<rangle> cs)"
  shows "avl (avl_del \<langle>l, a, r\<rangle> cs)"
  using assms
proof (induction "size r" arbitrary: l a r cs rule: less_induct)
  case less
  show ?case
  proof (cases "r = \<langle>\<rangle>")
    case True
    have "near (height l) (height \<langle>l, a, r\<rangle>)" using less.prems True
      by (auto simp: avl_plug_all near_def)
    with less.prems True rebal_up_avl show ?thesis by (auto simp: avl_plug_all)
  next
    case False
    then obtain b s cs' where g: "go_left r (RightOf l a # cs) = (\<langle>\<langle>\<rangle>, b, s\<rangle>, cs')"
      and sz: "size s < size r" by (rule successor_cases)
    have "plug_all \<langle>\<langle>\<rangle>, b, s\<rangle> cs' = plug_all \<langle>l, a, r\<rangle> cs"
      using go_left_plug [OF g] by simp
    with less.hyps [OF sz, of "\<langle>\<rangle>" b cs'] less.prems show ?thesis
      by (simp add: avl_del_right [OF False g])
  qed
qed

end
