(* ===== verification/Avl_Refine.thy ===== *)
theory Avl_Refine
  imports Avl
begin

text \<open>
  Refinement of \<open>avl.cpp\<close> to the reference trees. \<open>tree_at h par p t\<close> says that the store \<open>h\<close>
  holds, at pointer \<open>p\<close> below the parent \<open>par\<close>, the tree \<open>t\<close> with consistent parent pointers and
  up-to-date depth and count fields. \<open>ctx_at\<close> describes the nodes around a position; their
  depth and count fields may be stale while a rebalancing walk is under way.
\<close>

section \<open>Representation of trees and positions\<close>

fun tree_at :: "avl_store \<Rightarrow> ptr \<Rightarrow> ptr \<Rightarrow> addr tree \<Rightarrow> bool" where
  "tree_at h par p \<langle>\<rangle> \<longleftrightarrow> p = None"
| "tree_at h par p \<langle>l, a, r\<rangle> \<longleftrightarrow> p = Some a \<and>
     (case h a of None \<Rightarrow> False | Some n \<Rightarrow>
        parent n = par \<and> depth n = of_nat (height \<langle>l, a, r\<rangle>) \<and> cnt n = of_nat (size \<langle>l, a, r\<rangle>) \<and>
        tree_at h (Some a) (left n) l \<and> tree_at h (Some a) (right n) r)"

definition node_at :: "avl_store \<Rightarrow> ptr \<Rightarrow> addr tree \<Rightarrow> addr \<Rightarrow> addr tree \<Rightarrow> bool" where
  "node_at h par l a r \<longleftrightarrow> (case h a of None \<Rightarrow> False | Some n \<Rightarrow>
     parent n = par \<and> tree_at h (Some a) (left n) l \<and> tree_at h (Some a) (right n) r)"

fun ctx_at :: "avl_store \<Rightarrow> ptr \<Rightarrow> ptr \<Rightarrow> addr crumb list \<Rightarrow> bool" where
  "ctx_at h par q [] \<longleftrightarrow> par = None"
| "ctx_at h par q (LeftOf a r # cs) \<longleftrightarrow> par = Some a \<and>
     (case h a of None \<Rightarrow> False | Some n \<Rightarrow>
        left n = q \<and> tree_at h (Some a) (right n) r \<and> ctx_at h (parent n) (Some a) cs)"
| "ctx_at h par q (RightOf l a # cs) \<longleftrightarrow> par = Some a \<and>
     (case h a of None \<Rightarrow> False | Some n \<Rightarrow>
        right n = q \<and> tree_at h (Some a) (left n) l \<and> ctx_at h (parent n) (Some a) cs)"

definition avl_fits :: "nat \<Rightarrow> bool" where
  "avl_fits k \<longleftrightarrow> k + 2 < 2 ^ 32"

lemma avl_fits_mono: "avl_fits k \<Longrightarrow> j \<le> k \<Longrightarrow> avl_fits j"
  by (simp add: avl_fits_def)

lemma tree_at_cong:
  "(\<And>x. x \<in> set_tree t \<Longrightarrow> h' x = h x) \<Longrightarrow> tree_at h' par p t = tree_at h par p t"
proof (induction t arbitrary: par p)
  case (Node l a r)
  then have "h' a = h a" by simp
  with Node show ?case by (auto split: option.splits)
qed simp

lemma ctx_at_cong:
  "(\<And>x. x \<in> ctx_set cs \<Longrightarrow> h' x = h x) \<Longrightarrow> ctx_at h' par q cs = ctx_at h par q cs"
proof (induction h par q cs rule: ctx_at.induct)
  case (2 h par q a r cs)
  then have "h' a = h a" "tree_at h' (Some a) p r = tree_at h (Some a) p r" for p
    using tree_at_cong [of r h' h] by auto
  with 2 show ?case by (auto split: option.splits)
next
  case (3 h par q l a cs)
  then have "h' a = h a" "tree_at h' (Some a) p l = tree_at h (Some a) p l" for p
    using tree_at_cong [of l h' h] by auto
  with 3 show ?case by (auto split: option.splits)
qed simp

lemma tree_at_frame:
  "same_outside A h h' \<Longrightarrow> set_tree t \<inter> A = {} \<Longrightarrow> tree_at h' par p t = tree_at h par p t"
  by (rule tree_at_cong) (auto simp: same_outside_def)

lemma ctx_at_frame:
  "same_outside A h h' \<Longrightarrow> ctx_set cs \<inter> A = {} \<Longrightarrow> ctx_at h' par q cs = ctx_at h par q cs"
  by (rule ctx_at_cong) (auto simp: same_outside_def)

lemma tree_at_upd [simp]: "a \<notin> set_tree t \<Longrightarrow> tree_at (h(a := v)) par p t = tree_at h par p t"
  by (rule tree_at_cong) auto

lemma ctx_at_upd [simp]: "a \<notin> ctx_set cs \<Longrightarrow> ctx_at (h(a := v)) par q cs = ctx_at h par q cs"
  by (rule ctx_at_cong) auto

lemma tree_at_null [simp]: "tree_at h par None t \<longleftrightarrow> t = \<langle>\<rangle>"
  by (cases t) auto

lemma tree_at_Some: "tree_at h par (Some a) t \<Longrightarrow> \<exists>l r. t = \<langle>l, a, r\<rangle>"
  by (cases t) auto

lemma tree_at_null_iff: "tree_at h par p t \<Longrightarrow> p = None \<longleftrightarrow> t = \<langle>\<rangle>"
  by (cases t) auto

lemma tree_at_alloc: "tree_at h par p t \<Longrightarrow> set_tree t \<subseteq> dom h"
  by (induction t arbitrary: par p) (fastforce split: option.splits)+

lemma ctx_at_alloc: "ctx_at h par q cs \<Longrightarrow> ctx_set cs \<subseteq> dom h"
proof (induction cs arbitrary: par q)
  case (Cons c cs)
  then show ?case by (cases c) (fastforce split: option.splits dest: tree_at_alloc)+
qed simp

lemma tree_at_node_at: "tree_at h par p \<langle>l, a, r\<rangle> \<Longrightarrow> node_at h par l a r"
  by (auto simp: node_at_def split: option.splits)

section \<open>Depth, count and update\<close>

lemma height_le_size: "height (t :: 'a tree) \<le> size t"
  by (induction t) auto

lemma avl_depth_tree: "tree_at h par p t \<Longrightarrow> avl_depth h p = ret (of_nat (height t))"
  by (cases t) (auto simp: avl_depth_def split: option.splits)

lemma avl_count_tree: "tree_at h par p t \<Longrightarrow> avl_count h p = ret (of_nat (size t))"
  by (cases t) (auto simp: avl_count_def split: option.splits)

lemma max_u32_of_nat:
  "a < 2 ^ 32 \<Longrightarrow> b < 2 ^ 32 \<Longrightarrow> max_u32 (of_nat a) (of_nat b) = of_nat (max a b)"
  by (simp add: max_u32_def u32_of_nat_less_iff max_def)

lemma avl_update_node:
  assumes "node_at h par l a r" "a \<notin> set_tree l" "a \<notin> set_tree r" "avl_fits (size l)" "avl_fits (size r)"
  shows "\<exists>h'. avl_update h (Some a) = ret h' \<and> tree_at h' par (Some a) \<langle>l, a, r\<rangle> \<and> same_outside {a} h h'"
proof -
  from assms(1) obtain n where n: "h a = Some n" "parent n = par"
      "tree_at h (Some a) (left n) l" "tree_at h (Some a) (right n) r"
    by (auto simp: node_at_def split: option.splits)
  have mx: "max_u32 (of_nat (height l)) (of_nat (height r)) = of_nat (max (height l) (height r))"
    using assms(4,5) height_le_size [of l] height_le_size [of r]
    by (intro max_u32_of_nat) (auto simp: avl_fits_def)
  let ?h = "h(a \<mapsto> n\<lparr>depth := 1 + of_nat (max (height l) (height r))\<rparr>)"
  let ?n = "n\<lparr>depth := 1 + of_nat (max (height l) (height r)), cnt := 1 + of_nat (size l) + of_nat (size r)\<rparr>"
  have c: "avl_count ?h (left n) = ret (of_nat (size l))" "avl_count ?h (right n) = ret (of_nat (size r))"
    using n assms(2,3) by (auto intro!: avl_count_tree [where par = "Some a"])
  have "avl_update h (Some a) = ret (h(a \<mapsto> ?n))"
    using n c by (simp add: avl_update_def avl_depth_tree mx)
  moreover have "tree_at (h(a \<mapsto> ?n)) par (Some a) \<langle>l, a, r\<rangle>"
    using n assms(2,3) by simp
  moreover have "same_outside {a} h (h(a \<mapsto> ?n))" using n by (simp add: same_outside_upd)
  ultimately show ?thesis by blast
qed

lemma set_parent_tree:
  assumes "tree_at h par p t" "distinct (inorder t)"
  shows "\<exists>h'. set_parent h p q = ret h' \<and> tree_at h' q p t \<and> same_outside (set_tree t) h h'"
proof (cases t)
  case Leaf
  with assms show ?thesis by (auto simp: set_parent_def)
next
  case (Node l a r)
  with assms obtain n where "p = Some a" "h a = Some n" by (auto split: option.splits)
  with assms Node show ?thesis
    by (intro exI [of _ "h(a \<mapsto> n\<lparr>parent := q\<rparr>)"]) (auto simp: set_parent_def intro: same_outside_upd)
qed

section \<open>Rotations\<close>

lemma node_at_cases:
  assumes "node_at h par l a r"
  obtains n where "h a = Some n" "parent n = par" "tree_at h (Some a) (left n) l"
    "tree_at h (Some a) (right n) r"
  using assms by (auto simp: node_at_def split: option.splits)

lemma tree_at_cases:
  assumes "tree_at h par p \<langle>l, a, r\<rangle>"
  obtains n where "p = Some a" "h a = Some n" "parent n = par"
    "tree_at h (Some a) (left n) l" "tree_at h (Some a) (right n) r"
  using assms by (auto split: option.splits)

lemma rotate_left_node:
  assumes nd: "node_at h par A x \<langle>B, y, C\<rangle>" and d: "distinct (inorder \<langle>A, x, \<langle>B, y, C\<rangle>\<rangle>)"
    and f: "avl_fits (size \<langle>A, x, \<langle>B, y, C\<rangle>\<rangle>)"
  shows "\<exists>h'. rotate_left h (Some x) = ret (h', Some y) \<and>
    tree_at h' par (Some y) \<langle>\<langle>A, x, B\<rangle>, y, C\<rangle> \<and> same_outside ({x, y} \<union> set_tree B) h h'"
proof -
  from nd obtain n where n: "h x = Some n" "parent n = par" "tree_at h (Some x) (left n) A"
    "tree_at h (Some x) (right n) \<langle>B, y, C\<rangle>" by (rule node_at_cases)
  from n(4) obtain m where m: "right n = Some y" "h y = Some m"
    "tree_at h (Some y) (left m) B" "tree_at h (Some y) (right m) C" by (rule tree_at_cases) blast
  obtain h1 where h1: "set_parent h (left m) (Some x) = ret h1" "tree_at h1 (Some x) (left m) B"
    "same_outside (set_tree B) h h1" using set_parent_tree [OF m(3), of "Some x"] d by auto
  have xy: "h1 x = Some n" "h1 y = Some m" "x \<noteq> y"
    using d n m same_outsideD [OF h1(3)] by auto
  define h2 where "h2 = h1(x \<mapsto> n\<lparr>right := left m, parent := Some y\<rparr>, y \<mapsto> m\<lparr>left := Some x, parent := par\<rparr>)"
  have "tree_at h1 (Some x) (left n) A" using n(3) tree_at_frame [OF h1(3), of A] d by auto
  then have "node_at h2 (Some y) A x B" using d h1(2) xy by (auto simp: node_at_def h2_def)
  then obtain h3 where h3: "avl_update h2 (Some x) = ret h3" "tree_at h3 (Some y) (Some x) \<langle>A, x, B\<rangle>"
    "same_outside {x} h2 h3" using d f avl_update_node [of h2 "Some y" A x B]
    by (auto simp: avl_fits_def)
  have "tree_at h1 (Some y) (right m) C" using m(4) tree_at_frame [OF h1(3), of C] d by auto
  then have "tree_at h3 (Some y) (right m) C"
    using d xy tree_at_frame [OF h3(3), of C] by (auto simp: h2_def)
  moreover have "h3 y = Some (m\<lparr>left := Some x, parent := par\<rparr>)"
    using same_outsideD [OF h3(3), of y] xy by (auto simp: h2_def)
  ultimately have "node_at h3 par \<langle>A, x, B\<rangle> y C" using h3(2) by (simp add: node_at_def)
  then obtain h4 where h4: "avl_update h3 (Some y) = ret h4" "tree_at h4 par (Some y) \<langle>\<langle>A, x, B\<rangle>, y, C\<rangle>"
    "same_outside {y} h3 h4" using d f avl_update_node [of h3 par "\<langle>A, x, B\<rangle>" y C]
    by (auto simp: avl_fits_def)
  have "h1(x \<mapsto> n\<lparr>right := left m\<rparr>, y \<mapsto> m\<lparr>left := Some x\<rparr>, y \<mapsto> m\<lparr>left := Some x, parent := par\<rparr>,
      x \<mapsto> n\<lparr>right := left m, parent := Some y\<rparr>) = h2"
    using xy by (auto simp: h2_def)
  then have "rotate_left h (Some x) = ret (h4, Some y)"
    using n(1,2) m(1,2) h1(1) xy h3(1) h4(1) by (simp add: rotate_left_def)
  have "same_outside {x, y} h1 h2" using xy unfolding h2_def by (simp add: same_outside_def)
  from same_outside_comp [OF h1(3) same_outside_comp [OF this same_outside_comp [OF h3(3) h4(3)]]]
  have "same_outside ({x, y} \<union> set_tree B) h h4" by (rule same_outside_mono) auto
  with h4(2) \<open>_ = ret (h4, _)\<close> show ?thesis by blast
qed

lemma rotate_right_node:
  assumes nd: "node_at h par \<langle>A, x, B\<rangle> y C" and d: "distinct (inorder \<langle>\<langle>A, x, B\<rangle>, y, C\<rangle>)"
    and f: "avl_fits (size \<langle>\<langle>A, x, B\<rangle>, y, C\<rangle>)"
  shows "\<exists>h'. rotate_right h (Some y) = ret (h', Some x) \<and>
    tree_at h' par (Some x) \<langle>A, x, \<langle>B, y, C\<rangle>\<rangle> \<and> same_outside ({x, y} \<union> set_tree B) h h'"
proof -
  from nd obtain n where n: "h y = Some n" "parent n = par" "tree_at h (Some y) (left n) \<langle>A, x, B\<rangle>"
    "tree_at h (Some y) (right n) C" by (rule node_at_cases)
  from n(3) obtain m where m: "left n = Some x" "h x = Some m"
    "tree_at h (Some x) (left m) A" "tree_at h (Some x) (right m) B" by (rule tree_at_cases) blast
  obtain h1 where h1: "set_parent h (right m) (Some y) = ret h1" "tree_at h1 (Some y) (right m) B"
    "same_outside (set_tree B) h h1" using set_parent_tree [OF m(4), of "Some y"] d by auto
  have xy: "h1 y = Some n" "h1 x = Some m" "x \<noteq> y"
    using d n m same_outsideD [OF h1(3)] by auto
  define h2 where "h2 = h1(y \<mapsto> n\<lparr>left := right m, parent := Some x\<rparr>, x \<mapsto> m\<lparr>right := Some y, parent := par\<rparr>)"
  have "tree_at h1 (Some y) (right n) C" using n(4) tree_at_frame [OF h1(3), of C] d by auto
  then have "node_at h2 (Some x) B y C" using d h1(2) xy by (auto simp: node_at_def h2_def)
  then obtain h3 where h3: "avl_update h2 (Some y) = ret h3" "tree_at h3 (Some x) (Some y) \<langle>B, y, C\<rangle>"
    "same_outside {y} h2 h3" using d f avl_update_node [of h2 "Some x" B y C]
    by (auto simp: avl_fits_def)
  have "tree_at h1 (Some x) (left m) A" using m(3) tree_at_frame [OF h1(3), of A] d by auto
  then have "tree_at h3 (Some x) (left m) A"
    using d xy tree_at_frame [OF h3(3), of A] by (auto simp: h2_def)
  moreover have "h3 x = Some (m\<lparr>right := Some y, parent := par\<rparr>)"
    using same_outsideD [OF h3(3), of x] xy by (auto simp: h2_def)
  ultimately have "node_at h3 par A x \<langle>B, y, C\<rangle>" using h3(2) by (simp add: node_at_def)
  then obtain h4 where h4: "avl_update h3 (Some x) = ret h4" "tree_at h4 par (Some x) \<langle>A, x, \<langle>B, y, C\<rangle>\<rangle>"
    "same_outside {x} h3 h4" using d f avl_update_node [of h3 par A x "\<langle>B, y, C\<rangle>"]
    by (auto simp: avl_fits_def)
  have "h1(y \<mapsto> n\<lparr>left := right m\<rparr>, x \<mapsto> m\<lparr>right := Some y\<rparr>, x \<mapsto> m\<lparr>right := Some y, parent := par\<rparr>,
      y \<mapsto> n\<lparr>left := right m, parent := Some x\<rparr>) = h2"
    using xy by (auto simp: h2_def)
  then have "rotate_right h (Some y) = ret (h4, Some x)"
    using n(1,2) m(1,2) h1(1) xy h3(1) h4(1) by (simp add: rotate_right_def)
  have "same_outside {x, y} h1 h2" using xy unfolding h2_def by (simp add: same_outside_def)
  from same_outside_comp [OF h1(3) same_outside_comp [OF this same_outside_comp [OF h3(3) h4(3)]]]
  have "same_outside ({x, y} \<union> set_tree B) h h4" by (rule same_outside_mono) auto
  with h4(2) \<open>_ = ret (h4, _)\<close> show ?thesis by blast
qed

section \<open>The balancing step\<close>

lemma fix_left_tree:
  assumes t: "tree_at h par (Some x) \<langle>\<langle>A, y, B\<rangle>, x, r\<rangle>" and d: "distinct (inorder \<langle>\<langle>A, y, B\<rangle>, x, r\<rangle>)"
    and f: "avl_fits (size \<langle>\<langle>A, y, B\<rangle>, x, r\<rangle>)"
  shows "\<exists>h' q. avl_fix_left h (Some x) = ret (h', q) \<and> tree_at h' par q (fixl \<langle>\<langle>A, y, B\<rangle>, x, r\<rangle>) \<and>
    same_outside (set_tree \<langle>\<langle>A, y, B\<rangle>, x, r\<rangle>) h h'"
proof -
  from t obtain n where n: "h x = Some n" "parent n = par" "tree_at h (Some x) (left n) \<langle>A, y, B\<rangle>"
    "tree_at h (Some x) (right n) r" by (rule tree_at_cases)
  from n(3) obtain m where m: "left n = Some y" "h y = Some m"
    "tree_at h (Some y) (left m) A" "tree_at h (Some y) (right m) B" by (rule tree_at_cases) blast
  have lt: "(of_nat (height A) :: u32) < of_nat (height B) \<longleftrightarrow> height A < height B"
    using f height_le_size [of A] height_le_size [of B]
    by (intro u32_of_nat_less_iff) (auto simp: avl_fits_def)
  show ?thesis
  proof (cases "height A < height B")
    case False
    obtain h' where h': "rotate_right h (Some x) = ret (h', Some y)"
      "tree_at h' par (Some y) \<langle>A, y, \<langle>B, x, r\<rangle>\<rangle>" "same_outside ({y, x} \<union> set_tree B) h h'"
      using rotate_right_node [OF tree_at_node_at [OF t] d f] by blast
    have "same_outside (set_tree \<langle>\<langle>A, y, B\<rangle>, x, r\<rangle>) h h'"
      by (rule same_outside_mono [OF h'(3)]) auto
    then show ?thesis
      using n m lt False h' by (auto simp: avl_fix_left_def avl_depth_tree)
  next
    case True
    then obtain C z D where B: "B = \<langle>C, z, D\<rangle>" by (cases B) auto
    have "node_at h (Some x) A y \<langle>C, z, D\<rangle>" using n(3) B by (simp add: tree_at_node_at)
    then obtain h1 where h1: "rotate_left h (Some y) = ret (h1, Some z)"
      "tree_at h1 (Some x) (Some z) \<langle>\<langle>A, y, C\<rangle>, z, D\<rangle>" "same_outside ({y, z} \<union> set_tree C) h h1"
      using rotate_left_node [of h "Some x" A y C z D] d f B by (auto simp: avl_fits_def)
    have hx: "h1 x = Some n" using same_outsideD [OF h1(3), of x] d n B by auto
    have "tree_at h1 (Some x) (right n) r" using n(4) tree_at_frame [OF h1(3), of r] d B by auto
    then have "node_at (h1(x \<mapsto> n\<lparr>left := Some z\<rparr>)) par \<langle>\<langle>A, y, C\<rangle>, z, D\<rangle> x r"
      using h1(2) d B n(2) by (auto simp: node_at_def split: option.splits)
    then obtain h2 where h2: "rotate_right (h1(x \<mapsto> n\<lparr>left := Some z\<rparr>)) (Some x) = ret (h2, Some z)"
      "tree_at h2 par (Some z) \<langle>\<langle>A, y, C\<rangle>, z, \<langle>D, x, r\<rangle>\<rangle>"
      "same_outside ({z, x} \<union> set_tree D) (h1(x \<mapsto> n\<lparr>left := Some z\<rparr>)) h2"
      using rotate_right_node [of "h1(x \<mapsto> n\<lparr>left := Some z\<rparr>)" par "\<langle>A, y, C\<rangle>" z D x r] d f B
      by (auto simp: avl_fits_def)
    have "avl_fix_left h (Some x) = ret (h2, Some z)"
      using n m lt True h1(1) hx h2(1) by (simp add: avl_fix_left_def avl_depth_tree)
    moreover have "same_outside {x} h1 (h1(x \<mapsto> n\<lparr>left := Some z\<rparr>))"
      using hx by (simp add: same_outside_upd)
    from same_outside_comp [OF h1(3) same_outside_comp [OF this h2(3)]]
    have "same_outside (set_tree \<langle>\<langle>A, y, B\<rangle>, x, r\<rangle>) h h2" by (rule same_outside_mono) (auto simp: B)
    ultimately show ?thesis using h2(2) B True by auto
  qed
qed

lemma fix_right_tree:
  assumes t: "tree_at h par (Some x) \<langle>l, x, \<langle>A, y, B\<rangle>\<rangle>" and d: "distinct (inorder \<langle>l, x, \<langle>A, y, B\<rangle>\<rangle>)"
    and f: "avl_fits (size \<langle>l, x, \<langle>A, y, B\<rangle>\<rangle>)"
  shows "\<exists>h' q. avl_fix_right h (Some x) = ret (h', q) \<and> tree_at h' par q (fixr \<langle>l, x, \<langle>A, y, B\<rangle>\<rangle>) \<and>
    same_outside (set_tree \<langle>l, x, \<langle>A, y, B\<rangle>\<rangle>) h h'"
proof -
  from t obtain n where n: "h x = Some n" "parent n = par" "tree_at h (Some x) (left n) l"
    "tree_at h (Some x) (right n) \<langle>A, y, B\<rangle>" by (rule tree_at_cases)
  from n(4) obtain m where m: "right n = Some y" "h y = Some m"
    "tree_at h (Some y) (left m) A" "tree_at h (Some y) (right m) B" by (rule tree_at_cases) blast
  have lt: "(of_nat (height B) :: u32) < of_nat (height A) \<longleftrightarrow> height B < height A"
    using f height_le_size [of A] height_le_size [of B]
    by (intro u32_of_nat_less_iff) (auto simp: avl_fits_def)
  show ?thesis
  proof (cases "height B < height A")
    case False
    obtain h' where h': "rotate_left h (Some x) = ret (h', Some y)"
      "tree_at h' par (Some y) \<langle>\<langle>l, x, A\<rangle>, y, B\<rangle>" "same_outside ({x, y} \<union> set_tree A) h h'"
      using rotate_left_node [OF tree_at_node_at [OF t] d f] by blast
    have "same_outside (set_tree \<langle>l, x, \<langle>A, y, B\<rangle>\<rangle>) h h'"
      by (rule same_outside_mono [OF h'(3)]) auto
    then show ?thesis
      using n m lt False h' by (auto simp: avl_fix_right_def avl_depth_tree)
  next
    case True
    then obtain C z D where A: "A = \<langle>C, z, D\<rangle>" by (cases A) auto
    have "node_at h (Some x) \<langle>C, z, D\<rangle> y B" using n(4) A by (simp add: tree_at_node_at)
    then obtain h1 where h1: "rotate_right h (Some y) = ret (h1, Some z)"
      "tree_at h1 (Some x) (Some z) \<langle>C, z, \<langle>D, y, B\<rangle>\<rangle>" "same_outside ({z, y} \<union> set_tree D) h h1"
      using rotate_right_node [of h "Some x" C z D y B] d f A by (auto simp: avl_fits_def)
    have hx: "h1 x = Some n" using same_outsideD [OF h1(3), of x] d n A by auto
    have "tree_at h1 (Some x) (left n) l" using n(3) tree_at_frame [OF h1(3), of l] d A by (auto simp: Int_Un_distrib)
    then have "node_at (h1(x \<mapsto> n\<lparr>right := Some z\<rparr>)) par l x \<langle>C, z, \<langle>D, y, B\<rangle>\<rangle>"
      using h1(2) d A n(2) by (auto simp: node_at_def split: option.splits)
    then obtain h2 where h2: "rotate_left (h1(x \<mapsto> n\<lparr>right := Some z\<rparr>)) (Some x) = ret (h2, Some z)"
      "tree_at h2 par (Some z) \<langle>\<langle>l, x, C\<rangle>, z, \<langle>D, y, B\<rangle>\<rangle>"
      "same_outside ({x, z} \<union> set_tree C) (h1(x \<mapsto> n\<lparr>right := Some z\<rparr>)) h2"
      using rotate_left_node [of "h1(x \<mapsto> n\<lparr>right := Some z\<rparr>)" par l x C z "\<langle>D, y, B\<rangle>"] d f A
      by (auto simp: avl_fits_def)
    have "avl_fix_right h (Some x) = ret (h2, Some z)"
      using n m lt True h1(1) hx h2(1) by (simp add: avl_fix_right_def avl_depth_tree)
    moreover have "same_outside {x} h1 (h1(x \<mapsto> n\<lparr>right := Some z\<rparr>))"
      using hx by (simp add: same_outside_upd)
    from same_outside_comp [OF h1(3) same_outside_comp [OF this h2(3)]]
    have "same_outside (set_tree \<langle>l, x, \<langle>A, y, B\<rangle>\<rangle>) h h2" by (rule same_outside_mono) (auto simp: A)
    ultimately show ?thesis using h2(2) A True by auto
  qed
qed

lemma u32_depth_plus_two:
  assumes "avl_fits a" "avl_fits b"
  shows "(of_nat a :: u32) = of_nat b + 2 \<longleftrightarrow> a = b + 2"
proof -
  have "(of_nat b + 2 :: u32) = of_nat (b + 2)" by simp
  then show ?thesis using assms u32_of_nat_eq_iff [of a "b + 2"] by (simp add: avl_fits_def add.commute)
qed

lemma bal_tree:
  assumes t: "tree_at h par (Some x) \<langle>l, x, r\<rangle>" and d: "distinct (inorder \<langle>l, x, r\<rangle>)"
    and f: "avl_fits (size \<langle>l, x, r\<rangle>)"
  shows "\<exists>h' q. (if (of_nat (height l) :: u32) = of_nat (height r) + 2 then avl_fix_left h (Some x)
      else if (of_nat (height l) :: u32) + 2 = of_nat (height r) then avl_fix_right h (Some x)
      else ret (h, Some x)) = ret (h', q) \<and>
    tree_at h' par q (bal \<langle>l, x, r\<rangle>) \<and> same_outside (set_tree \<langle>l, x, r\<rangle>) h h'"
proof -
  have fh: "avl_fits (height l)" "avl_fits (height r)"
    using f height_le_size [of l] height_le_size [of r] by (auto simp: avl_fits_def)
  have c1: "(of_nat (height l) :: u32) = of_nat (height r) + 2 \<longleftrightarrow> height l = height r + 2"
    using fh by (rule u32_depth_plus_two)
  have c2: "(of_nat (height l) :: u32) + 2 = of_nat (height r) \<longleftrightarrow> height l + 2 = height r"
    using u32_depth_plus_two [OF fh(2,1)] by metis
  consider "height l = height r + 2" | "height l + 2 = height r"
    | "height l \<noteq> height r + 2" "height l + 2 \<noteq> height r" by blast
  then show ?thesis
  proof cases
    case 1
    then obtain A y B where l: "l = \<langle>A, y, B\<rangle>" by (cases l) auto
    with 1 fix_left_tree [of h par x A y B r] t d f show ?thesis
      unfolding c1 c2 bal.simps by (simp del: fixl.simps tree_at.simps)
  next
    case 2
    then obtain A y B where r: "r = \<langle>A, y, B\<rangle>" by (cases r) auto
    with 2 fix_right_tree [of h par x l A y B] t d f show ?thesis
      unfolding c1 c2 bal.simps by (simp del: fixr.simps tree_at.simps)
  next
    case 3
    with t show ?thesis unfolding c1 c2 bal.simps by (simp del: tree_at.simps)
  qed
qed

section \<open>The rebalancing walk\<close>

text \<open>One iteration of the loop, up to the write through \<open>from\<close>.\<close>

lemma rebalance_iteration:
  assumes nd: "node_at h par l a r" and d: "distinct (inorder \<langle>l, a, r\<rangle>)"
    and f: "avl_fits (size \<langle>l, a, r\<rangle>)"
    and pl: "\<And>h'. same_outside {a} h h' \<Longrightarrow>
      (if par \<noteq> None then bindE (child_link h' par (Some a)) (\<lambda>k. ret (Some k)) else ret None) = ret from"
  shows "\<exists>h' q. tree_at h' par q (bal \<langle>l, a, r\<rangle>) \<and> same_outside (set_tree \<langle>l, a, r\<rangle>) h h' \<and>
    avl_rebalance h (Some a) =
      (case from of None \<Rightarrow> ret (h', q)
       | Some k \<Rightarrow> bindE (set_link h' k q) (\<lambda>h. bindE (rd h q) (\<lambda>n. avl_rebalance h (parent n))))"
proof -
  obtain h1 where h1: "avl_update h (Some a) = ret h1" "tree_at h1 par (Some a) \<langle>l, a, r\<rangle>"
    "same_outside {a} h h1" using avl_update_node [OF nd] d f by (auto simp: avl_fits_def)
  then obtain n where n: "h1 a = Some n" "parent n = par"
    "tree_at h1 (Some a) (left n) l" "tree_at h1 (Some a) (right n) r"
    by (elim tree_at_cases)
  obtain h2 q where h2: "(if (of_nat (height l) :: u32) = of_nat (height r) + 2 then avl_fix_left h1 (Some a)
      else if (of_nat (height l) :: u32) + 2 = of_nat (height r) then avl_fix_right h1 (Some a)
      else ret (h1, Some a)) = ret (h2, q)"
    "tree_at h2 par q (bal \<langle>l, a, r\<rangle>)" "same_outside (set_tree \<langle>l, a, r\<rangle>) h1 h2"
    using bal_tree [OF h1(2) d f] by blast
  have "avl_rebalance h (Some a) =
      (case from of None \<Rightarrow> ret (h2, q)
       | Some k \<Rightarrow> bindE (set_link h2 k q) (\<lambda>h. bindE (rd h q) (\<lambda>n. avl_rebalance h (parent n))))"
    using pl [OF h1(3)] n h2(1)
    by (subst avl_rebalance.simps) (cases par, auto simp: h1(1) avl_depth_tree)
  moreover have "same_outside (set_tree \<langle>l, a, r\<rangle>) h h2"
    using h1(3) h2(3) by (rule same_outside_trans) auto
  ultimately show ?thesis using h2(2) by blast
qed

lemma bal_root: "tree_at h par q (bal \<langle>l, a, r\<rangle>) \<Longrightarrow> \<exists>b n. q = Some b \<and> h b = Some n \<and> parent n = par \<and> b \<in> set_tree \<langle>l, a, r\<rangle>"
proof -
  assume t: "tree_at h par q (bal \<langle>l, a, r\<rangle>)"
  have "bal \<langle>l, a, r\<rangle> \<noteq> \<langle>\<rangle>" by (metis inorder_bal inorder.simps(1) inorder.simps(2) Nil_is_append_conv list.distinct(1))
  then obtain l' b r' where b: "bal \<langle>l, a, r\<rangle> = \<langle>l', b, r'\<rangle>" by (cases "bal \<langle>l, a, r\<rangle>") auto
  have "b \<in> set_tree (bal \<langle>l, a, r\<rangle>)" unfolding b by simp
  with t b show ?thesis unfolding set_bal by (auto split: option.splits simp del: bal.simps)
qed

text \<open>One iteration that ends at a parent: the subtree is balanced and the loop continues at the parent.\<close>

lemma rebalance_below:
  assumes nd: "node_at h (Some b) l a r" and d: "distinct (inorder \<langle>l, a, r\<rangle>)" and fits: "avl_fits (size \<langle>l, a, r\<rangle>)"
    and b: "h b = Some n" "b \<notin> set_tree \<langle>l, a, r\<rangle>"
    and k: "k = LeftLink (Some b) \<and> left n = Some a \<and> upd = left_update \<or>
      k = RightLink (Some b) \<and> left n \<noteq> Some a \<and> upd = right_update"
  obtains h' q where "tree_at h' (Some b) q (bal \<langle>l, a, r\<rangle>)" "same_outside (set_tree \<langle>l, a, r\<rangle>) h h'" "h' b = Some n"
    "tree_at (h'(b \<mapsto> upd (\<lambda>_. q) n)) (Some b) q (bal \<langle>l, a, r\<rangle>)"
    "avl_rebalance h (Some a) = avl_rebalance (h'(b \<mapsto> upd (\<lambda>_. q) n)) (Some b)"
proof -
  let ?t = "\<langle>l, a, r\<rangle>"
  obtain h' q where h': "tree_at h' (Some b) q (bal ?t)" "same_outside (set_tree ?t) h h'"
    "avl_rebalance h (Some a) = bindE (set_link h' k q) (\<lambda>h. bindE (rd h q) (\<lambda>n. avl_rebalance h (parent n)))"
    using rebalance_iteration [OF nd d fits, of "Some k"] b k by (auto simp: child_link_def same_outside_def)
  have hb: "h' b = Some n" using same_outsideD [OF h'(2) b(2)] b(1) by simp
  let ?h = "h'(b \<mapsto> upd (\<lambda>_. q) n)"
  have tb: "tree_at ?h (Some b) q (bal ?t)" using h'(1) b(2) by (simp del: bal.simps)
  have "set_link h' k q = ret ?h" using k hb by auto
  then have "avl_rebalance h (Some a) = avl_rebalance ?h (Some b)" using h'(3) bal_root [OF tb] by auto
  then show thesis using that [OF h'(1,2) hb tb] by blast
qed

lemma rebalance_crumb:
  assumes nd: "node_at h par l a r" and ctx: "ctx_at h par (Some a) (c # cs)"
    and d: "distinct (inorder (plug_all \<langle>l, a, r\<rangle> (c # cs)))" and fits: "avl_fits (size \<langle>l, a, r\<rangle>)"
  shows "\<exists>h' b l' r' par'. plug c (bal \<langle>l, a, r\<rangle>) = \<langle>l', b, r'\<rangle> \<and> node_at h' par' l' b r' \<and> ctx_at h' par' (Some b) cs \<and>
    avl_rebalance h (Some a) = avl_rebalance h' (Some b) \<and> same_outside (set_tree (plug c \<langle>l, a, r\<rangle>)) h h'"
proof -
  let ?t = "\<langle>l, a, r\<rangle>"
  have dt: "distinct (inorder ?t)" "set_tree ?t \<inter> ctx_set (c # cs) = {}"
    using plug_all_distinct [OF d] by (auto simp del: plug_all.simps)
  have same: "same_outside (insert b (set_tree ?t)) h (h'(b \<mapsto> m))" if "same_outside (set_tree ?t) h h'" "h' b = Some n" for b h' m n
    by (rule same_outside_mono [OF same_outside_comp [OF that(1) same_outside_upd [of b "{b}" h' n]]]) (use that(2) in auto)
  show ?thesis
  proof (cases c)
    case (LeftOf b s)
    with ctx obtain n where n: "par = Some b" "h b = Some n" "left n = Some a"
      "tree_at h (Some b) (right n) s" "ctx_at h (parent n) (Some b) cs" by (auto split: option.splits)
    have ba: "b \<notin> set_tree ?t" "set_tree s \<inter> set_tree ?t = {}" "ctx_set cs \<inter> set_tree ?t = {}"
      "b \<notin> set_tree s" "b \<notin> ctx_set cs"
      using dt(2) LeftOf d by (auto simp: ctx_set_def)
    obtain h' q where h': "same_outside (set_tree ?t) h h'" "h' b = Some n"
      "tree_at (h'(b \<mapsto> n\<lparr>left := q\<rparr>)) (Some b) q (bal ?t)" "avl_rebalance h (Some a) = avl_rebalance (h'(b \<mapsto> n\<lparr>left := q\<rparr>)) (Some b)"
      using rebalance_below [OF nd [unfolded n(1)] dt(1) fits n(2) ba(1), of _ left_update] n(3) by metis
    have "tree_at h' (Some b) (right n) s" using n(4) tree_at_frame [OF h'(1) ba(2)] by simp
    with h'(3) ba(4) have "node_at (h'(b \<mapsto> n\<lparr>left := q\<rparr>)) (parent n) (bal ?t) b s" by (simp add: node_at_def del: bal.simps)
    moreover have "ctx_at (h'(b \<mapsto> n\<lparr>left := q\<rparr>)) (parent n) (Some b) cs"
      using n(5) ctx_at_frame [OF h'(1) ba(3)] ba(5) by simp
    moreover have "same_outside (set_tree (plug c ?t)) h (h'(b \<mapsto> n\<lparr>left := q\<rparr>))"
      by (rule same_outside_mono [OF same [OF h'(1,2)]]) (use LeftOf in auto)
    ultimately show ?thesis using LeftOf h'(4) by (auto simp del: bal.simps)
  next
    case (RightOf s b)
    with ctx obtain n where n: "par = Some b" "h b = Some n" "right n = Some a"
      "tree_at h (Some b) (left n) s" "ctx_at h (parent n) (Some b) cs" by (auto split: option.splits)
    have ba: "b \<notin> set_tree ?t" "set_tree s \<inter> set_tree ?t = {}" "ctx_set cs \<inter> set_tree ?t = {}"
      "b \<notin> set_tree s" "b \<notin> ctx_set cs"
      using dt(2) RightOf d by (auto simp: ctx_set_def)
    have na: "left n \<noteq> Some a" using n(4) ba(2) tree_at_Some [of h "Some b" a s] by auto
    obtain h' q where h': "same_outside (set_tree ?t) h h'" "h' b = Some n"
      "tree_at (h'(b \<mapsto> n\<lparr>right := q\<rparr>)) (Some b) q (bal ?t)" "avl_rebalance h (Some a) = avl_rebalance (h'(b \<mapsto> n\<lparr>right := q\<rparr>)) (Some b)"
      using rebalance_below [OF nd [unfolded n(1)] dt(1) fits n(2) ba(1), of _ right_update] na by metis
    have "tree_at h' (Some b) (left n) s" using n(4) tree_at_frame [OF h'(1) ba(2)] by simp
    with h'(3) ba(4) have "node_at (h'(b \<mapsto> n\<lparr>right := q\<rparr>)) (parent n) s b (bal ?t)" by (simp add: node_at_def del: bal.simps)
    moreover have "ctx_at (h'(b \<mapsto> n\<lparr>right := q\<rparr>)) (parent n) (Some b) cs"
      using n(5) ctx_at_frame [OF h'(1) ba(3)] ba(5) by simp
    moreover have "same_outside (set_tree (plug c ?t)) h (h'(b \<mapsto> n\<lparr>right := q\<rparr>))"
      by (rule same_outside_mono [OF same [OF h'(1,2)]]) (use RightOf in auto)
    ultimately show ?thesis using RightOf h'(4) by (auto simp del: bal.simps)
  qed
qed

lemma avl_rebalance_node:
  assumes "node_at h par l a r" "ctx_at h par (Some a) cs"
    and "distinct (inorder (plug_all \<langle>l, a, r\<rangle> cs))" "avl_fits (size (plug_all \<langle>l, a, r\<rangle> cs))"
  shows "\<exists>h' root. avl_rebalance h (Some a) = ret (h', root) \<and>
    tree_at h' None root (rebalance \<langle>l, a, r\<rangle> cs) \<and> same_outside (set_tree (plug_all \<langle>l, a, r\<rangle> cs)) h h'"
  using assms
proof (induction cs arbitrary: h par l a r)
  case Nil
  then show ?case using rebalance_iteration [of h None l a r None] by auto
next
  case (Cons c cs)
  let ?t = "\<langle>l, a, r\<rangle>"
  have "avl_fits (size ?t)" using Cons.prems(4) by (auto simp: size_plug_all avl_fits_def simp del: plug_all.simps)
  from rebalance_crumb [OF Cons.prems(1,2,3) this] obtain h1 b l' r' par' where
    s: "plug c (bal ?t) = \<langle>l', b, r'\<rangle>" "node_at h1 par' l' b r'" "ctx_at h1 par' (Some b) cs"
      "avl_rebalance h (Some a) = avl_rebalance h1 (Some b)" "same_outside (set_tree (plug c ?t)) h h1" by blast
  have io: "inorder \<langle>l', b, r'\<rangle> = inorder (plug c ?t)" unfolding s(1) [symmetric] by (cases c) (simp_all del: bal.simps)
  have set: "set_tree \<langle>l', b, r'\<rangle> = set_tree (plug c ?t)" using arg_cong [OF io, of set] unfolding set_inorder .
  have size: "size \<langle>l', b, r'\<rangle> = size (plug c ?t)" using arg_cong [OF io, of length] unfolding length_inorder .
  have "distinct (inorder (plug_all \<langle>l', b, r'\<rangle> cs))" "avl_fits (size (plug_all \<langle>l', b, r'\<rangle> cs))"
    using Cons.prems(3,4) unfolding plug_all.simps inorder_plug_all [of "\<langle>l', b, r'\<rangle>"] io size_plug_all [of "\<langle>l', b, r'\<rangle>"] size
    by (simp_all add: size_plug_all)
  from Cons.IH [OF s(2,3) this] obtain h2 root where h2: "avl_rebalance h1 (Some b) = ret (h2, root)"
    "tree_at h2 None root (rebalance \<langle>l', b, r'\<rangle> cs)" "same_outside (set_tree (plug_all \<langle>l', b, r'\<rangle> cs)) h1 h2" by blast
  have "same_outside (set_tree (plug_all ?t (c # cs))) h h2"
    by (rule same_outside_trans [OF s(5) h2(3)]) (auto simp: set_plug_all set simp del: tree.set)
  moreover have "rebalance ?t (c # cs) = rebalance \<langle>l', b, r'\<rangle> cs" using s(1) by simp
  ultimately show ?case using h2(1,2) s(4) by simp
qed

end
