(* ===== verification/Avl_Ops.thy ===== *)
theory Avl_Ops
  imports Avl_Refine
begin

text \<open>
  Correctness of the operations of \<open>avl.cpp\<close> that start from a node of a tree: unlinking it
  (\<open>avl_delete\<close>) and walking from it by an offset (\<open>avl_offset\<close>), and of linking a new leaf followed
  by \<open>avl_rebalance\<close>, the way \<open>tree_add\<close> uses it.
\<close>

section \<open>A tree seen from one of its positions\<close>

fun ctx_tree_at :: "avl_store \<Rightarrow> ptr \<Rightarrow> ptr \<Rightarrow> nat \<Rightarrow> nat \<Rightarrow> ptr \<Rightarrow> addr crumb list \<Rightarrow> bool" where
  "ctx_tree_at h par q k s root [] \<longleftrightarrow> par = None \<and> root = q"
| "ctx_tree_at h par q k s root (LeftOf a r # cs) \<longleftrightarrow> par = Some a \<and>
     (case h a of None \<Rightarrow> False | Some n \<Rightarrow>
        left n = q \<and> tree_at h (Some a) (right n) r \<and>
        depth n = of_nat (max k (height r) + 1) \<and> cnt n = of_nat (s + size r + 1) \<and>
        ctx_tree_at h (parent n) (Some a) (max k (height r) + 1) (s + size r + 1) root cs)"
| "ctx_tree_at h par q k s root (RightOf l a # cs) \<longleftrightarrow> par = Some a \<and>
     (case h a of None \<Rightarrow> False | Some n \<Rightarrow>
        right n = q \<and> tree_at h (Some a) (left n) l \<and>
        depth n = of_nat (max (height l) k + 1) \<and> cnt n = of_nat (size l + s + 1) \<and>
        ctx_tree_at h (parent n) (Some a) (max (height l) k + 1) (size l + s + 1) root cs)"

lemma tree_at_plug_all:
  "tree_at h None root (plug_all t cs) \<longleftrightarrow>
   (\<exists>par q. tree_at h par q t \<and> ctx_tree_at h par q (height t) (size t) root cs)"
proof (induction cs arbitrary: t)
  case (Cons c cs)
  show ?case
  proof (cases c)
    case (LeftOf a r)
    with Cons show ?thesis by (auto split: option.splits)
  next
    case (RightOf l a)
    with Cons show ?thesis by (auto split: option.splits)
  qed
qed auto

lemma ctx_tree_at_ctx_at: "ctx_tree_at h par q k s root cs \<Longrightarrow> ctx_at h par q cs"
  by (induction h par q k s root cs rule: ctx_tree_at.induct) (auto split: option.splits)

lemma ctx_tree_at_cong:
  "(\<And>x. x \<in> ctx_set cs \<Longrightarrow> h' x = h x) \<Longrightarrow>
   ctx_tree_at h' par q k s root cs = ctx_tree_at h par q k s root cs"
proof (induction h par q k s root cs rule: ctx_tree_at.induct)
  case (2 h par q k s root a r cs)
  then have "h' a = h a" "tree_at h' (Some a) p r = tree_at h (Some a) p r" for p
    using tree_at_cong [of r h' h] by auto
  with 2 show ?case by (auto split: option.splits)
next
  case (3 h par q k s root l a cs)
  then have "h' a = h a" "tree_at h' (Some a) p l = tree_at h (Some a) p l" for p
    using tree_at_cong [of l h' h] by auto
  with 3 show ?case by (auto split: option.splits)
qed simp

lemma ctx_tree_at_frame:
  "same_outside A h h' \<Longrightarrow> ctx_set cs \<inter> A = {} \<Longrightarrow>
   ctx_tree_at h' par q k s root cs = ctx_tree_at h par q k s root cs"
  by (rule ctx_tree_at_cong) (auto simp: same_outside_def)

lemma ctx_tree_at_upd [simp]:
  "a \<notin> ctx_set cs \<Longrightarrow> ctx_tree_at (h(a := v)) par q k s root cs = ctx_tree_at h par q k s root cs"
  by (rule ctx_tree_at_cong) auto

lemma ctx_tree_at_null: "ctx_tree_at h par q k s root cs \<Longrightarrow> par = None \<longleftrightarrow> cs = []"
  by (induction h par q k s root cs rule: ctx_tree_at.induct) auto

lemma position_exists: "a \<in> set_tree t \<Longrightarrow> \<exists>l r cs. t = plug_all \<langle>l, a, r\<rangle> cs"
proof -
  have "a \<in> set_tree t \<Longrightarrow> \<exists>l r cs'. plug_all t cs = plug_all \<langle>l, a, r\<rangle> cs'" for cs
  proof (induction t arbitrary: cs)
    case (Node l b r)
    then consider "a = b" | "a \<in> set_tree l" | "a \<in> set_tree r" by auto
    then show ?case
    proof cases
      case 1
      then show ?thesis by blast
    next
      case 2
      with Node.IH(1) [of "LeftOf b r # cs"] show ?thesis by simp
    next
      case 3
      with Node.IH(2) [of "RightOf l b # cs"] show ?thesis by simp
    qed
  qed simp
  from this [of "[]"] show "a \<in> set_tree t \<Longrightarrow> \<exists>l r cs. t = plug_all \<langle>l, a, r\<rangle> cs" by simp
qed

text \<open>Writing through \<open>from\<close> replaces the subtree pointer at a position.\<close>

lemma child_link_set:
  assumes c: "ctx_at h par (Some a) cs" and ne: "cs \<noteq> []"
    and d: "distinct (ctx_left cs @ a # ctx_right cs)"
  shows "\<exists>k h'. child_link h par (Some a) = ret k \<and> set_link h k q = ret h' \<and>
    ctx_at h' par q cs \<and> same_outside (ctx_set cs) h h' \<and>
    (\<forall>j s root. ctx_tree_at h par (Some a) j s root cs \<longrightarrow> ctx_tree_at h' par q j s root cs)"
proof -
  from ne obtain c' cs' where cs: "cs = c' # cs'" by (cases cs) auto
  show ?thesis
  proof (cases c')
    case (LeftOf b r)
    with c cs obtain n where n: "par = Some b" "h b = Some n" "left n = Some a"
      "tree_at h (Some b) (right n) r" "ctx_at h (parent n) (Some b) cs'" by (auto split: option.splits)
    have "b \<notin> set_tree r" "b \<notin> ctx_set cs'" using d cs LeftOf by (auto simp: ctx_set_def)
    with n cs LeftOf show ?thesis
      by (intro exI [of _ "LeftLink (Some b)"] exI [of _ "h(b \<mapsto> n\<lparr>left := q\<rparr>)"])
        (auto simp: child_link_def intro: same_outside_upd)
  next
    case (RightOf l b)
    with c cs obtain n where n: "par = Some b" "h b = Some n" "right n = Some a"
      "tree_at h (Some b) (left n) l" "ctx_at h (parent n) (Some b) cs'" by (auto split: option.splits)
    have nb: "b \<notin> set_tree l" "b \<notin> ctx_set cs'" "a \<notin> set_tree l"
      using d cs RightOf by (auto simp: ctx_set_def)
    then have "left n \<noteq> Some a" using n(4) tree_at_Some [of h "Some b" a l] by auto
    with n nb cs RightOf show ?thesis
      by (intro exI [of _ "RightLink (Some b)"] exI [of _ "h(b \<mapsto> n\<lparr>right := q\<rparr>)"])
        (auto simp: child_link_def intro: same_outside_upd)
  qed
qed

section \<open>Linking a new leaf\<close>

lemma ctx_node:
  assumes "tree_at h par q t" "ctx_at h par q (c # cs)" "set_tree t \<inter> ctx_set (c # cs) = {}"
  obtains b l r par' where "par = Some b" "plug c t = \<langle>l, b, r\<rangle>" "node_at h par' l b r" "ctx_at h par' (Some b) cs"
proof (cases c)
  case (LeftOf b r)
  with assms that [of b t r] show thesis by (auto simp: node_at_def split: option.splits)
next
  case (RightOf l b)
  with assms that [of b l t] show thesis by (auto simp: node_at_def split: option.splits)
qed

text \<open>
  \<open>avl_rebalance\<close> started at the parent of a position whose subtree has changed.
\<close>

lemma avl_rebalance_ctx:
  assumes "tree_at h par q t" "ctx_at h par q (c # cs)"
    and "distinct (inorder (plug_all t (c # cs)))" "avl_fits (size (plug_all t (c # cs)))"
  shows "\<exists>h' root. avl_rebalance h par = ret (h', root) \<and>
    tree_at h' None root (rebal_up t (c # cs)) \<and> same_outside (set_tree (plug_all t (c # cs))) h h'"
proof -
  obtain b l r par' where b: "par = Some b" "plug c t = \<langle>l, b, r\<rangle>" "node_at h par' l b r"
    "ctx_at h par' (Some b) cs"
    using ctx_node [OF assms(1,2)] plug_all_distinct(2) [OF assms(3)] by blast
  show ?thesis using avl_rebalance_node [OF b(3,4)] assms(3,4) b(1,2) by simp
qed

section \<open>Deletion\<close>

lemma leftmost_tree:
  "t \<noteq> \<langle>\<rangle> \<Longrightarrow> tree_at h par p t \<Longrightarrow> go_left t cs = (\<langle>\<langle>\<rangle>, b, s\<rangle>, cs') \<Longrightarrow> leftmost h p = ret (Some b)"
proof (induction t cs arbitrary: par p rule: go_left.induct)
  case (1 ll c lr a r cs)
  then obtain n where n: "p = Some a" "h a = Some n" "tree_at h (Some a) (left n) \<langle>ll, c, lr\<rangle>"
    by (auto split: option.splits)
  then have "left n \<noteq> None" by (auto simp del: not_None_eq)
  with n 1 show ?case by (subst leftmost.simps) (simp del: tree_at.simps)
qed (auto simp: leftmost.simps split: option.splits)

lemma avl_delete_no_right:
  assumes t: "tree_at h None root (plug_all \<langle>l, a, \<langle>\<rangle>\<rangle> cs)"
    and d: "distinct (inorder (plug_all \<langle>l, a, \<langle>\<rangle>\<rangle> cs))"
    and f: "avl_fits (size (plug_all \<langle>l, a, \<langle>\<rangle>\<rangle> cs))"
  shows "\<exists>h' root'. avl_delete h (Some a) = ret (h', root') \<and> tree_at h' None root' (rebal_up l cs) \<and>
    same_outside (set_tree (plug_all \<langle>l, a, \<langle>\<rangle>\<rangle> cs)) h h'"
proof -
  from t obtain par q where q: "tree_at h par q \<langle>l, a, \<langle>\<rangle>\<rangle>"
    "ctx_tree_at h par q (height \<langle>l, a, \<langle>\<rangle>\<rangle>) (size \<langle>l, a, \<langle>\<rangle>\<rangle>) root cs"
    unfolding tree_at_plug_all by blast
  then obtain n where n: "q = Some a" "h a = Some n" "parent n = par" "right n = None"
    "tree_at h (Some a) (left n) l" by (auto split: option.splits)
  have la: "a \<notin> set_tree l" "distinct (inorder l)" "set_tree l \<inter> ctx_set cs = {}" "a \<notin> ctx_set cs"
    using d by (auto simp: ctx_set_def)
  obtain h1 where h1: "set_parent h (left n) par = ret h1" "tree_at h1 par (left n) l"
    "same_outside (set_tree l) h h1" using set_parent_tree [OF n(5) la(2)] by blast
  have ha: "h1 a = Some n" using same_outsideD [OF h1(3) la(1)] n by simp
  have c1: "ctx_at h1 par (Some a) cs"
    using ctx_tree_at_ctx_at [OF q(2)] ctx_at_frame [OF h1(3), of cs] la(3) n(1) by auto
  show ?thesis
  proof (cases cs)
    case Nil
    with q(2) have "par = None" by simp
    then have "avl_delete h (Some a) = ret (h1, left n)"
      using n h1(1) ha by (subst avl_delete.simps) (simp add: Let_def)
    moreover have "same_outside (set_tree (plug_all \<langle>l, a, \<langle>\<rangle>\<rangle> cs)) h h1"
      by (rule same_outside_mono [OF h1(3)]) (auto simp: Nil)
    ultimately show ?thesis using h1(2) Nil \<open>par = None\<close> by auto
  next
    case (Cons c cs')
    have pn: "par \<noteq> None" using ctx_tree_at_null [OF q(2)] Cons by simp
    have "distinct (ctx_left cs @ a # ctx_right cs)" using d by auto
    then obtain k h2 where h2: "child_link h1 par (Some a) = ret k" "set_link h1 k (left n) = ret h2"
      "ctx_at h2 par (left n) cs" "same_outside (ctx_set cs) h1 h2"
      using child_link_set [OF c1, of "left n"] Cons by blast
    have t2: "tree_at h2 par (left n) l" using h1(2) tree_at_frame [OF h2(4) la(3)] by simp
    have "distinct (inorder (plug_all l cs))" "avl_fits (size (plug_all l cs))"
      using d f by (auto simp: avl_fits_def size_plug_all)
    then obtain h' root' where h': "avl_rebalance h2 par = ret (h', root')"
      "tree_at h' None root' (rebal_up l cs)" "same_outside (set_tree (plug_all l cs)) h2 h'"
      using avl_rebalance_ctx [OF t2 h2(3)[unfolded Cons]] Cons by auto
    have "avl_delete h (Some a) = ret (h', root')"
      using n h1(1) ha pn h2(1,2) h'(1) by (subst avl_delete.simps) (simp add: Let_def)
    moreover from same_outside_comp [OF h1(3) same_outside_comp [OF h2(4) h'(3)]]
    have "same_outside (set_tree (plug_all \<langle>l, a, \<langle>\<rangle>\<rangle> cs)) h h'"
      by (rule same_outside_mono) (auto simp: set_plug_all)
    ultimately show ?thesis using h'(2) by blast
  qed
qed

text \<open>
  The second half of the general case: the detached successor \<open>b\<close> takes over the node \<open>a\<close> by copying
  its fields and redirecting the three pointers to it.
\<close>

definition take_over :: "avl_store \<Rightarrow> ptr \<Rightarrow> ptr \<Rightarrow> ptr \<Rightarrow> (avl_store \<times> ptr) exec" where
  "take_over h node victim root =
     bindE (rd h node) (\<lambda>n.
     bindE (wr h victim (\<lambda>_. n)) (\<lambda>h.
     bindE (rd h victim) (\<lambda>v.
     bindE (set_parent h (left v) victim) (\<lambda>h.
     bindE (rd h victim) (\<lambda>v.
     bindE (set_parent h (right v) victim) (\<lambda>h.
     bindE (rd h node) (\<lambda>n. let par = parent n in
     if par \<noteq> None then
       bindE (child_link h par node) (\<lambda>k.
       bindE (set_link h k victim) (\<lambda>h. ret (h, root)))
     else ret (h, victim))))))))"

lemma avl_delete_right:
  "h a = Some n \<Longrightarrow> right n = Some c \<Longrightarrow>
   avl_delete h (Some a) = bindE (leftmost h (right n)) (\<lambda>victim.
     bindE (avl_delete h victim) (\<lambda>(h, root). take_over h (Some a) victim root))"
  by (subst avl_delete.simps) (simp add: take_over_def [abs_def])

lemma relabel_position:
  assumes "distinct (inorder (plug_all \<langle>l, a, r\<rangle> cs))"
  shows "relabel a b (plug_all \<langle>l, a, r\<rangle> cs) = plug_all \<langle>l, b, r\<rangle> cs"
proof -
  have id: "relabel a b u = u" if "a \<notin> set_tree u" for u
    using that unfolding relabel_def by (induction u) auto
  have "a \<notin> ctx_set cs \<Longrightarrow> relabel a b (plug_all t cs) = plug_all (relabel a b t) cs" for t
  proof (induction cs arbitrary: t)
    case (Cons c cs)
    then show ?case by (cases c) (auto simp: relabel_def id[unfolded relabel_def])
  qed simp
  moreover have "a \<notin> ctx_set cs" "a \<notin> set_tree l" "a \<notin> set_tree r"
    using assms by (auto simp: ctx_set_def)
  ultimately show ?thesis by (simp add: id) (simp add: relabel_def id[unfolded relabel_def])
qed

lemma take_over_children:
  assumes q: "tree_at h par (Some a) \<langle>l, a, r\<rangle>" and d: "distinct (inorder \<langle>l, a, r\<rangle>)"
    and b: "b \<notin> set_tree \<langle>l, a, r\<rangle>" "h b = Some m"
  obtains h' where "take_over h (Some a) (Some b) root =
     (if par \<noteq> None then
       bindE (child_link h' par (Some a)) (\<lambda>k. bindE (set_link h' k (Some b)) (\<lambda>h. ret (h, root)))
     else ret (h', Some b))"
    "tree_at h' par (Some b) \<langle>l, b, r\<rangle>" "same_outside (insert b (set_tree l \<union> set_tree r)) h h'"
proof -
  from q obtain n where n: "h a = Some n" "parent n = par" "tree_at h (Some a) (left n) l"
    "tree_at h (Some a) (right n) r" "depth n = of_nat (height \<langle>l, a, r\<rangle>)" "cnt n = of_nat (size \<langle>l, a, r\<rangle>)"
    by (auto split: option.splits)
  have ds: "a \<notin> set_tree l" "a \<notin> set_tree r" "set_tree l \<inter> set_tree r = {}" "distinct (inorder l)" "distinct (inorder r)"
    and db: "a \<noteq> b" "b \<notin> set_tree l" "b \<notin> set_tree r" using d b(1) by auto
  define h1 where "h1 = h(b \<mapsto> n)"
  have "tree_at h1 (Some a) (left n) l" using n(3) db by (simp add: h1_def)
  then obtain h2 where h2: "set_parent h1 (left n) (Some b) = ret h2" "tree_at h2 (Some b) (left n) l"
    "same_outside (set_tree l) h1 h2" using set_parent_tree ds(4) by blast
  have "tree_at h2 (Some a) (right n) r"
    using n(4) db tree_at_frame [OF h2(3), of r] ds(3) by (auto simp: h1_def)
  then obtain h3 where h3: "set_parent h2 (right n) (Some b) = ret h3" "tree_at h3 (Some b) (right n) r"
    "same_outside (set_tree r) h2 h3" using set_parent_tree ds(5) by blast
  have s13: "same_outside (set_tree l \<union> set_tree r) h1 h3" by (rule same_outside_comp [OF h2(3) h3(3)])
  have v: "h1 b = Some n" "h2 b = Some n" "h3 b = Some n" "h3 a = Some n"
    using same_outsideD [OF h2(3), of b] same_outsideD [OF s13, of b] same_outsideD [OF s13, of a]
      db ds n by (auto simp: h1_def)
  have "tree_at h3 (Some b) (left n) l" using h2(2) tree_at_frame [OF h3(3), of l] ds(3) by auto
  with h3(2) v(3) n have "tree_at h3 par (Some b) \<langle>l, b, r\<rangle>" by auto
  moreover have "same_outside {b} h h1" using b(2) by (simp add: h1_def same_outside_upd)
  then have "same_outside (insert b (set_tree l \<union> set_tree r)) h h3" using same_outside_comp [OF _ s13] by fastforce
  moreover have "take_over h (Some a) (Some b) root =
     (if par \<noteq> None then
       bindE (child_link h3 par (Some a)) (\<lambda>k. bindE (set_link h3 k (Some b)) (\<lambda>h. ret (h, root)))
     else ret (h3, Some b))"
    using n(1,2) b(2) h2(1) h3(1) v by (simp add: take_over_def Let_def flip: h1_def)
  ultimately show thesis using that by blast
qed

lemma take_over_tree:
  assumes t: "tree_at h None root (plug_all \<langle>l, a, r\<rangle> cs)"
    and d: "distinct (inorder (plug_all \<langle>l, a, r\<rangle> cs))"
    and b: "b \<notin> set_tree (plug_all \<langle>l, a, r\<rangle> cs)" "h b = Some m"
  shows "\<exists>h' root'. take_over h (Some a) (Some b) root = ret (h', root') \<and>
    tree_at h' None root' (plug_all \<langle>l, b, r\<rangle> cs) \<and>
    same_outside (insert b (set_tree (plug_all \<langle>l, a, r\<rangle> cs))) h h'"
proof -
  from t obtain par where q: "tree_at h par (Some a) \<langle>l, a, r\<rangle>"
    "ctx_tree_at h par (Some a) (height \<langle>l, a, r\<rangle>) (size \<langle>l, a, r\<rangle>) root cs"
    unfolding tree_at_plug_all by auto
  have ds: "distinct (inorder \<langle>l, a, r\<rangle>)" "b \<notin> set_tree \<langle>l, a, r\<rangle>" "ctx_set cs \<inter> insert b (set_tree l \<union> set_tree r) = {}"
    using d b(1) by (auto simp: ctx_set_def set_plug_all)
  obtain h3 where step: "take_over h (Some a) (Some b) root =
     (if par \<noteq> None then
       bindE (child_link h3 par (Some a)) (\<lambda>k. bindE (set_link h3 k (Some b)) (\<lambda>h. ret (h, root)))
     else ret (h3, Some b))"
    and t3: "tree_at h3 par (Some b) \<langle>l, b, r\<rangle>" and s3: "same_outside (insert b (set_tree l \<union> set_tree r)) h h3"
    by (rule take_over_children [OF q(1) ds(1,2) b(2)])
  have c3: "ctx_tree_at h3 par (Some a) (height \<langle>l, b, r\<rangle>) (size \<langle>l, b, r\<rangle>) root cs"
    using q(2) ctx_tree_at_frame [OF s3 ds(3)] by simp
  show ?thesis
  proof (cases "cs = []")
    case True
    then have "par = None" using q(2) by simp
    moreover have "same_outside (insert b (set_tree (plug_all \<langle>l, a, r\<rangle> cs))) h h3"
      by (rule same_outside_mono [OF s3]) (auto simp: set_plug_all)
    ultimately show ?thesis using step t3 True by auto
  next
    case False
    have "distinct (ctx_left cs @ a # ctx_right cs)" using d by auto
    then obtain k h4 where h4: "child_link h3 par (Some a) = ret k" "set_link h3 k (Some b) = ret h4"
      "same_outside (ctx_set cs) h3 h4"
      "ctx_tree_at h4 par (Some b) (height \<langle>l, b, r\<rangle>) (size \<langle>l, b, r\<rangle>) root cs"
      using child_link_set [OF ctx_tree_at_ctx_at [OF c3] False, of "Some b"] c3 by blast
    have "set_tree \<langle>l, b, r\<rangle> \<inter> ctx_set cs = {}" using ds(3) by auto
    then have "tree_at h4 par (Some b) \<langle>l, b, r\<rangle>" using t3 tree_at_frame [OF h4(3)] by blast
    with h4(4) have "tree_at h4 None root (plug_all \<langle>l, b, r\<rangle> cs)" unfolding tree_at_plug_all by blast
    moreover have "same_outside (insert b (set_tree (plug_all \<langle>l, a, r\<rangle> cs))) h h4"
      by (rule same_outside_mono [OF same_outside_comp [OF s3 h4(3)]]) (auto simp: set_plug_all)
    ultimately show ?thesis using step h4(1,2) ctx_tree_at_null [OF q(2)] False by auto
  qed
qed

text \<open>The tree without the successor of \<open>a\<close>: it still has \<open>a\<close>, whose place the successor then takes.\<close>

lemma avl_del_successor:
  assumes g: "go_left r (RightOf l a # cs) = (\<langle>\<langle>\<rangle>, b, s\<rangle>, cs')" and d: "distinct (inorder (plug_all \<langle>l, a, r\<rangle> cs))"
  shows "a \<in> set_tree (avl_del \<langle>\<langle>\<rangle>, b, s\<rangle> cs')" "b \<notin> set_tree (avl_del \<langle>\<langle>\<rangle>, b, s\<rangle> cs')"
    "distinct (inorder (avl_del \<langle>\<langle>\<rangle>, b, s\<rangle> cs'))" "b \<in> set_tree (plug_all \<langle>l, a, r\<rangle> cs)"
    "set_tree (avl_del \<langle>\<langle>\<rangle>, b, s\<rangle> cs') \<subseteq> set_tree (plug_all \<langle>l, a, r\<rangle> cs)"
proof -
  let ?T = "plug_all \<langle>l, a, r\<rangle> cs" and ?t = "avl_del \<langle>\<langle>\<rangle>, b, s\<rangle> cs'"
  have pl: "plug_all \<langle>\<langle>\<rangle>, b, s\<rangle> cs' = ?T" using go_left_plug [OF g] by simp
  have io: "inorder ?t = ctx_left cs' @ inorder s @ ctx_right cs'"
    using inorder_avl_del [of "\<langle>\<rangle>" b s cs'] d pl by simp
  have iT: "inorder ?T = ctx_left cs' @ b # inorder s @ ctx_right cs'" using arg_cong [OF pl, of inorder] by simp
  have dT: "distinct (ctx_left cs' @ b # inorder s @ ctx_right cs')" using d unfolding iT .
  have a: "a \<in> set (ctx_left cs')" using go_left_ctx_left [OF g] by simp
  have sets: "set_tree ?T = set (inorder ?T)" "set_tree ?t = set (inorder ?t)" by (simp_all only: set_inorder)
  show "a \<in> set_tree ?t" "b \<notin> set_tree ?t" "distinct (inorder ?t)" "b \<in> set_tree ?T" "set_tree ?t \<subseteq> set_tree ?T"
    unfolding sets io iT using dT a by auto
qed

theorem avl_delete_tree:
  assumes t: "tree_at h None root (plug_all \<langle>l, a, r\<rangle> cs)"
    and d: "distinct (inorder (plug_all \<langle>l, a, r\<rangle> cs))"
    and f: "avl_fits (size (plug_all \<langle>l, a, r\<rangle> cs))"
  shows "\<exists>h' root'. avl_delete h (Some a) = ret (h', root') \<and> tree_at h' None root' (avl_del \<langle>l, a, r\<rangle> cs) \<and>
    same_outside (set_tree (plug_all \<langle>l, a, r\<rangle> cs)) h h'"
  using assms
proof (induction "size r" arbitrary: l a r cs h root rule: less_induct)
  case less
  let ?T = "plug_all \<langle>l, a, r\<rangle> cs"
  show ?case
  proof (cases "r = \<langle>\<rangle>")
    case True
    with less.prems avl_delete_no_right [of h root l a cs] show ?thesis by simp
  next
    case False
    obtain b s cs' where g: "go_left r (RightOf l a # cs) = (\<langle>\<langle>\<rangle>, b, s\<rangle>, cs')"
      and sz: "size s < size r" using False by (rule successor_cases)
    have pl: "plug_all \<langle>\<langle>\<rangle>, b, s\<rangle> cs' = ?T" using go_left_plug [OF g] by simp
    from less.prems(1) obtain par q where "tree_at h par q \<langle>l, a, r\<rangle>"
      unfolding tree_at_plug_all by blast
    then obtain n where n: "h a = Some n" "tree_at h (Some a) (right n) r" by (rule tree_at_cases)
    then obtain c where c: "right n = Some c" using False by (cases "right n") auto
    have lm: "leftmost h (right n) = ret (Some b)" using leftmost_tree [OF False n(2) g] .
    obtain h1 root1 where h1: "avl_delete h (Some b) = ret (h1, root1)"
      "tree_at h1 None root1 (avl_del \<langle>\<langle>\<rangle>, b, s\<rangle> cs')" "same_outside (set_tree ?T) h h1"
      using less.hyps [OF sz, of h root "\<langle>\<rangle>" b cs'] less.prems pl by auto
    note st = avl_del_successor [OF g less.prems(2)]
    from position_exists [OF st(1)] obtain l' r' cs'' where p: "avl_del \<langle>\<langle>\<rangle>, b, s\<rangle> cs' = plug_all \<langle>l', a, r'\<rangle> cs''" by blast
    have "b \<in> dom h" using tree_at_alloc [OF less.prems(1)[folded pl]] by (auto simp: set_plug_all)
    then obtain m where hb: "h1 b = Some m" using same_outside_alloc [OF h1(3)] by blast
    obtain h2 root2 where h2: "take_over h1 (Some a) (Some b) root1 = ret (h2, root2)"
      "tree_at h2 None root2 (plug_all \<langle>l', b, r'\<rangle> cs'')" "same_outside (insert b (set_tree (avl_del \<langle>\<langle>\<rangle>, b, s\<rangle> cs'))) h1 h2"
      using take_over_tree [of h1 root1 l' a r' cs'' b m] h1(2) st hb unfolding p by blast
    have "plug_all \<langle>l', b, r'\<rangle> cs'' = avl_del \<langle>l, a, r\<rangle> cs"
      using avl_del_right [OF False g] relabel_position [of l' a r' cs'' b] st(3) unfolding p by simp
    moreover have "avl_delete h (Some a) = ret (h2, root2)"
      using avl_delete_right [where h = h, OF n(1) c] lm h1(1) h2(1) by simp
    moreover have "same_outside (set_tree ?T) h h2"
      by (rule same_outside_mono [OF same_outside_comp [OF h1(3) h2(3)]]) (use st in auto)
    ultimately show ?thesis using h2(2) by auto
  qed
qed

section \<open>Offset\<close>

lemma uint_count: "avl_fits k \<Longrightarrow> uint (of_nat k :: u32) = int k"
  by (simp add: avl_fits_def uint_nat unat_of_nat_u32)

lemma uint_count_Suc: "avl_fits k \<Longrightarrow> uint (of_nat k + 1 :: u32) = int k + 1"
  using unat_of_nat_u32 [of "k + 1"] by (simp add: avl_fits_def uint_nat add.commute)

text \<open>
  While the target lies inside the subtree of the current node, the loop only descends and
  reaches it.
\<close>

lemma avl_offset_down:
  assumes "tree_at h par (Some a) \<langle>l, a, r\<rangle>" "avl_fits (size \<langle>l, a, r\<rangle>)"
    and "pos - int (size l) \<le> off" "off \<le> pos + int (size r)"
  shows "avl_offset_loop h (Some a) pos off = ret (Some (inorder \<langle>l, a, r\<rangle> ! nat (off - pos + int (size l))))"
  using assms
proof (induction "\<langle>l, a, r\<rangle>" arbitrary: l a r par pos)
  case (Node l a r)
  from Node.prems(1) obtain n where n: "h a = Some n" "tree_at h (Some a) (left n) l"
    "tree_at h (Some a) (right n) r" by (rule tree_at_cases) blast
  have f: "avl_fits (size l)" "avl_fits (size r)" using Node.prems(2) by (auto simp: avl_fits_def)
  note cnts = avl_count_tree [OF n(2)] avl_count_tree [OF n(3)]
  consider "off = pos" | "pos < off" | "off < pos" by linarith
  then show ?case
  proof cases
    case 1
    then show ?thesis by (subst avl_offset_loop.simps) (simp add: nth_append)
  next
    case 2
    with Node.prems(4) obtain rl b rr where r: "r = \<langle>rl, b, rr\<rangle>" by (cases r) auto
    from n(3) r obtain m where m: "right n = Some b" "h b = Some m" "tree_at h (Some b) (left m) rl"
      by (auto split: option.splits)
    have frl: "avl_fits (size rl)" using f r by (auto simp: avl_fits_def)
    have "avl_offset_loop h (Some a) pos off = avl_offset_loop h (Some b) (pos + (int (size rl) + 1)) off"
      using 2 n(1) m cnts avl_count_tree [OF m(3)] f Node.prems(4) frl
      by (subst avl_offset_loop.simps) (simp add: uint_count uint_count_Suc)
    also have "\<dots> = ret (Some (inorder r ! nat (off - (pos + (int (size rl) + 1)) + int (size rl))))"
      unfolding r by (rule Node.hyps(2) [OF r]) (use n(3) m(1) f(2) r 2 Node.prems in auto)
    also have "nat (off - (pos + (int (size rl) + 1)) + int (size rl)) = nat (off - pos - 1)" by simp
    also have "inorder r ! nat (off - pos - 1) = inorder \<langle>l, a, r\<rangle> ! nat (off - pos + int (size l))"
    proof -
      have "nat (off - pos + int (size l)) = length (inorder l) + Suc (nat (off - pos - 1))"
        using 2 by simp
      then show ?thesis by (simp only: inorder.simps nth_append_length_plus nth_Cons_Suc append_Cons append_Nil)
    qed
    finally show ?thesis .
  next
    case 3
    with Node.prems(3) obtain ll b lr where l: "l = \<langle>ll, b, lr\<rangle>" by (cases l) auto
    from n(2) l obtain m where m: "left n = Some b" "h b = Some m" "tree_at h (Some b) (right m) lr"
      by (auto split: option.splits)
    have flr: "avl_fits (size lr)" using f l by (auto simp: avl_fits_def)
    have "avl_offset_loop h (Some a) pos off = avl_offset_loop h (Some b) (pos - (int (size lr) + 1)) off"
      using 3 n(1) m cnts avl_count_tree [OF m(3)] f Node.prems(3) flr
      by (subst avl_offset_loop.simps) (simp add: uint_count uint_count_Suc)
    also have "\<dots> = ret (Some (inorder l ! nat (off - (pos - (int (size lr) + 1)) + int (size ll))))"
      unfolding l by (rule Node.hyps(1) [OF l]) (use n(2) m(1) f(1) l 3 Node.prems in auto)
    also have "nat (off - (pos - (int (size lr) + 1)) + int (size ll)) = nat (off - pos + int (size l))"
      using l by simp
    also have "inorder l ! nat (off - pos + int (size l)) = inorder \<langle>l, a, r\<rangle> ! nat (off - pos + int (size l))"
      using 3 Node.prems(3) by (simp add: nth_append nat_less_iff)
    finally show ?thesis .
  qed
qed

definition nth_opt :: "'a list \<Rightarrow> int \<Rightarrow> 'a option" where
  "nth_opt xs i = (if 0 \<le> i \<and> i < int (length xs) then Some (xs ! nat i) else None)"

lemma nth_opt_middle:
  "0 \<le> j \<Longrightarrow> j < int (length ys) \<Longrightarrow> nth_opt (xs @ ys @ zs) (int (length xs) + j) = Some (ys ! nat j)"
  by (auto simp: nth_opt_def nth_append nat_add_distrib)

text \<open>A target in the subtree of the current node is found in it.\<close>

lemma avl_offset_within:
  assumes "tree_at h par (Some a) \<langle>l, a, r\<rangle>" "avl_fits (size \<langle>l, a, r\<rangle>)"
    and range: "pos - int (size l) \<le> off" "off \<le> pos + int (size r)"
  shows "avl_offset_loop h (Some a) pos off =
    ret (nth_opt (inorder (plug_all \<langle>l, a, r\<rangle> cs)) (int (length (ctx_left cs) + size l) + (off - pos)))"
proof -
  let ?t = "\<langle>l, a, r\<rangle>"
  have "avl_offset_loop h (Some a) pos off = ret (Some (inorder ?t ! nat (off - pos + int (size l))))"
    using avl_offset_down [OF assms(1,2)] range by blast
  also have "\<dots> = ret (nth_opt (ctx_left cs @ inorder ?t @ ctx_right cs) (int (length (ctx_left cs)) + (off - pos + int (size l))))"
    using range by (subst nth_opt_middle) auto
  finally show ?thesis unfolding inorder_plug_all by (simp add: algebra_simps)
qed

text \<open>Any other target is outside the subtree: the loop goes on at the parent, at its position.\<close>

lemma avl_offset_climb:
  assumes t: "tree_at h par (Some a) \<langle>l, a, r\<rangle>" and f: "avl_fits (size \<langle>l, a, r\<rangle>)"
    and out: "\<not> (pos - int (size l) \<le> off \<and> off \<le> pos + int (size r))"
  shows "par = None \<Longrightarrow> avl_offset_loop h (Some a) pos off = ret None"
    "par = Some b \<Longrightarrow> h b = Some m \<Longrightarrow> right m \<noteq> Some a \<Longrightarrow>
      avl_offset_loop h (Some a) pos off = avl_offset_loop h (Some b) (pos + (int (size r) + 1)) off"
    "par = Some b \<Longrightarrow> h b = Some m \<Longrightarrow> right m = Some a \<Longrightarrow>
      avl_offset_loop h (Some a) pos off = avl_offset_loop h (Some b) (pos - (int (size l) + 1)) off"
proof -
  from t obtain n where n: "h a = Some n" "parent n = par"
    "tree_at h (Some a) (left n) l" "tree_at h (Some a) (right n) r" by (rule tree_at_cases)
  note cnts = avl_count_tree [OF n(3)] avl_count_tree [OF n(4)]
  have fl: "avl_fits (size l)" "avl_fits (size r)" using f by (auto simp: avl_fits_def)
  have not_in: "off \<noteq> pos" "\<not> (pos < off \<and> off \<le> pos + int (size r))"
    "\<not> (off < pos \<and> pos - int (size l) \<le> off)" using out by auto
  show "avl_offset_loop h (Some a) pos off = ret None" if "par = None"
    using that not_in n cnts fl by (subst avl_offset_loop.simps) (auto simp: uint_count)
  show "avl_offset_loop h (Some a) pos off = avl_offset_loop h (Some b) (pos + (int (size r) + 1)) off"
    if "par = Some b" "h b = Some m" "right m \<noteq> Some a"
    using that not_in n cnts fl by (subst avl_offset_loop.simps) (auto simp: uint_count uint_count_Suc)
  show "avl_offset_loop h (Some a) pos off = avl_offset_loop h (Some b) (pos - (int (size l) + 1)) off"
    if "par = Some b" "h b = Some m" "right m = Some a"
    using that not_in n cnts fl by (subst avl_offset_loop.simps) (auto simp: uint_count uint_count_Suc)
qed

lemma avl_offset_up:
  assumes "tree_at h par (Some a) \<langle>l, a, r\<rangle>" "ctx_at h par (Some a) cs"
    "ctx_tree_at h par (Some a) (height \<langle>l, a, r\<rangle>) (size \<langle>l, a, r\<rangle>) root cs"
    and "distinct (inorder (plug_all \<langle>l, a, r\<rangle> cs))" "avl_fits (size (plug_all \<langle>l, a, r\<rangle> cs))"
  shows "avl_offset_loop h (Some a) pos off =
    ret (nth_opt (inorder (plug_all \<langle>l, a, r\<rangle> cs)) (int (length (ctx_left cs) + size l) + (off - pos)))"
  using assms
proof (induction cs arbitrary: l a r par pos)
  case Nil
  have f: "avl_fits (size \<langle>l, a, r\<rangle>)" using Nil.prems(5) by simp
  show ?case
  proof (cases "pos - int (size l) \<le> off \<and> off \<le> pos + int (size r)")
    case True
    then show ?thesis using avl_offset_within [OF Nil.prems(1) f] by blast
  next
    case False
    then have "nth_opt (inorder \<langle>l, a, r\<rangle>) (int (size l) + (off - pos)) = None" by (auto simp: nth_opt_def)
    then show ?thesis using avl_offset_climb(1) [OF Nil.prems(1) f False] Nil.prems(2) by simp
  qed
next
  case (Cons c cs)
  let ?t = "\<langle>l, a, r\<rangle>"
  have f: "avl_fits (size ?t)"
    using Cons.prems(5) unfolding size_plug_all [of ?t "c # cs"] by (rule avl_fits_mono) simp
  show ?case
  proof (cases "pos - int (size l) \<le> off \<and> off \<le> pos + int (size r)")
    case True
    then show ?thesis using avl_offset_within [OF Cons.prems(1) f] by blast
  next
    case False
    note climb = avl_offset_climb [OF Cons.prems(1) f False]
    have tc: "tree_at h None root (plug_all (plug c ?t) cs)"
      using Cons.prems(1,3) unfolding tree_at_plug_all [of h root ?t "c # cs", symmetric, unfolded plug_all.simps]
      by (metis plug_all.simps(2) tree_at_plug_all)
    have at_parent: "avl_offset_loop h (Some b) pos' off =
        ret (nth_opt (inorder (plug_all \<langle>l', b, r'\<rangle> cs)) (int (length (ctx_left cs) + size l') + (off - pos')))"
      if pl: "plug c ?t = \<langle>l', b, r'\<rangle>" for l' b r' pos'
    proof -
      obtain par' where p': "tree_at h par' (Some b) \<langle>l', b, r'\<rangle>"
        "ctx_tree_at h par' (Some b) (height \<langle>l', b, r'\<rangle>) (size \<langle>l', b, r'\<rangle>) root cs"
        using tc pl unfolding tree_at_plug_all by auto
      show ?thesis using Cons.IH [OF p'(1) ctx_tree_at_ctx_at [OF p'(2)] p'(2)] Cons.prems(4,5) pl by simp
    qed
    show ?thesis
    proof (cases c)
      case (LeftOf b s)
      with Cons.prems(2) obtain m where m: "par = Some b" "h b = Some m" "tree_at h (Some b) (right m) s"
        by (auto split: option.splits)
      have "a \<notin> set_tree s" using Cons.prems(4) LeftOf by auto
      then have "right m \<noteq> Some a" using m(3) tree_at_Some [of h "Some b" a s] by auto
      from climb(2) [OF m(1,2) this] show ?thesis using at_parent [of ?t b s] LeftOf by (simp add: algebra_simps)
    next
      case (RightOf s b)
      with Cons.prems(2) obtain m where m: "par = Some b" "h b = Some m" "right m = Some a"
        by (auto split: option.splits)
      from climb(3) [OF m] show ?thesis using at_parent [of s b ?t] RightOf by (simp add: algebra_simps)
    qed
  qed
qed

theorem avl_offset_tree:
  assumes t: "tree_at h None root t" and d: "distinct (inorder t)" and f: "avl_fits (size t)"
    and i: "i < length (inorder t)" "inorder t ! i = a"
  shows "avl_offset h (Some a) off = ret (nth_opt (inorder t) (int i + off))"
proof -
  have "a \<in> set_tree t" using i by (metis nth_mem set_inorder)
  from position_exists [OF this] obtain l r cs where p: "t = plug_all \<langle>l, a, r\<rangle> cs" by blast
  from t obtain par where q: "tree_at h par (Some a) \<langle>l, a, r\<rangle>"
    "ctx_tree_at h par (Some a) (height \<langle>l, a, r\<rangle>) (size \<langle>l, a, r\<rangle>) root cs"
    unfolding p tree_at_plug_all by auto
  have "inorder t ! (length (ctx_left cs) + size l) = a" by (simp add: p nth_append)
  moreover have "length (ctx_left cs) + size l < length (inorder t)" by (simp add: p)
  ultimately have "i = length (ctx_left cs) + size l" using d i nth_eq_iff_index_eq by metis
  then show ?thesis
    using avl_offset_up [OF q(1) ctx_tree_at_ctx_at [OF q(2)] q(2), of 0 off] d f
    unfolding avl_offset_def p by simp
qed

end
