(* ===== verification/Avl_Spec.thy ===== *)
theory Avl_Spec
  imports Avl_Ops
begin

text \<open>
  What the AVL tree promises to its clients. \<open>avl_rep h root t\<close> says that the store holds a correct
  AVL tree at \<open>root\<close>: pointers, parent links, stored depths and counts all agree with the balanced
  tree \<open>t\<close>. \<open>avl_seq\<close> forgets the shape and keeps the in-order sequence, and the locale
  \<open>ranked_sequence\<close> states the contract of \<open>avl_delete\<close> and \<open>avl_offset\<close> on sequences.
\<close>

section \<open>Well-formed trees\<close>

definition avl_rep :: "avl_store \<Rightarrow> ptr \<Rightarrow> addr tree \<Rightarrow> bool" where
  "avl_rep h root t \<longleftrightarrow> tree_at h None root t \<and> distinct (inorder t) \<and> avl t \<and> avl_fits (size t)"

definition avl_seq :: "avl_store \<Rightarrow> ptr \<Rightarrow> addr list \<Rightarrow> bool" where
  "avl_seq h root xs \<longleftrightarrow> (\<exists>t. avl_rep h root t \<and> inorder t = xs)"

lemma avl_repD:
  assumes "avl_rep h root t"
  shows "tree_at h None root t" "distinct (inorder t)" "avl t" "avl_fits (size t)"
  using assms by (simp_all add: avl_rep_def)

lemma avl_rep_empty [simp]: "avl_rep h root \<langle>\<rangle> \<longleftrightarrow> root = None"
  by (simp add: avl_rep_def avl_fits_def)

lemma avl_rep_null: "avl_rep h root t \<Longrightarrow> root = None \<longleftrightarrow> t = \<langle>\<rangle>"
  unfolding avl_rep_def using tree_at_null_iff by blast

lemma avl_rep_cong: "(\<And>x. x \<in> set_tree t \<Longrightarrow> h' x = h x) \<Longrightarrow> avl_rep h' root t = avl_rep h root t"
  unfolding avl_rep_def using tree_at_cong by metis

lemma avl_rep_alloc: "avl_rep h root t \<Longrightarrow> a \<in> set_tree t \<Longrightarrow> \<exists>n. h a = Some n"
  unfolding avl_rep_def using tree_at_alloc by blast

lemma avl_rep_delete:
  assumes rep: "avl_rep h root t" and a: "a \<in> set_tree t"
  obtains h' root' t' where "avl_delete h (Some a) = ret (h', root')" "avl_rep h' root' t'"
    "inorder t' = remove1 a (inorder t)" "same_outside (set_tree t) h h'"
proof -
  note r = avl_repD [OF rep]
  obtain l s cs where p: "t = plug_all \<langle>l, a, s\<rangle> cs" using position_exists [OF a] by blast
  obtain h' root' where h': "avl_delete h (Some a) = ret (h', root')"
    "tree_at h' None root' (avl_del \<langle>l, a, s\<rangle> cs)" "same_outside (set_tree t) h h'"
    using avl_delete_tree r unfolding p by blast
  let ?t = "avl_del \<langle>l, a, s\<rangle> cs"
  have io: "inorder ?t = ctx_left cs @ inorder l @ inorder s @ ctx_right cs"
    using r(2) unfolding p by (rule inorder_avl_del)
  have d: "distinct (ctx_left cs @ inorder l @ a # inorder s @ ctx_right cs)" using r(2) by (simp add: p)
  then have rm: "inorder ?t = remove1 a (inorder t)" unfolding io p by (simp add: remove1_append)
  have "distinct (inorder ?t)" unfolding rm using r(2) by (rule distinct_remove1)
  moreover have "size ?t \<le> size t" using arg_cong [OF io, of length] by (simp add: p size_plug_all ctx_size_def)
  then have "avl_fits (size ?t)" using r(4) avl_fits_mono by blast
  moreover have "avl ?t" using r(3) unfolding p by (rule avl_del_avl)
  ultimately have "avl_rep h' root' ?t" using h'(2) by (simp add: avl_rep_def)
  then show thesis using that h'(1,3) rm by blast
qed

lemma avl_rep_offset:
  "avl_rep h root t \<Longrightarrow> i < length (inorder t) \<Longrightarrow> inorder t ! i = a \<Longrightarrow>
   avl_offset h (Some a) off = ret (nth_opt (inorder t) (int i + off))"
  using avl_offset_tree unfolding avl_rep_def by blast

section \<open>Hanging a new leaf into the tree\<close>

text \<open>
  The write sequence with which clients insert: the empty link at the end of a search path is set to
  the new node, its parent is set, and \<open>avl_rebalance\<close> is called on it.
\<close>

definition hang :: "avl_store \<Rightarrow> link \<Rightarrow> ptr \<Rightarrow> ptr \<Rightarrow> (avl_store \<times> ptr) exec" where
  "hang h k par node =
     bindE (set_link h k node) (\<lambda>h.
     bindE (wr h node (\<lambda>n. n\<lparr>parent := par\<rparr>)) (\<lambda>h. avl_rebalance h node))"

fun crumb_link :: "addr crumb \<Rightarrow> link" where
  "crumb_link (LeftOf b r) = LeftLink (Some b)"
| "crumb_link (RightOf l b) = RightLink (Some b)"

fun crumb_label :: "'a crumb \<Rightarrow> 'a" where
  "crumb_label (LeftOf b r) = b"
| "crumb_label (RightOf l b) = b"

lemma set_crumb_link:
  assumes "ctx_at h par None (c # cs)" "distinct (ctx_left (c # cs) @ ctx_right (c # cs))"
  obtains h' where "set_link h (crumb_link c) q = ret h'" "ctx_at h' par q (c # cs)"
    "same_outside {crumb_label c} h h'" "par = Some (crumb_label c)"
proof (cases c)
  case (LeftOf b r)
  with assms obtain n where n: "h b = Some n" "par = Some b" "tree_at h (Some b) (right n) r"
    "ctx_at h (parent n) (Some b) cs" "b \<notin> set_tree r" "b \<notin> ctx_set cs"
    by (auto simp: ctx_set_def split: option.splits)
  then show thesis
    using that [of "h(b \<mapsto> n\<lparr>left := q\<rparr>)"] LeftOf by (simp add: same_outside_upd)
next
  case (RightOf l b)
  with assms obtain n where n: "h b = Some n" "par = Some b" "tree_at h (Some b) (left n) l"
    "ctx_at h (parent n) (Some b) cs" "b \<notin> set_tree l" "b \<notin> ctx_set cs"
    by (auto simp: ctx_set_def split: option.splits)
  then show thesis
    using that [of "h(b \<mapsto> n\<lparr>right := q\<rparr>)"] RightOf by (simp add: same_outside_upd)
qed

definition leaf_at :: "avl_store \<Rightarrow> addr \<Rightarrow> bool" where
  "leaf_at h a \<longleftrightarrow> (\<exists>n. h a = Some n \<and> left n = None \<and> right n = None \<and> parent n = None \<and> depth n = 1 \<and> cnt n = 1)"

lemma avl_init_leaf: "h a = Some n \<Longrightarrow> \<exists>h'. avl_init h (Some a) = ret h' \<and> leaf_at h' a \<and> same_outside {a} h h'"
  by (simp add: avl_init_def leaf_at_def same_outside_upd)

lemma leaf_single: "leaf_at h a \<Longrightarrow> avl_rep h (Some a) \<langle>\<langle>\<rangle>, a, \<langle>\<rangle>\<rangle>"
  by (auto simp: leaf_at_def avl_rep_def avl_fits_def)

lemma hang_rep:
  assumes rep: "avl_rep h root (plug_all \<langle>\<rangle> (c # cs))" and leaf: "leaf_at h a"
    and a: "a \<notin> ctx_set (c # cs)" and room: "avl_fits (Suc (ctx_size (c # cs)))"
  obtains h' root' t' where "hang h (crumb_link c) (Some (crumb_label c)) (Some a) = ret (h', root')"
    "avl_rep h' root' t'" "inorder t' = ctx_left (c # cs) @ a # ctx_right (c # cs)"
    "same_outside (insert a (ctx_set (c # cs))) h h'"
proof -
  let ?cs = "c # cs" and ?leaf = "\<langle>\<langle>\<rangle>, a, \<langle>\<rangle>\<rangle>"
  note r = avl_repD [OF rep]
  have d: "distinct (ctx_left ?cs @ ctx_right ?cs)" using r(2) by (simp del: plug_all.simps)
  obtain par where ctx: "ctx_at h par None ?cs"
    using r(1) ctx_tree_at_ctx_at unfolding tree_at_plug_all by fastforce
  obtain h1 where h1: "set_link h (crumb_link c) (Some a) = ret h1" "ctx_at h1 par (Some a) ?cs"
    "same_outside {crumb_label c} h h1" "par = Some (crumb_label c)"
    using set_crumb_link [OF ctx d] .
  have lab: "crumb_label c \<in> ctx_set ?cs" by (cases c) simp_all
  then have "a \<noteq> crumb_label c" using a by auto
  then obtain n where n: "h1 a = Some n" "left n = None" "right n = None"
    using leaf same_outsideD [OF h1(3), of a] by (auto simp: leaf_at_def)
  let ?h2 = "h1(a \<mapsto> n\<lparr>parent := par\<rparr>)"
  have "node_at ?h2 par \<langle>\<rangle> a \<langle>\<rangle>" using n by (simp add: node_at_def)
  moreover have "ctx_at ?h2 par (Some a) ?cs" using h1(2) a by (simp del: ctx_at.simps)
  moreover have "distinct (inorder (plug_all ?leaf ?cs))" using d a by (simp add: ctx_set_def del: plug_all.simps)
  moreover have "avl_fits (size (plug_all ?leaf ?cs))" using room by (simp add: size_plug_all del: plug_all.simps ctx_size_simps)
  ultimately obtain h' root' where h': "avl_rebalance ?h2 (Some a) = ret (h', root')"
    "tree_at h' None root' (rebalance ?leaf ?cs)" "same_outside (set_tree (plug_all ?leaf ?cs)) ?h2 h'"
    using avl_rebalance_node by blast
  have io: "inorder (rebalance ?leaf ?cs) = ctx_left ?cs @ a # ctx_right ?cs"
    by (simp del: rebalance.simps)
  have "size (rebalance ?leaf ?cs) = Suc (ctx_size ?cs)"
    unfolding length_inorder [symmetric] io by (simp add: ctx_size_def del: ctx_size_simps)
  then have "avl_rep h' root' (rebalance ?leaf ?cs)"
    using h'(2) rebalance_insert_avl [of ?cs a] r(3) room
      \<open>distinct (inorder (plug_all ?leaf ?cs))\<close>
    by (simp add: avl_rep_def del: rebalance.simps plug_all.simps ctx_size_simps)
  moreover have "hang h (crumb_link c) (Some (crumb_label c)) (Some a) = ret (h', root')"
    using h1(1,4) n h'(1) by (simp add: hang_def)
  moreover have "same_outside {a} h1 ?h2" using n(1) by (simp add: same_outside_upd)
  then have "same_outside (insert a (ctx_set ?cs)) h h'"
    by (rule same_outside_mono [OF same_outside_comp [OF h1(3) same_outside_comp [OF _ h'(3)]]])
      (use lab in \<open>auto simp: set_plug_all simp del: plug_all.simps ctx_set_simps\<close>)
  ultimately show thesis using that io by blast
qed

section \<open>The contract on sequences\<close>

locale ranked_sequence =
  fixes seq :: "'h \<Rightarrow> ptr \<Rightarrow> addr list \<Rightarrow> bool"
    and delete :: "'h \<Rightarrow> ptr \<Rightarrow> ('h \<times> ptr) exec"
    and offset :: "'h \<Rightarrow> ptr \<Rightarrow> int \<Rightarrow> ptr exec"
  assumes seq_distinct: "seq h root xs \<Longrightarrow> distinct xs"
    and delete_law: "seq h root xs \<Longrightarrow> a \<in> set xs \<Longrightarrow>
      \<exists>h' root'. delete h (Some a) = ret (h', root') \<and> seq h' root' (remove1 a xs)"
    and offset_law: "seq h root xs \<Longrightarrow> i < length xs \<Longrightarrow> xs ! i = a \<Longrightarrow>
      offset h (Some a) off = ret (nth_opt xs (int i + off))"
begin

lemma offset_zero: "seq h root xs \<Longrightarrow> a \<in> set xs \<Longrightarrow> offset h (Some a) 0 = ret (Some a)"
  by (auto simp: in_set_conv_nth nth_opt_def offset_law)

text \<open>Walking in two legs is walking their sum.\<close>

lemma offset_add:
  assumes s: "seq h root xs" and a: "a \<in> set xs" and b: "offset h (Some a) j = ret (Some b)"
  shows "offset h (Some b) k = offset h (Some a) (j + k)"
proof -
  obtain i where i: "i < length xs" "xs ! i = a" using a by (auto simp: in_set_conv_nth)
  have "nth_opt xs (int i + j) = Some b" using offset_law [OF s i, of j] b by simp
  then have p: "0 \<le> int i + j" "nat (int i + j) < length xs" "xs ! nat (int i + j) = b"
    by (auto simp: nth_opt_def split: if_splits)
  show ?thesis
    using offset_law [OF s p(2,3), of k] offset_law [OF s i, of "j + k"] p(1) by (simp add: add.assoc)
qed

text \<open>Two nodes deleted one after the other.\<close>

lemma delete_twice:
  assumes "seq h root xs" "a \<in> set xs" "b \<in> set xs" "a \<noteq> b"
  shows "\<exists>h1 r1 h2 r2. delete h (Some a) = ret (h1, r1) \<and> delete h1 (Some b) = ret (h2, r2) \<and>
    seq h2 r2 (remove1 b (remove1 a xs))"
proof -
  obtain h1 r1 where h1: "delete h (Some a) = ret (h1, r1)" "seq h1 r1 (remove1 a xs)"
    using delete_law [OF assms(1,2)] by blast
  have "b \<in> set (remove1 a xs)" using assms(3,4) by (simp add: in_set_remove1)
  with delete_law [OF h1(2)] h1(1) show ?thesis by blast
qed

end

interpretation avl_sequence: ranked_sequence avl_seq avl_delete avl_offset
proof unfold_locales
  fix h root xs a
  assume "avl_seq h root xs" and a: "a \<in> set xs"
  then obtain t where t: "avl_rep h root t" "inorder t = xs" by (auto simp: avl_seq_def)
  moreover from this a have "a \<in> set_tree t" by (metis set_inorder)
  ultimately show "\<exists>h' root'. avl_delete h (Some a) = ret (h', root') \<and> avl_seq h' root' (remove1 a xs)"
    using avl_rep_delete unfolding avl_seq_def by metis
qed (auto simp: avl_seq_def avl_rep_offset dest: avl_repD)

end
