(* ===== verification/Hashtable.thy ===== *)
theory Hashtable
  imports Prelude
begin

unbundle bit_operations_syntax

text \<open>
  The chaining hash table with progressive resizing of \<open>hashtable.h\<close> and \<open>hashtable.cpp\<close>. The nodes
  are intrusive: a store maps the address of the containing object to its \<open>HNode\<close>. A key argument
  \<open>HNode *key\<close> with its comparison callback is a pair of its hash code and the callback applied to
  it, \<open>cmp a\<close> for \<open>cmp(a, key)\<close>. Allocation is taken to succeed.
\<close>

section \<open>Constants and types\<close>

definition K_RESIZING_WORK :: nat where "K_RESIZING_WORK = 128"
definition K_MAX_LOAD_FACTOR :: u64 where "K_MAX_LOAD_FACTOR = 8"

record HNode =
  hnext :: ptr
  hcode :: u64

record HTable =
  table :: "ptr list option"
  hmask :: u64
  hsize :: u64

record HMap =
  ht_to :: HTable
  ht_from :: HTable
  resizing_pos :: u64

type_synonym hstore = "HNode store"

definition HTable_default :: HTable where
  "HTable_default = \<lparr>table = None, hmask = 0, hsize = 0\<rparr>"

definition HMap_default :: HMap where
  "HMap_default = \<lparr>ht_to = HTable_default, ht_from = HTable_default, resizing_pos = 0\<rparr>"

text \<open>\<open>table[pos]\<close> as a value and as the target of an assignment.\<close>

definition tbl_get :: "HTable \<Rightarrow> u64 \<Rightarrow> ptr exec" where
  "tbl_get ht pos = (case table ht of None \<Rightarrow> fault NullDeref
     | Some ps \<Rightarrow> if unat pos < length ps then ret (ps ! unat pos) else fault OutOfBounds)"

definition tbl_set :: "HTable \<Rightarrow> u64 \<Rightarrow> ptr \<Rightarrow> HTable exec" where
  "tbl_set ht pos p = (case table ht of None \<Rightarrow> fault NullDeref
     | Some ps \<Rightarrow> if unat pos < length ps then ret (ht\<lparr>table := Some (ps[unat pos := p])\<rparr>)
                 else fault OutOfBounds)"

text \<open>
  A value of type \<open>HNode **\<close> points at a bucket of the table or at the \<open>next\<close> field of a node.
\<close>

datatype slot = Bucket u64 | NextOf addr

fun slot_get :: "hstore \<Rightarrow> HTable \<Rightarrow> slot \<Rightarrow> ptr exec" where
  "slot_get hs ht (Bucket i) = tbl_get ht i"
| "slot_get hs ht (NextOf a) = bindE (rd hs (Some a)) (\<lambda>n. ret (hnext n))"

fun slot_set :: "hstore \<Rightarrow> HTable \<Rightarrow> slot \<Rightarrow> ptr \<Rightarrow> (hstore \<times> HTable) exec" where
  "slot_set hs ht (Bucket i) p = bindE (tbl_set ht i p) (\<lambda>ht. ret (hs, ht))"
| "slot_set hs ht (NextOf a) p = bindE (wr hs (Some a) (\<lambda>n. n\<lparr>hnext := p\<rparr>)) (\<lambda>hs. ret (hs, ht))"

section \<open>The table\<close>

definition h_init :: "u64 \<Rightarrow> HTable exec" where
  "h_init n =
     bindE (assertE (n > 0 \<and> (n - 1) AND n = 0)) (\<lambda>_.
     ret \<lparr>table = Some (replicate (unat n) None), hmask = n - 1, hsize = 0\<rparr>)"

definition h_insert :: "hstore \<Rightarrow> HTable \<Rightarrow> ptr \<Rightarrow> (hstore \<times> HTable) exec" where
  "h_insert hs ht node =
     bindE (rd hs node) (\<lambda>n. let pos = hcode n AND hmask ht in
     bindE (tbl_get ht pos) (\<lambda>nxt.
     bindE (wr hs node (\<lambda>n. n\<lparr>hnext := nxt\<rparr>)) (\<lambda>hs.
     bindE (tbl_set ht pos node) (\<lambda>ht.
     ret (hs, ht\<lparr>hsize := hsize ht + 1\<rparr>)))))"

partial_function (option) h_lookup_loop ::
  "hstore \<Rightarrow> HTable \<Rightarrow> (addr \<Rightarrow> bool exec) \<Rightarrow> slot \<Rightarrow> slot option exec" where
  "h_lookup_loop hs ht cmp from =
     bindE (slot_get hs ht from) (\<lambda>p.
     case p of None \<Rightarrow> ret None
     | Some a \<Rightarrow> bindE (cmp a) (\<lambda>eq.
         if eq then ret (Some from) else h_lookup_loop hs ht cmp (NextOf a)))"

definition h_lookup ::
  "hstore \<Rightarrow> HTable \<Rightarrow> u64 \<Rightarrow> (addr \<Rightarrow> bool exec) \<Rightarrow> slot option exec" where
  "h_lookup hs ht key_hcode cmp =
     (if table ht = None then ret None
      else h_lookup_loop hs ht cmp (Bucket (key_hcode AND hmask ht)))"

definition h_detach :: "hstore \<Rightarrow> HTable \<Rightarrow> slot \<Rightarrow> (hstore \<times> HTable \<times> ptr) exec" where
  "h_detach hs ht from =
     bindE (slot_get hs ht from) (\<lambda>node.
     bindE (rd hs node) (\<lambda>n.
     bindE (slot_set hs ht from (hnext n)) (\<lambda>(hs, ht).
     ret (hs, ht\<lparr>hsize := hsize ht - 1\<rparr>, node))))"

partial_function (option) h_scan_chain ::
  "hstore \<Rightarrow> (addr \<Rightarrow> 's \<Rightarrow> 's exec) \<Rightarrow> ptr \<Rightarrow> 's \<Rightarrow> 's exec" where
  "h_scan_chain hs f node arg =
     (case node of None \<Rightarrow> ret arg
      | Some a \<Rightarrow> bindE (f a arg) (\<lambda>arg. bindE (rd hs node) (\<lambda>n. h_scan_chain hs f (hnext n) arg)))"

fun h_scan_buckets ::
  "hstore \<Rightarrow> HTable \<Rightarrow> (addr \<Rightarrow> 's \<Rightarrow> 's exec) \<Rightarrow> nat list \<Rightarrow> 's \<Rightarrow> 's exec" where
  "h_scan_buckets hs ht f [] arg = ret arg"
| "h_scan_buckets hs ht f (i # is) arg =
     bindE (tbl_get ht (of_nat i)) (\<lambda>node.
     bindE (h_scan_chain hs f node arg) (\<lambda>arg. h_scan_buckets hs ht f is arg))"

definition h_scan :: "hstore \<Rightarrow> HTable \<Rightarrow> (addr \<Rightarrow> 's \<Rightarrow> 's exec) \<Rightarrow> 's \<Rightarrow> 's exec" where
  "h_scan hs ht f arg =
     (if hsize ht = 0 then ret arg
      else h_scan_buckets hs ht f [0..<unat (hmask ht + 1)] arg)"

section \<open>The map with progressive resizing\<close>

definition hm_size :: "HMap \<Rightarrow> u64" where
  "hm_size hmap = hsize (ht_to hmap) + hsize (ht_from hmap)"

text \<open>
  The loop of \<open>hm_help_resizing\<close>. The branch for an empty bucket is \<open>continue\<close> in the source: it
  restarts the loop with nothing changed, \<open>resizing_pos\<close> included.
\<close>

partial_function (option) hm_help_loop :: "hstore \<Rightarrow> HMap \<Rightarrow> nat \<Rightarrow> (hstore \<times> HMap) exec" where
  "hm_help_loop hs hmap work_done =
     (if work_done < K_RESIZING_WORK \<and> hsize (ht_from hmap) > 0 then
        bindE (tbl_get (ht_from hmap) (resizing_pos hmap)) (\<lambda>p.
        if p = None then hm_help_loop hs hmap work_done
        else
          bindE (h_detach hs (ht_from hmap) (Bucket (resizing_pos hmap))) (\<lambda>(hs, from, node).
          bindE (h_insert hs (ht_to hmap) node) (\<lambda>(hs, to).
          hm_help_loop hs (hmap\<lparr>ht_to := to, ht_from := from\<rparr>) (work_done + 1))))
      else ret (hs, hmap))"

definition hm_help_resizing :: "hstore \<Rightarrow> HMap \<Rightarrow> (hstore \<times> HMap) exec" where
  "hm_help_resizing hs hmap =
     (if table (ht_from hmap) = None then ret (hs, hmap)
      else
        bindE (hm_help_loop hs hmap 0) (\<lambda>(hs, hmap).
        if hsize (ht_from hmap) = 0 then ret (hs, hmap\<lparr>ht_from := HTable_default\<rparr>)
        else ret (hs, hmap)))"

definition hm_lookup ::
  "hstore \<Rightarrow> HMap \<Rightarrow> u64 \<Rightarrow> (addr \<Rightarrow> bool exec) \<Rightarrow> (hstore \<times> HMap \<times> ptr) exec" where
  "hm_lookup hs hmap key_hcode cmp =
     bindE (hm_help_resizing hs hmap) (\<lambda>(hs, hmap).
     bindE (h_lookup hs (ht_to hmap) key_hcode cmp) (\<lambda>from.
     case from of
       Some s \<Rightarrow> bindE (slot_get hs (ht_to hmap) s) (\<lambda>p. ret (hs, hmap, p))
     | None \<Rightarrow>
         bindE (h_lookup hs (ht_from hmap) key_hcode cmp) (\<lambda>from.
         case from of
           Some s \<Rightarrow> bindE (slot_get hs (ht_from hmap) s) (\<lambda>p. ret (hs, hmap, p))
         | None \<Rightarrow> ret (hs, hmap, None))))"

definition hm_start_resizing :: "HMap \<Rightarrow> HMap exec" where
  "hm_start_resizing hmap =
     bindE (assertE (table (ht_from hmap) = None)) (\<lambda>_.
     bindE (h_init ((hmask (ht_to hmap) + 1) * 2)) (\<lambda>to.
     ret (hmap\<lparr>ht_from := ht_to hmap, ht_to := to, resizing_pos := 0\<rparr>)))"

definition hm_insert :: "hstore \<Rightarrow> HMap \<Rightarrow> ptr \<Rightarrow> (hstore \<times> HMap) exec" where
  "hm_insert hs hmap node =
     bindE (if table (ht_to hmap) = None
            then bindE (h_init 4) (\<lambda>to. ret (hmap\<lparr>ht_to := to\<rparr>))
            else ret hmap) (\<lambda>hmap.
     bindE (h_insert hs (ht_to hmap) node) (\<lambda>(hs, to).
     let hmap = hmap\<lparr>ht_to := to\<rparr> in
     bindE (if table (ht_from hmap) = None
            then let load_factor = hsize (ht_to hmap) div (hmask (ht_to hmap) + 1) in
                 if load_factor \<ge> K_MAX_LOAD_FACTOR then hm_start_resizing hmap else ret hmap
            else ret hmap) (\<lambda>hmap.
     hm_help_resizing hs hmap)))"

definition hm_pop ::
  "hstore \<Rightarrow> HMap \<Rightarrow> u64 \<Rightarrow> (addr \<Rightarrow> bool exec) \<Rightarrow> (hstore \<times> HMap \<times> ptr) exec" where
  "hm_pop hs hmap key_hcode cmp =
     bindE (hm_help_resizing hs hmap) (\<lambda>(hs, hmap).
     bindE (h_lookup hs (ht_to hmap) key_hcode cmp) (\<lambda>from.
     case from of
       Some s \<Rightarrow> bindE (h_detach hs (ht_to hmap) s) (\<lambda>(hs, to, node). ret (hs, hmap\<lparr>ht_to := to\<rparr>, node))
     | None \<Rightarrow>
         bindE (h_lookup hs (ht_from hmap) key_hcode cmp) (\<lambda>from.
         case from of
           Some s \<Rightarrow> bindE (h_detach hs (ht_from hmap) s)
                      (\<lambda>(hs, from, node). ret (hs, hmap\<lparr>ht_from := from\<rparr>, node))
         | None \<Rightarrow> ret (hs, hmap, None))))"

definition hm_destroy :: "HMap \<Rightarrow> HMap" where
  "hm_destroy hmap = HMap_default"

end
