(* ===== verification/Hashtable_Refine.thy ===== *)
theory Hashtable_Refine
  imports Hashtable
begin

unbundle bit_operations_syntax

text \<open>
  Refinement of \<open>hashtable.cpp\<close>: a chain of \<open>next\<close> pointers is a list of addresses, a table is a list
  of such lists in which every node sits in the bucket of its hash code, and a map is two tables.
\<close>

section \<open>Chains\<close>

fun chain :: "hstore \<Rightarrow> ptr \<Rightarrow> addr list \<Rightarrow> bool" where
  "chain hs p [] \<longleftrightarrow> p = None"
| "chain hs p (a # as) \<longleftrightarrow> p = Some a \<and>
     (case hs a of None \<Rightarrow> False | Some n \<Rightarrow> chain hs (hnext n) as)"

lemma chain_cong: "(\<And>x. x \<in> set xs \<Longrightarrow> hs' x = hs x) \<Longrightarrow> chain hs' p xs = chain hs p xs"
  by (induction xs arbitrary: p) (auto split: option.splits)

lemma chain_upd [simp]: "a \<notin> set xs \<Longrightarrow> chain (hs(a := v)) p xs = chain hs p xs"
  by (rule chain_cong) auto

lemma chain_null [simp]: "chain hs None xs \<longleftrightarrow> xs = []"
  by (cases xs) auto

lemma chain_alloc: "chain hs p xs \<Longrightarrow> x \<in> set xs \<Longrightarrow> \<exists>n. hs x = Some n"
  by (induction xs arbitrary: p) (auto split: option.splits)

definition same_codes :: "hstore \<Rightarrow> hstore \<Rightarrow> bool" where
  "same_codes hs hs' \<longleftrightarrow> (\<forall>x. map_option hcode (hs' x) = map_option hcode (hs x))"

lemma same_codes_refl [simp]: "same_codes hs hs"
  by (simp add: same_codes_def)

lemma same_codes_trans: "same_codes hs hs' \<Longrightarrow> same_codes hs' hs'' \<Longrightarrow> same_codes hs hs''"
  by (simp add: same_codes_def)

lemma same_codes_upd: "hs a = Some n \<Longrightarrow> same_codes hs (hs(a \<mapsto> n\<lparr>hnext := p\<rparr>))"
  by (simp add: same_codes_def)

lemma same_codesD: "same_codes hs hs' \<Longrightarrow> hs a = Some n \<Longrightarrow> \<exists>n'. hs' a = Some n' \<and> hcode n' = hcode n"
  unfolding same_codes_def by (metis map_option_eq_Some option.simps(9))

text \<open>The pointer at position \<open>j\<close> of a chain that starts at \<open>p\<close>, and the slot that holds it.\<close>

definition chain_slot :: "u64 \<Rightarrow> addr list \<Rightarrow> nat \<Rightarrow> slot" where
  "chain_slot pos xs j = (if j = 0 then Bucket pos else NextOf (xs ! (j - 1)))"

lemma chain_split: "chain hs p (xs @ a # ys) \<Longrightarrow> \<exists>n. hs a = Some n \<and> chain hs (hnext n) ys"
  by (induction xs arbitrary: p) (auto split: option.splits)

section \<open>Tables\<close>

definition bucket_of :: "u64 \<Rightarrow> HTable \<Rightarrow> nat" where
  "bucket_of c ht = unat (c AND hmask ht)"

definition in_bucket :: "hstore \<Rightarrow> HTable \<Rightarrow> nat \<Rightarrow> addr \<Rightarrow> bool" where
  "in_bucket hs ht i a \<longleftrightarrow> (\<exists>n. hs a = Some n \<and> bucket_of (hcode n) ht = i)"

definition tab_at :: "hstore \<Rightarrow> HTable \<Rightarrow> addr list list \<Rightarrow> bool" where
  "tab_at hs ht bs \<longleftrightarrow>
     (case table ht of
        None \<Rightarrow> bs = [] \<and> hmask ht = 0 \<and> hsize ht = 0
      | Some ps \<Rightarrow> length ps = length bs \<and>
          (\<exists>k < 63. length bs = 2 ^ k) \<and> hmask ht = of_nat (length bs - 1) \<and>
          (\<forall>i < length bs. chain hs (ps ! i) (bs ! i) \<and> (\<forall>a \<in> set (bs ! i). in_bucket hs ht i a)) \<and>
          distinct (concat bs) \<and> hsize ht = of_nat (length (concat bs)))"

lemma pow2_less_u64: "k < 63 \<Longrightarrow> (2::nat) ^ k < 2 ^ 64"
  by (rule power_strict_increasing) auto

lemma tab_at_cases:
  assumes "tab_at hs ht bs"
  obtains (null) "table ht = None" "bs = []" "hmask ht = 0" "hsize ht = 0"
  | (table) ps k where "table ht = Some ps" "length ps = length bs" "k < 63" "length bs = 2 ^ k"
      "unat (hmask ht) = length bs - 1" "hmask ht = of_nat (length bs - 1)"
      "\<And>i. i < length bs \<Longrightarrow> chain hs (ps ! i) (bs ! i)"
      "\<And>i a. i < length bs \<Longrightarrow> a \<in> set (bs ! i) \<Longrightarrow> in_bucket hs ht i a"
      "distinct (concat bs)" "hsize ht = of_nat (length (concat bs))"
proof (cases "table ht")
  case None
  with assms null show thesis by (auto simp: tab_at_def)
next
  case (Some ps)
  with assms obtain k where k: "k < 63" "length bs = 2 ^ k" "hmask ht = of_nat (length bs - 1)"
    by (auto simp: tab_at_def)
  have "unat (hmask ht) = length bs - 1"
    unfolding k(3) by (rule unat_of_nat_u64) (use pow2_less_u64 [OF k(1)] k(2) in simp)
  with Some assms k table show thesis by (auto simp: tab_at_def)
qed

lemma bucket_of_less:
  assumes "tab_at hs ht bs" "table ht \<noteq> None"
  shows "bucket_of c ht < length bs"
  using assms(1)
proof (cases rule: tab_at_cases)
  case (table ps k)
  have "unat (c AND hmask ht) \<le> unat (hmask ht)"
    by (simp add: word_and_le1 flip: word_le_nat_alt)
  with table(4,5) show ?thesis by (simp add: bucket_of_def less_eq_Suc_le le_diff_conv2)
qed (use assms in simp)

lemma set_concat_nth: "i < length bs \<Longrightarrow> set (bs ! i) \<subseteq> set (concat bs)"
  using nth_mem by fastforce

lemma distinct_concat_nth: "distinct (concat bs) \<Longrightarrow> i < length bs \<Longrightarrow> distinct (bs ! i)"
  by (auto simp: distinct_concat_iff)

lemma distinct_concat_disjoint:
  "distinct (concat bs) \<Longrightarrow> i < length bs \<Longrightarrow> j < length bs \<Longrightarrow> i \<noteq> j \<Longrightarrow> set (bs ! i) \<inter> set (bs ! j) = {}"
proof (induction bs arbitrary: i j)
  case (Cons b bs)
  have "set b \<inter> set (bs ! k) = {}" if "k < length bs" for k
    using set_concat_nth [OF that] Cons.prems(1) by auto
  with Cons show ?case by (cases i; cases j) (auto simp: Int_commute)
qed simp

lemma concat_update_length:
  "i < length bs \<Longrightarrow> length (concat (bs[i := ys])) + length (bs ! i) = length (concat bs) + length ys"
  by (induction bs arbitrary: i) (auto split: nat.splits)

lemma set_concat_update:
  "i < length bs \<Longrightarrow> distinct (concat bs) \<Longrightarrow>
   set (concat (bs[i := ys])) = (set (concat bs) - set (bs ! i)) \<union> set ys"
proof (induction bs arbitrary: i)
  case (Cons b bs)
  show ?case
  proof (cases i)
    case (Suc j)
    with Cons.prems have "set b \<inter> set (bs ! j) = {}" using set_concat_nth [of j bs] by auto
    with Cons Suc show ?thesis by auto
  qed (use Cons.prems in auto)
qed simp

lemma distinct_concat_update:
  assumes "i < length bs" "distinct (concat bs)" "distinct ys"
    "set ys \<inter> (set (concat bs) - set (bs ! i)) = {}"
  shows "distinct (concat (bs[i := ys]))"
  using assms
proof (induction bs arbitrary: i)
  case (Cons b bs)
  show ?case
  proof (cases i)
    case 0
    with Cons.prems show ?thesis by auto
  next
    case (Suc j)
    with Cons.prems have j: "j < length bs" "distinct (concat bs)" "set b \<inter> set (concat bs) = {}" "distinct b"
      by auto
    have "set (bs ! j) \<subseteq> set (concat bs)" using j(1) by (rule set_concat_nth)
    then have "set ys \<inter> (set (concat bs) - set (bs ! j)) = {}" "set b \<inter> set ys = {}"
      using Cons.prems(4) Suc j(3) by auto
    with Cons.IH [OF j(1,2) Cons.prems(3)] j Suc show ?thesis
      using set_concat_update [OF j(1,2), of ys] by auto
  qed
qed simp

lemma in_bucket_codes: "same_codes hs hs' \<Longrightarrow> in_bucket hs ht i a \<Longrightarrow> in_bucket hs' ht i a"
  unfolding in_bucket_def using same_codesD by fastforce

lemma in_bucket_mask: "hmask ht' = hmask ht \<Longrightarrow> in_bucket hs ht' i a = in_bucket hs ht i a"
  by (simp add: in_bucket_def bucket_of_def)

text \<open>Replacing one bucket of a table: the shared core of insertion and removal.\<close>

lemma tab_at_update:
  assumes t: "tab_at hs ht bs" "table ht = Some ps" and i: "i < length bs"
    and c: "same_codes hs hs'" and fr: "\<And>x. x \<in> set (concat bs) - set (bs ! i) \<Longrightarrow> hs' x = hs x"
    and ys: "chain hs' p ys" "distinct ys" "set ys \<inter> (set (concat bs) - set (bs ! i)) = {}"
      "\<And>a. a \<in> set ys \<Longrightarrow> in_bucket hs' ht i a"
    and sz: "s = of_nat (length (concat (bs[i := ys])))"
  shows "tab_at hs' (ht\<lparr>table := Some (ps[i := p]), hsize := s\<rparr>) (bs[i := ys])"
proof -
  from t obtain k where k: "length ps = length bs" "k < 63" "length bs = 2 ^ k" "hmask ht = of_nat (length bs - 1)"
    and ch: "\<And>i. i < length bs \<Longrightarrow> chain hs (ps ! i) (bs ! i)"
    and ib: "\<And>i a. i < length bs \<Longrightarrow> a \<in> set (bs ! i) \<Longrightarrow> in_bucket hs ht i a"
    and d: "distinct (concat bs)" by (auto simp: tab_at_def)
  have "chain hs' (ps[i := p] ! j) (bs[i := ys] ! j) \<and> (\<forall>a \<in> set (bs[i := ys] ! j). in_bucket hs' ht j a)"
    if j: "j < length bs" for j
  proof (cases "j = i")
    case True
    with ys i k(1) show ?thesis by simp
  next
    case False
    then have "hs' x = hs x" if "x \<in> set (bs ! j)" for x
      using distinct_concat_disjoint [OF d j i] set_concat_nth [OF j] fr that by blast
    then have "chain hs' (ps ! j) (bs ! j)" using ch [OF j] chain_cong by blast
    with False ib [OF j] c show ?thesis by (auto intro: in_bucket_codes)
  qed
  moreover have "distinct (concat (bs[i := ys]))" using distinct_concat_update [OF i d ys(2,3)] .
  ultimately show ?thesis
    using k sz by (auto simp: tab_at_def in_bucket_def bucket_of_def)
qed

section \<open>Operations on one table\<close>

lemma h_insert_tab:
  assumes t: "tab_at hs ht bs" "table ht \<noteq> None" and a: "hs a = Some n" "a \<notin> set (concat bs)"
  shows "\<exists>hs' ht'. h_insert hs ht (Some a) = ret (hs', ht') \<and>
    tab_at hs' ht' (bs[bucket_of (hcode n) ht := a # bs ! bucket_of (hcode n) ht]) \<and>
    same_outside {a} hs hs' \<and> same_codes hs hs' \<and> table ht' \<noteq> None \<and> hmask ht' = hmask ht \<and>
    hsize ht' = hsize ht + 1"
proof -
  let ?i = "bucket_of (hcode n) ht"
  have i: "?i < length bs" using bucket_of_less [OF t] .
  from t(1) show ?thesis
  proof (cases rule: tab_at_cases)
    case null
    with t(2) show ?thesis by simp
  next
    case (table ps k)
    let ?hs = "hs(a \<mapsto> n\<lparr>hnext := ps ! ?i\<rparr>)"
    let ?ht = "ht\<lparr>table := Some (ps[?i := Some a]), hsize := hsize ht + 1\<rparr>"
    have ai: "a \<notin> set (bs ! ?i)" using a(2) set_concat_nth [OF i] by auto
    have "tab_at ?hs ?ht (bs[?i := a # bs ! ?i])"
    proof (rule tab_at_update [OF t(1) table(1) i])
      show "chain ?hs (Some a) (a # bs ! ?i)" using table(7) [OF i] ai by simp
      show "distinct (a # bs ! ?i)" using ai distinct_concat_nth [OF table(9) i] by simp
      show "in_bucket ?hs ht ?i b" if "b \<in> set (a # bs ! ?i)" for b
        using that table(8) [OF i] ai by (auto simp: in_bucket_def)
      show "hsize ht + 1 = of_nat (length (concat (bs[?i := a # bs ! ?i])))"
        using concat_update_length [OF i, of "a # bs ! ?i"] table(10) by simp
    qed (use a same_codes_upd in auto)
    moreover have "h_insert hs ht (Some a) = ret (?hs, ?ht)"
      using a table(1,2) i by (simp add: h_insert_def tbl_get_def tbl_set_def bucket_of_def Let_def)
    ultimately show ?thesis using a same_codes_upd [of hs a n] same_outside_upd [of a "{a}" hs n]
      by (intro exI [of _ ?hs] exI [of _ ?ht]) auto
  qed
qed

lemma chain_slot_get:
  assumes "table ht = Some ps" "unat pos < length ps" "chain hs (ps ! unat pos) xs" "j \<le> length xs"
  shows "slot_get hs ht (chain_slot pos xs j) = ret (if j < length xs then Some (xs ! j) else None)"
proof (cases j)
  case 0
  with assms show ?thesis by (cases xs) (auto simp: chain_slot_def tbl_get_def)
next
  case (Suc i)
  then have "xs = take i xs @ xs ! i # drop j xs" using assms(4) by (simp add: id_take_nth_drop)
  then obtain n where n: "hs (xs ! i) = Some n" "chain hs (hnext n) (drop j xs)"
    using assms(3) chain_split by metis
  have "hnext n = (if j < length xs then Some (xs ! j) else None)"
    using n(2) by (cases "j < length xs") (auto simp flip: Cons_nth_drop_Suc)
  with n(1) Suc show ?thesis by (simp add: chain_slot_def)
qed

definition first_index :: "('a \<Rightarrow> bool) \<Rightarrow> 'a list \<Rightarrow> nat" where
  "first_index P xs = length (takeWhile (\<lambda>x. \<not> P x) xs)"

lemma first_index_simps [simp]:
  "first_index P [] = 0"
  "first_index P (x # xs) = (if P x then 0 else Suc (first_index P xs))"
  by (auto simp: first_index_def)

lemma first_index_less: "first_index P xs < length xs \<longleftrightarrow> (\<exists>x \<in> set xs. P x)"
  by (induction xs) auto

lemma first_index_nth: "first_index P xs < length xs \<Longrightarrow> P (xs ! first_index P xs)"
  by (induction xs) (auto split: if_splits)

lemma h_lookup_loop_chain:
  assumes "table ht = Some ps" "unat pos < length ps" "chain hs (ps ! unat pos) (us @ ys)"
    and "\<And>a. a \<in> set ys \<Longrightarrow> cmp a = ret (P a)"
  shows "h_lookup_loop hs ht cmp (chain_slot pos (us @ ys) (length us)) =
    ret (if first_index P ys < length ys
         then Some (chain_slot pos (us @ ys) (length us + first_index P ys)) else None)"
  using assms(3,4)
proof (induction ys arbitrary: us)
  case Nil
  then show ?case using chain_slot_get [OF assms(1,2), of hs us "length us"]
    by (subst h_lookup_loop.simps) simp
next
  case (Cons a ys)
  have g: "slot_get hs ht (chain_slot pos (us @ a # ys) (length us)) = ret (Some a)"
    using chain_slot_get [OF assms(1,2), of hs "us @ a # ys" "length us"] Cons.prems(1) by simp
  have nx: "NextOf a = chain_slot pos ((us @ [a]) @ ys) (length (us @ [a]))"
    by (simp add: chain_slot_def nth_append)
  show ?case
  proof (cases "P a")
    case True
    with g Cons.prems(2) show ?thesis by (subst h_lookup_loop.simps) simp
  next
    case False
    with g Cons.prems(2) have "h_lookup_loop hs ht cmp (chain_slot pos (us @ a # ys) (length us)) =
        h_lookup_loop hs ht cmp (NextOf a)" by (subst h_lookup_loop.simps) simp
    also have "\<dots> = ret (if first_index P ys < length ys
        then Some (chain_slot pos ((us @ [a]) @ ys) (length (us @ [a]) + first_index P ys)) else None)"
      unfolding nx by (rule Cons.IH) (use Cons.prems in auto)
    finally show ?thesis using False by simp
  qed
qed

lemma h_lookup_tab:
  assumes t: "tab_at hs ht bs" "table ht \<noteq> None"
    and cmp: "\<And>a. a \<in> set (bs ! bucket_of c ht) \<Longrightarrow> cmp a = ret (P a)"
  shows "h_lookup hs ht c cmp = ret (let xs = bs ! bucket_of c ht; j = first_index P xs in
    if j < length xs then Some (chain_slot (c AND hmask ht) xs j) else None)"
  using t(1)
proof (cases rule: tab_at_cases)
  case (table ps k)
  let ?i = "bucket_of c ht" and ?pos = "c AND hmask ht"
  have i: "?i < length bs" using bucket_of_less [OF t] .
  then have "unat ?pos < length ps" "chain hs (ps ! unat ?pos) ([] @ bs ! ?i)"
    using table(2) table(7) [OF i] by (simp_all add: bucket_of_def)
  from h_lookup_loop_chain [OF table(1) this, of cmp P] cmp show ?thesis
    using table(1) by (simp add: h_lookup_def Let_def chain_slot_def)
qed (use t in simp)

lemma chain_remove:
  assumes "chain hs p (us @ b # a # ys)" "distinct (us @ b # a # ys)" "hs b = Some m" "hs a = Some n"
  shows "chain (hs(b \<mapsto> m\<lparr>hnext := hnext n\<rparr>)) p (us @ b # ys)"
  using assms
proof (induction us arbitrary: p)
  case (Cons u us)
  then show ?case by (auto split: option.splits)
qed auto

text \<open>A list without its element at \<open>j\<close>.\<close>

lemma remove_nth:
  assumes "j < length xs"
  shows "length xs = Suc (length (take j xs @ drop (Suc j) xs))" "xs = take j xs @ xs ! j # drop (Suc j) xs"
    "distinct xs \<Longrightarrow> distinct (take j xs @ drop (Suc j) xs) \<and> set (take j xs @ drop (Suc j) xs) = set xs - {xs ! j}"
proof -
  show "length xs = Suc (length (take j xs @ drop (Suc j) xs))" using assms by simp
  show sp: "xs = take j xs @ xs ! j # drop (Suc j) xs" using assms by (simp add: id_take_nth_drop)
  assume "distinct xs"
  then have "distinct (take j xs @ xs ! j # drop (Suc j) xs)" using sp by simp
  moreover have "set xs = set (take j xs @ xs ! j # drop (Suc j) xs)" using sp by simp
  ultimately show "distinct (take j xs @ drop (Suc j) xs) \<and> set (take j xs @ drop (Suc j) xs) = set xs - {xs ! j}" by auto
qed

lemma chain_remove_nth:
  assumes ch: "chain hs p xs" and d: "distinct xs" and j: "Suc l < length xs"
  obtains m n where "hs (xs ! l) = Some m" "hs (xs ! Suc l) = Some n"
    "chain (hs(xs ! l \<mapsto> m\<lparr>hnext := hnext n\<rparr>)) p (take (Suc l) xs @ drop (Suc (Suc l)) xs)"
proof -
  let ?b = "xs ! l" and ?a = "xs ! Suc l"
  have tl: "take (Suc l) xs = take l xs @ [?b]" using j by (simp add: take_Suc_conv_app_nth)
  then have sp: "xs = take l xs @ ?b # ?a # drop (Suc (Suc l)) xs" using remove_nth(2) [OF j] by simp
  obtain m where m: "hs ?b = Some m" using chain_split ch sp by metis
  obtain n where n: "hs ?a = Some n" using chain_split ch remove_nth(2) [OF j] by metis
  have "chain (hs(?b \<mapsto> m\<lparr>hnext := hnext n\<rparr>)) p (take l xs @ ?b # drop (Suc (Suc l)) xs)"
    by (rule chain_remove [where hs = hs, OF _ _ m n]) (unfold sp [symmetric], fact ch, fact d)
  then show thesis using that [OF m n] tl by simp
qed

text \<open>The table after a node has left its chain.\<close>

lemma tab_at_removed:
  assumes t: "tab_at hs ht bs" "table ht = Some ps" and i: "i < length bs" and j: "j < length (bs ! i)"
    and hs': "same_codes hs hs'" "\<And>x. x \<in> set (concat bs) - set (bs ! i) \<Longrightarrow> hs' x = hs x"
    and ch: "chain hs' p (take j (bs ! i) @ drop (Suc j) (bs ! i))"
  shows "tab_at hs' (ht\<lparr>table := Some (ps[i := p]), hsize := hsize ht - 1\<rparr>) (bs[i := take j (bs ! i) @ drop (Suc j) (bs ! i)])"
proof -
  let ?xs = "bs ! i" and ?ys = "take j (bs ! i) @ drop (Suc j) (bs ! i)"
  obtain ib: "\<And>a. a \<in> set ?xs \<Longrightarrow> in_bucket hs ht i a" and dist: "distinct (concat bs)" and sz: "hsize ht = of_nat (length (concat bs))"
    using t i by (auto elim!: tab_at_cases)
  note ys = remove_nth [OF j] and d = distinct_concat_nth [OF dist i]
  have sub: "set ?ys \<subseteq> set ?xs" "distinct ?ys" using ys(3) [OF d] by blast+
  have "length (concat bs) = length (concat (bs[i := ?ys])) + 1" using concat_update_length [OF i, of ?ys] ys(1) by linarith
  then have sz': "hsize ht - 1 = of_nat (length (concat (bs[i := ?ys])))" using sz by simp
  have disj: "set ?ys \<inter> (set (concat bs) - set ?xs) = {}" using sub(1) by blast
  have ib': "in_bucket hs' ht i a" if "a \<in> set ?ys" for a
    using in_bucket_codes [OF hs'(1) ib] sub(1) that by blast
  show ?thesis by (rule tab_at_update [OF t i hs' ch sub(2) disj ib' sz'])
qed

lemma h_detach_tab:
  assumes t: "tab_at hs ht bs" "table ht \<noteq> None" and i: "unat pos = i" "i < length bs"
    and j: "j < length (bs ! i)"
  shows "\<exists>hs' ht'. h_detach hs ht (chain_slot pos (bs ! i) j) = ret (hs', ht', Some (bs ! i ! j)) \<and>
    tab_at hs' ht' (bs[i := take j (bs ! i) @ drop (Suc j) (bs ! i)]) \<and>
    same_outside (set (concat bs) - {bs ! i ! j}) hs hs' \<and> same_codes hs hs' \<and>
    table ht' \<noteq> None \<and> hmask ht' = hmask ht \<and> hsize ht' = hsize ht - 1"
proof -
  let ?xs = "bs ! i"
  let ?a = "?xs ! j"
  obtain ps where ps: "table ht = Some ps" "length ps = length bs" "chain hs (ps ! i) ?xs" "distinct (concat bs)"
    using t i by (auto elim!: tab_at_cases)
  have d: "distinct ?xs" using distinct_concat_nth [OF ps(4) i(2)] .
  obtain n where n: "hs ?a = Some n" "chain hs (hnext n) (drop (Suc j) ?xs)"
    using chain_split ps(3) remove_nth(2) [OF j] by metis
  have g: "slot_get hs ht (chain_slot pos ?xs j) = ret (Some ?a)"
    using chain_slot_get [OF ps(1), of pos hs ?xs j] i j ps(2,3) by simp
  note upd = tab_at_removed [OF t(1) ps(1) i(2) j]
  show ?thesis
  proof (cases j)
    case 0
    then have "tab_at hs (ht\<lparr>table := Some (ps[i := hnext n]), hsize := hsize ht - 1\<rparr>) (bs[i := take j ?xs @ drop (Suc j) ?xs])"
      using n(2) by (intro upd) auto
    with g n(1) 0 ps(1,2) i show ?thesis
      by (intro exI [of _ hs] exI [of _ "ht\<lparr>table := Some (ps[i := hnext n]), hsize := hsize ht - 1\<rparr>"])
        (auto simp: h_detach_def chain_slot_def tbl_set_def)
  next
    case (Suc l)
    let ?b = "?xs ! l"
    have jl: "Suc l < length ?xs" using j Suc by simp
    obtain m where m: "hs ?b = Some m" and c2: "chain (hs(?b \<mapsto> m\<lparr>hnext := hnext n\<rparr>)) (ps ! i) (take j ?xs @ drop (Suc j) ?xs)"
      using chain_remove_nth [OF ps(3) d jl] n(1) Suc by (metis option.inject)
    let ?hs = "hs(?b \<mapsto> m\<lparr>hnext := hnext n\<rparr>)"
    have b: "?b \<in> set ?xs" "?b \<noteq> ?a" using d Suc j by (simp_all add: nth_eq_iff_index_eq)
    have T: "tab_at ?hs (ht\<lparr>table := Some (ps[i := ps ! i]), hsize := hsize ht - 1\<rparr>) (bs[i := take j ?xs @ drop (Suc j) ?xs])"
      by (rule upd [OF same_codes_upd [where hs = hs, OF m] _ c2]) (use b in auto)
    have E: "ht\<lparr>table := Some (ps[i := ps ! i]), hsize := hsize ht - 1\<rparr> = ht\<lparr>hsize := hsize ht - 1\<rparr>" using ps(1) by simp
    note T [unfolded E]
    moreover have "same_outside (set (concat bs) - {?a}) hs ?hs"
      using m b set_concat_nth [OF i(2)] by (intro same_outside_upd) auto
    ultimately show ?thesis
      using g n(1) m Suc same_codes_upd [where hs = hs, OF m] ps(1)
      by (intro exI [of _ ?hs] exI [of _ "ht\<lparr>hsize := hsize ht - 1\<rparr>"])
        (auto simp: h_detach_def chain_slot_def)
  qed
qed

end
