(* ===== verification/Hashtable_Map.thy ===== *)
theory Hashtable_Map
  imports Hashtable_Refine
begin

unbundle bit_operations_syntax

text \<open>
  Correctness of the progressively resized map of \<open>hashtable.cpp\<close>. \<open>hm_at hs m bt bf\<close> relates a map
  to the bucket lists of its two tables, and \<open>hm_inv hs m N\<close> says that it holds exactly the nodes
  \<open>N\<close>. \<open>hm_help_resizing\<close> does not advance \<open>resizing_pos\<close>, so it never leaves an empty bucket:
  the lemmas give the exact condition under which it returns, the operations are proved correct
  whenever it does, and a map that has never been resized is proved never to reach it.
\<close>

section \<open>Representation\<close>

definition hm_at :: "hstore \<Rightarrow> HMap \<Rightarrow> addr list list \<Rightarrow> addr list list \<Rightarrow> bool" where
  "hm_at hs m bt bf \<longleftrightarrow> tab_at hs (ht_to m) bt \<and> tab_at hs (ht_from m) bf \<and>
     set (concat bt) \<inter> set (concat bf) = {} \<and>
     length (concat bt) + length (concat bf) < 2 ^ 64 \<and>
     (table (ht_from m) \<noteq> None \<longrightarrow> table (ht_to m) \<noteq> None \<and> resizing_pos m = 0)"

definition hm_nodes :: "addr list list \<Rightarrow> addr list list \<Rightarrow> addr set" where
  "hm_nodes bt bf = set (concat bt) \<union> set (concat bf)"

definition hm_inv :: "hstore \<Rightarrow> HMap \<Rightarrow> addr set \<Rightarrow> bool" where
  "hm_inv hs m N \<longleftrightarrow> (\<exists>bt bf. hm_at hs m bt bf \<and> N = hm_nodes bt bf)"

lemma tab_at_cong:
  assumes "\<And>x. x \<in> set (concat bs) \<Longrightarrow> hs' x = hs x"
  shows "tab_at hs' ht bs = tab_at hs ht bs"
proof -
  have "chain hs' p (bs ! i) = chain hs p (bs ! i)" if "i < length bs" for p i
    using assms set_concat_nth [OF that] by (intro chain_cong) blast
  moreover have "(\<forall>a \<in> set (bs ! i). in_bucket hs' ht i a) = (\<forall>a \<in> set (bs ! i). in_bucket hs ht i a)"
    if "i < length bs" for i
  proof -
    have "hs' a = hs a" if "a \<in> set (bs ! i)" for a
      using assms set_concat_nth [OF \<open>i < length bs\<close>] that by blast
    then show ?thesis by (simp add: in_bucket_def)
  qed
  ultimately show ?thesis by (auto simp: tab_at_def split: option.splits)
qed

lemma tab_at_frame:
  "same_outside A hs hs' \<Longrightarrow> set (concat bs) \<inter> A = {} \<Longrightarrow> tab_at hs' ht bs = tab_at hs ht bs"
  by (rule tab_at_cong) (auto simp: same_outside_def)

lemma tab_at_default [simp]: "tab_at hs HTable_default bs \<longleftrightarrow> bs = []"
  by (auto simp: tab_at_def HTable_default_def)

lemma table_default [simp]: "table HTable_default = None"
  by (simp add: HTable_default_def)

lemma tab_at_distinct: "tab_at hs ht bs \<Longrightarrow> distinct (concat bs)"
  by (auto simp: tab_at_def split: option.splits)

lemma tab_at_alloc: "tab_at hs ht bs \<Longrightarrow> a \<in> set (concat bs) \<Longrightarrow> \<exists>n. hs a = Some n"
  by (erule tab_at_cases) (auto simp: in_bucket_def in_set_conv_nth, metis nth_mem)

lemma tab_at_hsize: "tab_at hs ht bs \<Longrightarrow> hsize ht = of_nat (length (concat bs))"
  by (auto simp: tab_at_def split: option.splits)

lemma hm_at_sizes:
  assumes "hm_at hs m bt bf"
  shows "hsize (ht_from m) = 0 \<longleftrightarrow> concat bf = []" "unat (hsize (ht_to m)) = length (concat bt)"
    "unat (hsize (ht_from m)) = length (concat bf)"
proof -
  have "unat (hsize (ht_to m)) = length (concat bt)" "unat (hsize (ht_from m)) = length (concat bf)"
    using assms tab_at_hsize unat_of_nat_u64 by (auto simp: hm_at_def)
  then show "hsize (ht_from m) = 0 \<longleftrightarrow> concat bf = []" "unat (hsize (ht_to m)) = length (concat bt)"
    "unat (hsize (ht_from m)) = length (concat bf)" by (auto simp: unat_eq_0 [symmetric])
qed

lemma card_hm_nodes:
  assumes "hm_at hs m bt bf"
  shows "card (hm_nodes bt bf) = length (concat bt) + length (concat bf)"
  using assms tab_at_distinct [of hs "ht_to m" bt] tab_at_distinct [of hs "ht_from m" bf]
  unfolding hm_at_def hm_nodes_def by (metis card_Un_disjoint distinct_card List.finite_set)

text \<open>\<open>hm_size\<close> is the number of nodes.\<close>

lemma hm_size_card:
  assumes "hm_inv hs m N"
  shows "unat (hm_size m) = card N"
proof -
  from assms obtain bt bf where b: "hm_at hs m bt bf" "N = hm_nodes bt bf" by (auto simp: hm_inv_def)
  have "unat (hsize (ht_to m)) + unat (hsize (ht_from m)) < 2 ^ LENGTH(64)"
    using b(1) hm_at_sizes [OF b(1)] by (simp add: hm_at_def)
  then show ?thesis
    using hm_at_sizes [OF b(1)] card_hm_nodes [OF b(1)] b(2) by (simp add: hm_size_def unat_add_lem [THEN iffD1])
qed

section \<open>Moving nodes\<close>

text \<open>One iteration that finds a node in the first bucket of the old table.\<close>

lemma bucket_added:
  assumes t: "tab_at hs ht bs" and i: "i < length bs"
  shows "set (concat (bs[i := a # bs ! i])) = insert a (set (concat bs))" "length (concat (bs[i := a # bs ! i])) = Suc (length (concat bs))"
proof -
  show "set (concat (bs[i := a # bs ! i])) = insert a (set (concat bs))"
    using set_concat_update [OF i tab_at_distinct [OF t], of "a # bs ! i"] set_concat_nth [OF i] by auto
  show "length (concat (bs[i := a # bs ! i])) = Suc (length (concat bs))"
    using concat_update_length [OF i, of "a # bs ! i"] by simp
qed

lemma bucket_popped:
  assumes t: "tab_at hs ht bs" and i: "i < length bs" and b: "bs ! i = a # ys"
  shows "set (concat (bs[i := ys])) = set (concat bs) - {a}" "length (concat bs) = Suc (length (concat (bs[i := ys])))" "a \<in> set (concat bs)"
proof -
  show "set (concat (bs[i := ys])) = set (concat bs) - {a}"
    using set_concat_update [OF i tab_at_distinct [OF t], of ys] set_concat_nth [OF i]
      distinct_concat_nth [OF tab_at_distinct [OF t] i] b by auto
  show "length (concat bs) = Suc (length (concat (bs[i := ys])))" using concat_update_length [OF i, of ys] b by simp
  show "a \<in> set (concat bs)" using set_concat_nth [OF i] b by auto
qed

lemma hm_move_one:
  assumes m: "hm_at hs m bt bf" and nz: "table (ht_from m) \<noteq> None" and b0: "bf ! 0 = a # ys" and w: "w < K_RESIZING_WORK"
  shows "\<exists>hs' m' bt'. hm_help_loop hs m w = hm_help_loop hs' m' (w + 1) \<and>
    hm_at hs' m' bt' (bf[0 := ys]) \<and> hm_nodes bt' (bf[0 := ys]) = hm_nodes bt bf \<and>
    length (concat bf) = Suc (length (concat (bf[0 := ys]))) \<and> length bt' = length bt \<and>
    same_outside (hm_nodes bt bf) hs hs' \<and> same_codes hs hs' \<and> table (ht_from m') \<noteq> None"
proof -
  from m have tf: "tab_at hs (ht_from m) bf" and tt: "tab_at hs (ht_to m) bt" "table (ht_to m) \<noteq> None"
    and disj: "set (concat bt) \<inter> set (concat bf) = {}" and rp: "resizing_pos m = 0"
    and len: "length (concat bt) + length (concat bf) < 2 ^ 64"
    using nz by (auto simp: hm_at_def)
  have bl: "0 < length bf" using tf nz by (auto elim!: tab_at_cases)
  then obtain ps where ps: "table (ht_from m) = Some ps" "length ps = length bf" "chain hs (ps ! 0) (bf ! 0)"
    using tf nz by (auto elim!: tab_at_cases)
  note popd = bucket_popped [OF tf bl b0]
  have at: "a \<notin> set (concat bt)" using popd(3) disj by blast
  obtain hs1 fr where d: "h_detach hs (ht_from m) (Bucket 0) = ret (hs1, fr, Some a)"
    "tab_at hs1 fr (bf[0 := ys])" "same_outside (set (concat bf) - {a}) hs hs1" "same_codes hs hs1" "table fr \<noteq> None"
    using h_detach_tab [OF tf nz _ bl, of 0 0] b0 by (auto simp: chain_slot_def)
  have tt1: "tab_at hs1 (ht_to m) bt" using tt(1) tab_at_frame [OF d(3), of bt] disj by auto
  obtain n where n: "hs1 a = Some n" using tab_at_alloc [OF tf popd(3)] same_codesD [OF d(4)] by blast
  let ?i = "bucket_of (hcode n) (ht_to m)"
  let ?bt = "bt[?i := a # bt ! ?i]"
  obtain hs2 to where i: "h_insert hs1 (ht_to m) (Some a) = ret (hs2, to)" "tab_at hs2 to ?bt"
    "same_outside {a} hs1 hs2" "same_codes hs1 hs2" "table to \<noteq> None"
    using h_insert_tab [OF tt1 tt(2) n at] by blast
  note add = bucket_added [OF tt(1) bucket_of_less [OF tt], where a = a]
  have tf2: "tab_at hs2 fr (bf[0 := ys])" using d(2) tab_at_frame [OF i(3), of "bf[0 := ys]"] popd(1) by auto
  let ?m = "m\<lparr>ht_to := to, ht_from := fr\<rparr>"
  have "tbl_get (ht_from m) (resizing_pos m) = ret (Some a)" using ps bl rp b0 by (auto simp: tbl_get_def)
  moreover have "hsize (ht_from m) > 0" using hm_at_sizes(1) [OF m] popd(3) by (auto simp: word_neq_0_conv)
  ultimately have "hm_help_loop hs m w = hm_help_loop hs2 ?m (w + 1)" using d(1) i(1) rp w by (subst hm_help_loop.simps) simp
  moreover have "hm_at hs2 ?m ?bt (bf[0 := ys])"
    unfolding hm_at_def using i(2,5) tf2 add popd disj len rp by (auto simp del: set_concat)
  moreover have "hm_nodes ?bt (bf[0 := ys]) = hm_nodes bt bf" using add(1) popd by (auto simp: hm_nodes_def simp del: set_concat)
  moreover have "same_outside (hm_nodes bt bf) hs hs2"
    by (rule same_outside_mono [OF same_outside_comp [OF d(3) i(3)]]) (use popd(3) in \<open>auto simp: hm_nodes_def\<close>)
  ultimately show ?thesis
    using popd(2) d(4,5) i(4) same_codes_trans
    by (intro exI [of _ hs2] exI [of _ ?m] exI [of _ ?bt]) auto
qed

definition hm_stuck :: "HMap \<Rightarrow> addr list list \<Rightarrow> nat \<Rightarrow> bool" where
  "hm_stuck m bf w \<longleftrightarrow> table (ht_from m) \<noteq> None \<and>
     length (bf ! 0) < min (K_RESIZING_WORK - w) (length (concat bf))"

lemma hm_help_loop_returns:
  assumes "hm_at hs m bt bf" "table (ht_from m) \<noteq> None" "\<not> hm_stuck m bf w"
  shows "\<exists>hs' m' bt' bf'. hm_help_loop hs m w = ret (hs', m') \<and> hm_at hs' m' bt' bf' \<and>
    hm_nodes bt' bf' = hm_nodes bt bf \<and> length (concat bf') = length (concat bf) - (K_RESIZING_WORK - w) \<and>
    length bt' = length bt \<and> same_outside (hm_nodes bt bf) hs hs' \<and> same_codes hs hs' \<and>
    table (ht_from m') \<noteq> None"
  using assms
proof (induction "K_RESIZING_WORK - w" arbitrary: hs m bt bf w)
  case 0
  then have "hm_help_loop hs m w = ret (hs, m)" by (subst hm_help_loop.simps) simp
  with 0 have "hm_help_loop hs m w = ret (hs, m) \<and> length (concat bf) = length (concat bf) - (K_RESIZING_WORK - w)"
    by simp
  with 0 show ?case using same_codes_refl same_outside_refl by blast
next
  case (Suc k)
  show ?case
  proof (cases "concat bf = []")
    case True
    then have "hm_help_loop hs m w = ret (hs, m)"
      using hm_at_sizes(1) [OF Suc.prems(1)] by (subst hm_help_loop.simps) simp
    with True have "hm_help_loop hs m w = ret (hs, m) \<and> length (concat bf) = length (concat bf) - (K_RESIZING_WORK - w)"
      by (simp del: concat_eq_Nil_conv)
    with Suc.prems show ?thesis using same_codes_refl same_outside_refl by blast
  next
    case False
    then have "0 < length (concat bf)" by simp
    then have "bf ! 0 \<noteq> []" using Suc.prems(2,3) Suc.hyps(2) by (auto simp: hm_stuck_def)
    then obtain a ys where b0: "bf ! 0 = a # ys" by (cases "bf ! 0") auto
    have "0 < length bf" using False by auto
    have w: "w < K_RESIZING_WORK" "k = K_RESIZING_WORK - (w + 1)" using Suc.hyps(2) by auto
    obtain hs1 m1 bt1 where s: "hm_help_loop hs m w = hm_help_loop hs1 m1 (w + 1)"
      "hm_at hs1 m1 bt1 (bf[0 := ys])" "hm_nodes bt1 (bf[0 := ys]) = hm_nodes bt bf"
      "length (concat bf) = Suc (length (concat (bf[0 := ys])))" "length bt1 = length bt"
      "same_outside (hm_nodes bt bf) hs hs1" "same_codes hs hs1" "table (ht_from m1) \<noteq> None"
      using hm_move_one [OF Suc.prems(1,2) b0 w(1)] by blast
    have "\<not> hm_stuck m1 (bf[0 := ys]) (w + 1)"
      using Suc.prems(2,3) s(4) b0 w \<open>0 < length bf\<close> by (auto simp: hm_stuck_def)
    from Suc.hyps(1) [OF w(2) s(2,8) this] obtain hs' m' bt' bf' where r:
      "hm_help_loop hs1 m1 (w + 1) = ret (hs', m')" "hm_at hs' m' bt' bf'"
      "hm_nodes bt' bf' = hm_nodes bt bf"
      "length (concat bf') = length (concat (bf[0 := ys])) - (K_RESIZING_WORK - (w + 1))"
      "length bt' = length bt1" "same_outside (hm_nodes bt bf) hs1 hs'" "same_codes hs1 hs'"
      "table (ht_from m') \<noteq> None" unfolding s(3) by blast
    have "same_outside (hm_nodes bt bf) hs hs'"
      by (rule same_outside_mono [OF same_outside_comp [OF s(6) r(6)]]) simp
    with r s w show ?thesis using same_codes_trans [OF s(7) r(7)] by auto
  qed
qed

lemma hm_help_loop_spins:
  assumes spin: "w < K_RESIZING_WORK" "hsize (ht_from m) > 0" "tbl_get (ht_from m) (resizing_pos m) = ret None"
  shows "hm_help_loop hs m w = None"
proof (rule ccontr)
  assume "hm_help_loop hs m w \<noteq> None"
  then obtain r where r: "hm_help_loop hs m w = Some r" by blast
  let ?P = "\<lambda>hs m w (r :: fault + hstore \<times> HMap). \<not> (w < K_RESIZING_WORK \<and> hsize (ht_from m) > 0 \<and>
      tbl_get (ht_from m) (resizing_pos m) = ret None)"
  have "?P hs m w r"
  proof (rule hm_help_loop.raw_induct [where P = ?P, OF _ r], goal_cases)
    case (1 f hs m w r)
    then show ?case by (auto split: if_splits)
  qed
  with spin show False by blast
qed

lemma hm_help_loop_diverges:
  assumes "hm_at hs m bt bf" "hm_stuck m bf w"
  shows "hm_help_loop hs m w = None"
  using assms
proof (induction "bf ! 0" arbitrary: hs m bt bf w)
  case Nil
  from Nil.prems obtain ps where ps: "table (ht_from m) = Some ps" "length ps = length bf"
    "0 < length bf \<Longrightarrow> chain hs (ps ! 0) (bf ! 0)" "resizing_pos m = 0"
    by (auto simp: hm_at_def hm_stuck_def elim!: tab_at_cases)
  from Nil.prems(2) have "length (bf ! 0) < length (concat bf)" "w < K_RESIZING_WORK"
    by (auto simp: hm_stuck_def)
  then have ne: "concat bf \<noteq> []" "w < K_RESIZING_WORK" by (metis list.size(3) not_less0)+
  then have "0 < length bf" by auto
  then have "tbl_get (ht_from m) (resizing_pos m) = ret None"
    using ps Nil.hyps by (simp add: tbl_get_def)
  moreover have "hsize (ht_from m) > 0"
    using hm_at_sizes(1) [OF Nil.prems(1)] ne by (simp add: word_neq_0_conv del: concat_eq_Nil_conv)
  ultimately show ?case using hm_help_loop_spins ne(2) by blast
next
  case (Cons a ys)
  have nz: "table (ht_from m) \<noteq> None" and w: "w < K_RESIZING_WORK" "0 < length bf"
    using Cons.prems(2) by (auto simp: hm_stuck_def)
  obtain hs1 m1 bt1 where s: "hm_help_loop hs m w = hm_help_loop hs1 m1 (w + 1)"
    "hm_at hs1 m1 bt1 (bf[0 := ys])" "length (concat bf) = Suc (length (concat (bf[0 := ys])))"
    "table (ht_from m1) \<noteq> None"
    using hm_move_one [OF Cons.prems(1) nz Cons.hyps(2)[symmetric] w(1)] by blast
  have "hm_stuck m1 (bf[0 := ys]) (w + 1)"
    using Cons.prems(2) s(3,4) w Cons.hyps(2)[symmetric] by (auto simp: hm_stuck_def)
  with Cons.hyps(1) [OF _ s(2)] w(2) s(1) show ?case by simp
qed

section \<open>Help with resizing\<close>

lemma hm_at_from_null: "hm_at hs m bt bf \<Longrightarrow> table (ht_from m) = None \<longleftrightarrow> bf = []"
  by (auto simp: hm_at_def tab_at_def split: option.splits)

lemma hm_help_resizing_returns:
  assumes m: "hm_at hs m bt bf" and live: "\<not> hm_stuck m bf 0"
  shows "\<exists>hs' m' bt' bf'. hm_help_resizing hs m = ret (hs', m') \<and> hm_at hs' m' bt' bf' \<and>
    hm_nodes bt' bf' = hm_nodes bt bf \<and> same_outside (hm_nodes bt bf) hs hs' \<and> same_codes hs hs' \<and>
    length bt' = length bt \<and> (bf = [] \<or> length (concat bf) \<le> K_RESIZING_WORK \<longrightarrow> bf' = [])"
proof (cases "table (ht_from m) = None")
  case True
  then have "hm_help_resizing hs m = ret (hs, m)" "bf = []"
    using hm_at_from_null [OF m] by (simp_all add: hm_help_resizing_def)
  with m show ?thesis using same_codes_refl same_outside_refl by blast
next
  case False
  obtain hs' m' bt' bf' where l: "hm_help_loop hs m 0 = ret (hs', m')" "hm_at hs' m' bt' bf'"
    "hm_nodes bt' bf' = hm_nodes bt bf" "length (concat bf') = length (concat bf) - K_RESIZING_WORK"
    "length bt' = length bt" "same_outside (hm_nodes bt bf) hs hs'" "same_codes hs hs'"
    using hm_help_loop_returns [OF m False live] by auto
  show ?thesis
  proof (cases "concat bf' = []")
    case True
    let ?m = "m'\<lparr>ht_from := HTable_default\<rparr>"
    have "hm_help_resizing hs m = ret (hs', ?m)"
      using False l(1) hm_at_sizes(1) [OF l(2)] True by (auto simp: hm_help_resizing_def)
    moreover have "hm_at hs' ?m bt' []" using l(2) by (auto simp: hm_at_def)
    moreover have "hm_nodes bt' [] = hm_nodes bt bf"
      unfolding l(3)[symmetric] by (simp add: hm_nodes_def True del: set_concat)
    ultimately show ?thesis using l by blast
  next
    case ne: False
    then have "hm_help_resizing hs m = ret (hs', m')"
      using False l(1) hm_at_sizes(1) [OF l(2)] by (auto simp: hm_help_resizing_def simp del: concat_eq_Nil_conv)
    moreover have "\<not> length (concat bf) \<le> K_RESIZING_WORK" using ne l(4) by (auto simp del: concat_eq_Nil_conv)
    moreover have "bf \<noteq> []" using False hm_at_from_null [OF m] by simp
    ultimately show ?thesis using l by blast
  qed
qed

lemma hm_help_resizing_diverges:
  "hm_at hs m bt bf \<Longrightarrow> hm_stuck m bf 0 \<Longrightarrow> hm_help_resizing hs m = None"
  using hm_help_loop_diverges [of hs m bt bf 0] by (auto simp: hm_help_resizing_def hm_stuck_def)

section \<open>Lookup and removal\<close>

definition code_of :: "hstore \<Rightarrow> addr \<Rightarrow> u64 option" where
  "code_of hs a = map_option hcode (hs a)"

text \<open>
  \<open>finds hs N c cmp P\<close>: on the nodes \<open>N\<close> the callback decides \<open>P\<close>, and \<open>P\<close> selects only nodes whose
  hash code is that of the key, \<open>c\<close>.
\<close>

definition finds :: "hstore \<Rightarrow> addr set \<Rightarrow> u64 \<Rightarrow> (addr \<Rightarrow> bool exec) \<Rightarrow> (addr \<Rightarrow> bool) \<Rightarrow> bool" where
  "finds hs N c cmp P \<longleftrightarrow> (\<forall>a \<in> N. cmp a = ret (P a) \<and> (P a \<longrightarrow> code_of hs a = Some c))"

lemma finds_codes: "same_codes hs hs' \<Longrightarrow> finds hs N c cmp P \<Longrightarrow> finds hs' N c cmp P"
  by (simp add: finds_def same_codes_def code_of_def)

lemma finds_subset: "finds hs N c cmp P \<Longrightarrow> M \<subseteq> N \<Longrightarrow> finds hs M c cmp P"
  by (auto simp: finds_def)

text \<open>A node that is not in the bucket of its hash code is not in the table.\<close>

lemma only_in_bucket:
  assumes t: "tab_at hs ht bs" "table ht \<noteq> None" and f: "finds hs (set (concat bs)) c cmp P" and a: "a \<in> set (concat bs)" "P a"
  shows "a \<in> set (bs ! bucket_of c ht)"
proof -
  from a(1) obtain k where k: "k < length bs" "a \<in> set (bs ! k)" by (auto simp: in_set_conv_nth [of _ bs])
  then have "in_bucket hs ht k a" using t by (auto elim!: tab_at_cases)
  moreover have "code_of hs a = Some c" using f a by (auto simp: finds_def)
  ultimately have "k = bucket_of c ht" by (auto simp: in_bucket_def code_of_def)
  then show ?thesis using k(2) by simp
qed

lemma bucket_removed:
  assumes t: "tab_at hs ht bs" and i: "i < length bs" and j: "j < length (bs ! i)"
  shows "set (concat (bs[i := take j (bs ! i) @ drop (Suc j) (bs ! i)])) = set (concat bs) - {bs ! i ! j}"
    "length (concat (bs[i := take j (bs ! i) @ drop (Suc j) (bs ! i)])) \<le> length (concat bs)"
    "bs ! i ! j \<in> set (concat bs)"
proof -
  let ?ys = "take j (bs ! i) @ drop (Suc j) (bs ! i)"
  have "set ?ys = set (bs ! i) - {bs ! i ! j}"
    using remove_nth(3) [OF j distinct_concat_nth [OF tab_at_distinct [OF t] i]] by blast
  then show "set (concat (bs[i := ?ys])) = set (concat bs) - {bs ! i ! j}"
    using set_concat_update [OF i tab_at_distinct [OF t], of ?ys] set_concat_nth [OF i] j by auto
  show "length (concat (bs[i := ?ys])) \<le> length (concat bs)" using concat_update_length [OF i, of ?ys] j by simp
  show "bs ! i ! j \<in> set (concat bs)" using set_concat_nth [OF i] nth_mem [OF j] by blast
qed

lemma h_lookup_cases:
  assumes t: "tab_at hs ht bs" and f: "finds hs (set (concat bs)) c cmp P"
  obtains (missing) "h_lookup hs ht c cmp = ret None" "\<And>a. a \<in> set (concat bs) \<Longrightarrow> \<not> P a"
  | (found) s a hs' ht' bs' where "h_lookup hs ht c cmp = ret (Some s)" "slot_get hs ht s = ret (Some a)"
      "a \<in> set (concat bs)" "P a" "h_detach hs ht s = ret (hs', ht', Some a)" "tab_at hs' ht' bs'"
      "set (concat bs') = set (concat bs) - {a}" "length (concat bs') \<le> length (concat bs)"
      "same_outside (set (concat bs) - {a}) hs hs'" "same_codes hs hs'" "table ht' \<noteq> None"
      "length bs' = length bs"
proof (cases "table ht = None")
  case True
  then have "h_lookup hs ht c cmp = ret None" "bs = []"
    using t by (auto simp: h_lookup_def elim: tab_at_cases)
  with missing show thesis by simp
next
  case nz: False
  let ?i = "bucket_of c ht" and ?pos = "c AND hmask ht"
  let ?xs = "bs ! ?i"
  let ?j = "first_index P ?xs"
  have i: "?i < length bs" using bucket_of_less [OF t nz] .
  have cmp: "cmp a = ret (P a)" if "a \<in> set ?xs" for a
    using that f set_concat_nth [OF i] by (auto simp: finds_def)
  have lk: "h_lookup hs ht c cmp = ret (if ?j < length ?xs then Some (chain_slot ?pos ?xs ?j) else None)"
    using h_lookup_tab [OF t nz cmp] by (simp add: Let_def)
  show thesis
  proof (cases "?j < length ?xs")
    case False
    have "\<not> P a" if "a \<in> set (concat bs)" for a
      using only_in_bucket [OF t nz f that] False first_index_less [of P ?xs] by blast
    with lk False missing show thesis by simp
  next
    case True
    let ?a = "?xs ! ?j"
    obtain ps where ps: "table ht = Some ps" "length ps = length bs" "chain hs (ps ! ?i) ?xs"
      using t nz i by (auto elim!: tab_at_cases)
    have g: "slot_get hs ht (chain_slot ?pos ?xs ?j) = ret (Some ?a)"
      using chain_slot_get [OF ps(1), of ?pos hs ?xs ?j] ps i True by (simp add: bucket_of_def)
    obtain hs' ht' where d: "h_detach hs ht (chain_slot ?pos ?xs ?j) = ret (hs', ht', Some ?a)"
      "tab_at hs' ht' (bs[?i := take ?j ?xs @ drop (Suc ?j) ?xs])"
      "same_outside (set (concat bs) - {?a}) hs hs'" "same_codes hs hs'" "table ht' \<noteq> None"
      using h_detach_tab [OF t nz _ i True, of ?pos] by (auto simp: bucket_of_def)
    note rm = bucket_removed [OF t i True]
    show thesis
      by (rule found [OF _ g rm(3) _ d(1,2) rm(1,2) d(3,4,5)]) (use lk True first_index_nth [OF True] in auto)
  qed
qed

lemma hm_lookup_at:
  assumes m: "hm_at hs m bt bf" and live: "\<not> hm_stuck m bf 0" and f: "finds hs (hm_nodes bt bf) c cmp P"
  shows "\<exists>hs' m' p bt' bf'. hm_lookup hs m c cmp = ret (hs', m', p) \<and> hm_at hs' m' bt' bf' \<and>
    hm_nodes bt' bf' = hm_nodes bt bf \<and> same_outside (hm_nodes bt bf) hs hs' \<and> same_codes hs hs' \<and>
    (case p of Some a \<Rightarrow> a \<in> hm_nodes bt bf \<and> P a | None \<Rightarrow> \<forall>a \<in> hm_nodes bt bf. \<not> P a)"
proof -
  obtain hs' m' bt' bf' where h: "hm_help_resizing hs m = ret (hs', m')" "hm_at hs' m' bt' bf'"
    "hm_nodes bt' bf' = hm_nodes bt bf" "same_outside (hm_nodes bt bf) hs hs'" "same_codes hs hs'"
    using hm_help_resizing_returns [OF m live] by blast
  let ?N = "hm_nodes bt bf"
  have sub: "set (concat bt') \<subseteq> ?N" "set (concat bf') \<subseteq> ?N" "?N = set (concat bt') \<union> set (concat bf')"
    using h(3) by (auto simp: hm_nodes_def)
  have ff: "finds hs' (set (concat bt')) c cmp P" "finds hs' (set (concat bf')) c cmp P"
    using finds_codes [OF h(5) f] finds_subset sub by blast+
  have "\<exists>p. hm_lookup hs m c cmp = ret (hs', m', p) \<and>
      (case p of Some a \<Rightarrow> a \<in> ?N \<and> P a | None \<Rightarrow> \<forall>a \<in> ?N. \<not> P a)"
  proof (cases rule: h_lookup_cases [OF _ ff(1), of "ht_to m'", case_names tab missing found])
    case tab
    then show ?case using h(2) by (simp add: hm_at_def)
  next
    case missing
    note to = this
    show ?thesis
    proof (cases rule: h_lookup_cases [OF _ ff(2), of "ht_from m'", case_names tab missing found])
      case tab
      then show ?case using h(2) by (simp add: hm_at_def)
    next
      case missing
      with to h(1) sub(3) show ?thesis
        by (intro exI [of _ None]) (auto simp: hm_lookup_def simp del: set_concat)
    next
      case (found s a hs'' ht'' bs'')
      with to h(1) sub(2) show ?thesis
        by (intro exI [of _ "Some a"]) (auto simp: hm_lookup_def simp del: set_concat)
    qed
  next
    case (found s a hs'' ht'' bs'')
    with h(1) sub(1) show ?thesis
      by (intro exI [of _ "Some a"]) (auto simp: hm_lookup_def simp del: set_concat)
  qed
  with h show ?thesis by blast
qed

definition hm_now :: "hstore \<Rightarrow> HMap \<Rightarrow> addr list list \<Rightarrow> addr list list \<Rightarrow> addr set \<Rightarrow> bool" where
  "hm_now hs m bt bf N \<longleftrightarrow> (\<exists>bt' bf'. hm_at hs m bt' bf' \<and> hm_nodes bt' bf' = N \<and>
     length bt' = length bt \<and> (bf = [] \<longrightarrow> bf' = []))"

text \<open>A node that was detached from one of the two tables.\<close>

lemma hm_at_detached:
  assumes at: "hm_at hs m bt bf" and t: "tab_at hs' ht bs" "table ht \<noteq> None"
  shows "a \<in> set (concat bt) \<Longrightarrow> set (concat bs) = set (concat bt) - {a} \<Longrightarrow> length (concat bs) \<le> length (concat bt) \<Longrightarrow>
      same_outside (set (concat bt) - {a}) hs hs' \<Longrightarrow> hm_at hs' (m\<lparr>ht_to := ht\<rparr>) bs bf \<and> hm_nodes bs bf = hm_nodes bt bf - {a}"
    "a \<in> set (concat bf) \<Longrightarrow> set (concat bs) = set (concat bf) - {a} \<Longrightarrow> length (concat bs) \<le> length (concat bf) \<Longrightarrow>
      same_outside (set (concat bf) - {a}) hs hs' \<Longrightarrow> hm_at hs' (m\<lparr>ht_from := ht\<rparr>) bt bs \<and> hm_nodes bt bs = hm_nodes bt bf - {a}"
proof -
  have disj: "set (concat bt) \<inter> set (concat bf) = {}" and tabs: "tab_at hs (ht_to m) bt" "tab_at hs (ht_from m) bf"
    using at unfolding hm_at_def by blast+
  show "hm_at hs' (m\<lparr>ht_to := ht\<rparr>) bs bf \<and> hm_nodes bs bf = hm_nodes bt bf - {a}"
    if a: "a \<in> set (concat bt)" "set (concat bs) = set (concat bt) - {a}" "length (concat bs) \<le> length (concat bt)"
      "same_outside (set (concat bt) - {a}) hs hs'"
  proof
    have "tab_at hs' (ht_from m) bf" using tabs(2) tab_at_frame [OF a(4), of bf] disj by auto
    then show "hm_at hs' (m\<lparr>ht_to := ht\<rparr>) bs bf" using at t a(2,3) unfolding hm_at_def by (auto simp del: set_concat)
    show "hm_nodes bs bf = hm_nodes bt bf - {a}" using a(1,2) disj unfolding hm_nodes_def by blast
  qed
  show "hm_at hs' (m\<lparr>ht_from := ht\<rparr>) bt bs \<and> hm_nodes bt bs = hm_nodes bt bf - {a}"
    if a: "a \<in> set (concat bf)" "set (concat bs) = set (concat bf) - {a}" "length (concat bs) \<le> length (concat bf)"
      "same_outside (set (concat bf) - {a}) hs hs'"
  proof
    have "bf \<noteq> []" using a(1) by auto
    then have "table (ht_to m) \<noteq> None \<and> resizing_pos m = 0" using at hm_at_from_null [OF at] unfolding hm_at_def by blast
    moreover have "tab_at hs' (ht_to m) bt" using tabs(1) tab_at_frame [OF a(4), of bt] disj by auto
    ultimately show "hm_at hs' (m\<lparr>ht_from := ht\<rparr>) bt bs" using at t a(2,3) unfolding hm_at_def by (auto simp del: set_concat)
    show "hm_nodes bt bs = hm_nodes bt bf - {a}" using a(1,2) disj unfolding hm_nodes_def by blast
  qed
qed

lemma hm_pop_at:
  assumes m: "hm_at hs m bt bf" and live: "\<not> hm_stuck m bf 0" and f: "finds hs (hm_nodes bt bf) c cmp P"
  shows "\<exists>hs' m' p. hm_pop hs m c cmp = ret (hs', m', p) \<and>
    same_outside (hm_nodes bt bf) hs hs' \<and> same_codes hs hs' \<and>
    (case p of Some a \<Rightarrow> a \<in> hm_nodes bt bf \<and> P a \<and> hm_now hs' m' bt bf (hm_nodes bt bf - {a})
     | None \<Rightarrow> hm_now hs' m' bt bf (hm_nodes bt bf) \<and> (\<forall>a \<in> hm_nodes bt bf. \<not> P a))"
proof -
  obtain hs1 m1 bt1 bf1 where h: "hm_help_resizing hs m = ret (hs1, m1)" "hm_at hs1 m1 bt1 bf1"
    "hm_nodes bt1 bf1 = hm_nodes bt bf" "same_outside (hm_nodes bt bf) hs hs1" "same_codes hs hs1"
    "length bt1 = length bt" "bf = [] \<longrightarrow> bf1 = []"
    using hm_help_resizing_returns [OF m live] by blast
  let ?N = "hm_nodes bt bf"
  have sub: "set (concat bt1) \<subseteq> ?N" "set (concat bf1) \<subseteq> ?N" "?N = set (concat bt1) \<union> set (concat bf1)"
    using h(3) by (auto simp: hm_nodes_def)
  have tabs: "tab_at hs1 (ht_to m1) bt1" "tab_at hs1 (ht_from m1) bf1" using h(2) unfolding hm_at_def by blast+
  have ff: "finds hs1 (set (concat bt1)) c cmp P" "finds hs1 (set (concat bf1)) c cmp P"
    using finds_codes [OF h(5) f] finds_subset sub by blast+
  have popped: ?thesis if "hm_pop hs m c cmp = ret (hs2, m2, Some a)" "a \<in> ?N" "P a" "hm_now hs2 m2 bt bf (?N - {a})"
    "same_outside B hs1 hs2" "B \<subseteq> ?N" "same_codes hs1 hs2" for hs2 m2 a B
  proof -
    have "same_outside ?N hs hs2" by (rule same_outside_mono [OF same_outside_comp [OF h(4) that(5)]]) (use that(6) in auto)
    then show ?thesis using that same_codes_trans [OF h(5) that(7)] by auto
  qed
  show ?thesis
  proof (cases rule: h_lookup_cases [OF tabs(1) ff(1)])
    case to: 1
    show ?thesis
    proof (cases rule: h_lookup_cases [OF tabs(2) ff(2)])
      case 1
      have "hm_now hs1 m1 bt bf ?N" using h unfolding hm_now_def by blast
      with 1 to h sub(3) show ?thesis
        by (intro exI [of _ hs1] exI [of _ m1] exI [of _ None]) (auto simp: hm_pop_def simp del: set_concat)
    next
      case (2 s a hs2 ht2 bs2)
      note r = hm_at_detached(2) [OF h(2) 2(6,11,3,7,8,9)]
      have now: "hm_now hs2 (m1\<lparr>ht_from := ht2\<rparr>) bt bf (?N - {a})" unfolding hm_now_def using r h(3,6,7) 2(3) by auto
      show ?thesis by (rule popped [OF _ _ 2(4) now 2(9) _ 2(10)]) (use 2 to h(1) sub in \<open>auto simp: hm_pop_def simp del: set_concat\<close>)
    qed
  next
    case (2 s a hs2 ht2 bs2)
    note r = hm_at_detached(1) [OF h(2) 2(6,11,3,7,8,9)]
    have now: "hm_now hs2 (m1\<lparr>ht_to := ht2\<rparr>) bt bf (?N - {a})" unfolding hm_now_def using r h(3,6,7) 2(12) by auto
    show ?thesis by (rule popped [OF _ _ 2(4) now 2(9) _ 2(10)]) (use 2 h(1) sub in \<open>auto simp: hm_pop_def simp del: set_concat\<close>)
  qed
qed

section \<open>Insertion\<close>

lemma and_pow2: "(2 ^ k - 1) AND (2 ^ k :: u64) = 0"
  by (rule bit_eqI) (auto simp: bit_simps bit_exp_iff simp flip: mask_eq_exp_minus_1)

lemma h_init_pow2:
  assumes "k < 63"
  shows "\<exists>ht. h_init (2 ^ k) = ret ht \<and> tab_at hs ht (replicate (2 ^ k) []) \<and> table ht \<noteq> None"
proof -
  have u: "unat (2 ^ k :: u64) = 2 ^ k" using assms by (simp add: unat_pow2_u64)
  then have "(0 :: u64) < 2 ^ k" by (simp add: word_less_nat_alt)
  moreover have "(2 ^ k - 1 :: u64) = of_nat (2 ^ k - 1)" by simp
  ultimately show ?thesis using assms u and_pow2 [of k]
    by (auto simp: h_init_def tab_at_def concat_replicate_trivial)
qed

text \<open>
  \<open>hm_insert\<close> up to its final call of \<open>hm_help_resizing\<close>: the node is added, and the tables have been
  swapped when the load factor reached its limit.
\<close>

lemma init_to_table:
  assumes tt: "tab_at hs (ht_to m) bt"
  obtains m0 where "(if table (ht_to m) = None then bindE (h_init 4) (\<lambda>to. ret (m\<lparr>ht_to := to\<rparr>)) else ret m) = ret m0"
    "tab_at hs (ht_to m0) (if bt = [] then replicate 4 [] else bt)" "table (ht_to m0) \<noteq> None" "ht_from m0 = ht_from m"
    "resizing_pos m0 = resizing_pos m"
proof (cases "table (ht_to m) = None")
  case True
  then have "bt = []" using tt by (auto elim: tab_at_cases)
  obtain ht where "h_init (2 ^ 2) = ret ht" "tab_at hs ht (replicate (2 ^ 2) [])" "table ht \<noteq> None"
    using h_init_pow2 [of 2 hs] by auto
  then show thesis using True \<open>bt = []\<close> that [of "m\<lparr>ht_to := ht\<rparr>"] by simp
next
  case False
  then have "bt \<noteq> []" using tt by (auto elim!: tab_at_cases)
  then show thesis using False tt that [of m] by simp
qed

lemma tab_at_mask:
  assumes "tab_at hs ht bt" "table ht \<noteq> None"
  obtains k where "k < 63" "length bt = 2 ^ k" "hmask ht + 1 = 2 ^ k"
proof -
  obtain k where "k < 63" "length bt = 2 ^ k" "hmask ht = of_nat (2 ^ k - 1)" using assms by (auto elim!: tab_at_cases)
  then show thesis using that by simp
qed

text \<open>The load factor is computed without wrap-around.\<close>

lemma load_factor_iff:
  assumes tab: "tab_at hs ht bt" "table ht \<noteq> None" and len: "length (concat bt) < 2 ^ 64"
  shows "K_MAX_LOAD_FACTOR \<le> hsize ht div (hmask ht + 1) \<longleftrightarrow> 8 * length bt \<le> length (concat bt)"
proof -
  obtain k where k: "k < 63" "length bt = 2 ^ k" "hmask ht + 1 = 2 ^ k" using tab_at_mask [OF tab] .
  have "unat (2 ^ k :: u64) = 2 ^ k" using k(1) by (simp add: unat_pow2_u64)
  moreover have "unat (hsize ht) = length (concat bt)" using tab_at_hsize [OF tab(1)] unat_of_nat_u64 [OF len] by simp
  ultimately have "unat (hsize ht div (hmask ht + 1)) = length (concat bt) div 2 ^ k" unfolding k(3) by (simp add: unat_div)
  then show ?thesis unfolding K_MAX_LOAD_FACTOR_def word_le_nat_alt k(2)
    by (simp add: less_eq_div_iff_mult_less_eq mult.commute)
qed

lemma hm_start_resizing_at:
  assumes at: "hm_at hs m bt []" and to: "table (ht_to m) \<noteq> None" and full: "8 * length bt \<le> length (concat bt)"
    and len: "length (concat bt) < 2 ^ 64"
  obtains m' where "hm_start_resizing m = ret m'" "hm_at hs m' (replicate (2 * length bt) []) bt" "table (ht_from m') \<noteq> None"
proof -
  have tab: "tab_at hs (ht_to m) bt" using at by (simp add: hm_at_def)
  obtain k where k: "k < 63" "length bt = 2 ^ k" "hmask (ht_to m) + 1 = 2 ^ k" using tab_at_mask [OF tab to] .
  have "k + 1 < 63"
  proof (rule ccontr)
    assume "\<not> k + 1 < 63"
    then have "(2::nat) ^ 62 \<le> 2 ^ k" using k(1) by (intro power_increasing) auto
    with full k(2) len show False by simp
  qed
  then obtain ht where h: "h_init (2 ^ (k + 1)) = ret ht" "tab_at hs ht (replicate (2 ^ (k + 1)) [])" "table ht \<noteq> None"
    using h_init_pow2 by blast
  let ?m = "m\<lparr>ht_from := ht_to m, ht_to := ht, resizing_pos := 0\<rparr>"
  have dbl: "(hmask (ht_to m) + 1) * 2 = 2 ^ (k + 1)" unfolding k(3) by simp
  have "table (ht_from m) = None" using hm_at_from_null [OF at] by simp
  then have "hm_start_resizing m = ret ?m" using h(1) dbl by (simp add: hm_start_resizing_def)
  moreover have "hm_at hs ?m (replicate (2 * length bt) []) bt"
    unfolding hm_at_def using h(2,3) tab to k(2) len by (simp add: concat_replicate_trivial)
  ultimately show thesis using that to by simp
qed

text \<open>The insertion into the first table, with the second one out of the way.\<close>

lemma hm_insert_to:
  assumes m: "hm_at hs m bt bf" and a: "hs a = Some n" "a \<notin> hm_nodes bt bf" and sz: "card (hm_nodes bt bf) + 1 < 2 ^ 64"
  obtains hs1 m1 bt1 where "hm_insert hs m (Some a) =
      bindE (if table (ht_from m1) = None
        then if K_MAX_LOAD_FACTOR \<le> hsize (ht_to m1) div (hmask (ht_to m1) + 1) then hm_start_resizing m1 else ret m1
        else ret m1) (hm_help_resizing hs1)"
    "hm_at hs1 m1 bt1 bf" "table (ht_to m1) \<noteq> None" "same_outside {a} hs hs1" "same_codes hs hs1"
    "length bt1 = (if bt = [] then 4 else length bt)" "set (concat bt1) = insert a (set (concat bt))"
    "length (concat bt1) = Suc (length (concat bt))" "length (concat bt1) < 2 ^ 64"
proof -
  have tt: "tab_at hs (ht_to m) bt" and tf: "tab_at hs (ht_from m) bf"
    and disj: "set (concat bt) \<inter> set (concat bf) = {}"
    and rp: "table (ht_from m) \<noteq> None \<longrightarrow> table (ht_to m) \<noteq> None \<and> resizing_pos m = 0"
    using m unfolding hm_at_def by blast+
  have len: "length (concat bt) + length (concat bf) + 1 < 2 ^ 64" using sz card_hm_nodes [OF m] by simp
  define bt0 where "bt0 = (if bt = [] then replicate 4 [] else bt)"
  obtain m0 where m0: "(if table (ht_to m) = None then bindE (h_init 4) (\<lambda>to. ret (m\<lparr>ht_to := to\<rparr>)) else ret m) = ret m0"
    "tab_at hs (ht_to m0) bt0" "table (ht_to m0) \<noteq> None" "ht_from m0 = ht_from m" "resizing_pos m0 = resizing_pos m"
    unfolding bt0_def by (rule init_to_table [OF tt])
  have c0: "concat bt0 = concat bt" by (simp add: bt0_def concat_replicate_trivial)
  have an: "a \<notin> set (concat bt0)" "a \<notin> set (concat bf)" using a(2) by (auto simp: hm_nodes_def c0)
  let ?i = "bucket_of (hcode n) (ht_to m0)"
  let ?bt1 = "bt0[?i := a # bt0 ! ?i]"
  obtain hs1 to where i: "h_insert hs (ht_to m0) (Some a) = ret (hs1, to)" "tab_at hs1 to ?bt1"
    "same_outside {a} hs hs1" "same_codes hs hs1" "table to \<noteq> None"
    using h_insert_tab [OF m0(2,3) a(1) an(1)] by blast
  have set1: "set (concat ?bt1) = insert a (set (concat bt))" and len1: "length (concat ?bt1) = Suc (length (concat bt))"
    using bucket_added [OF m0(2) bucket_of_less [OF m0(2,3)], where a = a] unfolding c0 .
  let ?m1 = "m0\<lparr>ht_to := to\<rparr>"
  have tf1: "tab_at hs1 (ht_from m) bf" using tf tab_at_frame [OF i(3), of bf] an(2) by auto
  have at1: "hm_at hs1 ?m1 ?bt1 bf"
    unfolding hm_at_def using i(2,5) tf1 m0 set1 len1 len disj an(2) rp by (auto simp del: set_concat)
  show thesis
  proof (rule that [of ?m1 hs1 ?bt1])
    show "hm_insert hs m (Some a) =
      bindE (if table (ht_from ?m1) = None
        then if K_MAX_LOAD_FACTOR \<le> hsize (ht_to ?m1) div (hmask (ht_to ?m1) + 1) then hm_start_resizing ?m1 else ret ?m1
        else ret ?m1) (hm_help_resizing hs1)"
      unfolding hm_insert_def m0(1) using i(1) by (simp add: Let_def)
    show "length ?bt1 = (if bt = [] then 4 else length bt)" by (simp add: bt0_def)
  qed (use at1 i(3-5) set1 len1 len in simp_all)
qed

lemma hm_insert_step:
  assumes m: "hm_at hs m bt bf" and a: "hs a = Some n" "a \<notin> hm_nodes bt bf"
    and sz: "card (hm_nodes bt bf) + 1 < 2 ^ 64"
  shows "\<exists>hs' m' bt1. hm_insert hs m (Some a) = hm_help_resizing hs' m' \<and>
    same_outside {a} hs hs' \<and> same_codes hs hs' \<and> length bt1 = (if bt = [] then 4 else length bt) \<and>
    set (concat bt1) = insert a (set (concat bt)) \<and> length (concat bt1) = Suc (length (concat bt)) \<and>
    (if bf = [] \<and> 8 * length bt1 \<le> length (concat bt1)
     then hm_at hs' m' (replicate (2 * length bt1) []) bt1 \<and> table (ht_from m') \<noteq> None
     else hm_at hs' m' bt1 bf)"
proof -
  obtain hs1 m1 bt1 where i: "hm_insert hs m (Some a) =
      bindE (if table (ht_from m1) = None
        then if K_MAX_LOAD_FACTOR \<le> hsize (ht_to m1) div (hmask (ht_to m1) + 1) then hm_start_resizing m1 else ret m1
        else ret m1) (hm_help_resizing hs1)"
    and at1: "hm_at hs1 m1 bt1 bf" "table (ht_to m1) \<noteq> None" and bt1: "same_outside {a} hs hs1" "same_codes hs hs1"
    "length bt1 = (if bt = [] then 4 else length bt)" "set (concat bt1) = insert a (set (concat bt))"
    "length (concat bt1) = Suc (length (concat bt))" and len: "length (concat bt1) < 2 ^ 64"
    by (rule hm_insert_to [OF assms])
  have tab: "tab_at hs1 (ht_to m1) bt1" using at1(1) by (simp add: hm_at_def)
  note cond = hm_at_from_null [OF at1(1)] load_factor_iff [OF tab at1(2) len]
  show ?thesis
  proof (cases "bf = [] \<and> 8 * length bt1 \<le> length (concat bt1)")
    case False
    then have "hm_insert hs m (Some a) = hm_help_resizing hs1 m1" unfolding i using cond by auto
    with False at1 bt1 show ?thesis by (intro exI [of _ hs1] exI [of _ m1] exI [of _ bt1]) (auto simp del: set_concat)
  next
    case True
    then have at0: "hm_at hs1 m1 bt1 []" using at1(1) by simp
    obtain m2 where m2: "hm_start_resizing m1 = ret m2" "hm_at hs1 m2 (replicate (2 * length bt1) []) bt1" "table (ht_from m2) \<noteq> None"
      using hm_start_resizing_at [OF at0 at1(2) _ len] True by blast
    then have "hm_insert hs m (Some a) = hm_help_resizing hs1 m2" unfolding i using cond True by auto
    then show ?thesis using True m2 bt1 by (intro exI [of _ hs1] exI [of _ m2] exI [of _ bt1]) (auto simp del: set_concat)
  qed
qed

end
