(* ===== verification/Hashtable_Spec.thy ===== *)
theory Hashtable_Spec
  imports Hashtable_Map
begin

unbundle bit_operations_syntax

text \<open>
  What a client of the hash map may rely on, and where it breaks. A map that has held fewer than
  32 nodes is in its first table of four buckets (\<open>hm_small\<close>): every operation on it returns and
  behaves as on a finite set of keyed nodes. The insertion that makes it 32 starts a resize that
  never ends unless all nodes share the first bucket.
\<close>

section \<open>Maps in their first table\<close>

definition hm_small :: "hstore \<Rightarrow> HMap \<Rightarrow> addr set \<Rightarrow> bool" where
  "hm_small hs m N \<longleftrightarrow> card N < 32 \<and>
     (\<exists>bt. hm_at hs m bt [] \<and> (bt = [] \<or> length bt = 4) \<and> N = set (concat bt))"

lemma hm_small_empty: "hm_small hs HMap_default {}"
  unfolding hm_small_def by (auto simp: hm_at_def HMap_default_def)

lemma hm_small_inv: "hm_small hs m N \<Longrightarrow> hm_inv hs m N"
proof -
  assume "hm_small hs m N"
  then obtain bt where "hm_at hs m bt []" "N = hm_nodes bt []" by (auto simp: hm_small_def hm_nodes_def)
  then show ?thesis unfolding hm_inv_def by blast
qed

lemma hm_small_finite: "hm_small hs m N \<Longrightarrow> finite N"
  by (auto simp: hm_small_def)

lemma hm_small_alloc: "hm_small hs m N \<Longrightarrow> a \<in> N \<Longrightarrow> \<exists>n. hs a = Some n"
  unfolding hm_small_def hm_at_def by (blast intro: tab_at_alloc)

lemma hm_at_cong:
  "(\<And>x. x \<in> hm_nodes bt bf \<Longrightarrow> hs' x = hs x) \<Longrightarrow> hm_at hs' m bt bf = hm_at hs m bt bf"
  using tab_at_cong [of bt hs' hs] tab_at_cong [of bf hs' hs] unfolding hm_at_def hm_nodes_def
  by (metis Un_iff)

lemma hm_small_cong:
  "hm_small hs m N \<Longrightarrow> (\<And>x. x \<in> N \<Longrightarrow> hs' x = hs x) \<Longrightarrow> hm_small hs' m N"
  unfolding hm_small_def using hm_at_cong [of _ "[]" hs' hs] by (auto simp: hm_nodes_def simp del: set_concat)

lemma hm_small_steady: "hm_small hs m N \<Longrightarrow> table (ht_from m) = None"
  unfolding hm_small_def using hm_at_from_null by blast

lemma hm_lookup_steady:
  "table (ht_from m) = None \<Longrightarrow> hm_lookup hs m c cmp = ret (hs', m', p) \<Longrightarrow> hs' = hs \<and> m' = m"
  by (auto simp: hm_lookup_def hm_help_resizing_def bindE_eq_ret_iff split: option.splits)

lemma hm_small_lookup:
  assumes s: "hm_small hs m N" and f: "finds hs N c cmp P"
  shows "\<exists>p. hm_lookup hs m c cmp = ret (hs, m, p) \<and>
    (case p of Some a \<Rightarrow> a \<in> N \<and> P a | None \<Rightarrow> \<forall>a \<in> N. \<not> P a)"
proof -
  from s obtain bt where b: "hm_at hs m bt []" "N = hm_nodes bt []"
    by (auto simp: hm_small_def hm_nodes_def)
  have "\<not> hm_stuck m [] 0" by (simp add: hm_stuck_def)
  from hm_lookup_at [OF b(1) this f[unfolded b(2)]] obtain hs' m' p where
    l: "hm_lookup hs m c cmp = ret (hs', m', p)" "case p of Some a \<Rightarrow> a \<in> N \<and> P a | None \<Rightarrow> \<forall>a \<in> N. \<not> P a"
    unfolding b(2) by blast
  with hm_lookup_steady [OF hm_small_steady [OF s] l(1)] show ?thesis by auto
qed

lemma hm_small_insert:
  assumes s: "hm_small hs m N" and a: "hs a = Some n" "a \<notin> N" and c: "card N < 31"
  shows "\<exists>hs' m'. hm_insert hs m (Some a) = ret (hs', m') \<and> hm_small hs' m' (insert a N) \<and>
    same_outside {a} hs hs' \<and> same_codes hs hs'"
proof -
  from s obtain bt where b: "hm_at hs m bt []" "bt = [] \<or> length bt = 4" "N = hm_nodes bt []" "N = set (concat bt)"
    by (auto simp: hm_small_def hm_nodes_def)
  have cb: "card N = length (concat bt)" using card_hm_nodes [OF b(1)] b(3) by simp
  obtain hs' m' bt1 where i: "hm_insert hs m (Some a) = hm_help_resizing hs' m'" "same_outside {a} hs hs'"
    "same_codes hs hs'" "length bt1 = (if bt = [] then 4 else length bt)"
    "set (concat bt1) = insert a (set (concat bt))" "length (concat bt1) = Suc (length (concat bt))"
    "if ([] :: addr list list) = [] \<and> 8 * length bt1 \<le> length (concat bt1)
     then hm_at hs' m' (replicate (2 * length bt1) []) bt1 \<and> table (ht_from m') \<noteq> None
     else hm_at hs' m' bt1 []"
    using hm_insert_step [OF b(1) a(1)] a(2) b(3) c by auto
  have l4: "length bt1 = 4" using i(4) b(2) by auto
  have at: "hm_at hs' m' bt1 []" using i(6,7) l4 cb c by (auto split: if_splits)
  then have "hm_help_resizing hs' m' = ret (hs', m')"
    using hm_at_from_null by (auto simp: hm_help_resizing_def)
  moreover have "hm_small hs' m' (insert a N)"
    unfolding hm_small_def using at l4 i(5) b(4) c a(2) hm_small_finite [OF s] by (auto simp del: set_concat)
  ultimately show ?thesis using i by auto
qed

lemma hm_small_pop:
  assumes s: "hm_small hs m N" and f: "finds hs N c cmp P"
  shows "\<exists>hs' m' p. hm_pop hs m c cmp = ret (hs', m', p) \<and> same_outside N hs hs' \<and> same_codes hs hs' \<and>
    (case p of Some a \<Rightarrow> a \<in> N \<and> P a \<and> hm_small hs' m' (N - {a})
     | None \<Rightarrow> hm_small hs' m' N \<and> (\<forall>a \<in> N. \<not> P a))"
proof -
  from s obtain bt where b: "hm_at hs m bt []" "bt = [] \<or> length bt = 4" "N = hm_nodes bt []" "card N < 32"
    by (auto simp: hm_small_def hm_nodes_def)
  have "\<not> hm_stuck m [] 0" by (simp add: hm_stuck_def)
  from hm_pop_at [OF b(1) this f[unfolded b(3)]] obtain hs' m' p where
    l: "hm_pop hs m c cmp = ret (hs', m', p)" "same_outside N hs hs'" "same_codes hs hs'"
      "case p of Some a \<Rightarrow> a \<in> N \<and> P a \<and> hm_now hs' m' bt [] (N - {a})
       | None \<Rightarrow> hm_now hs' m' bt [] N \<and> (\<forall>a \<in> N. \<not> P a)"
    unfolding b(3) by blast
  have sm: "hm_small hs' m' M" if "hm_now hs' m' bt [] M" "M \<subseteq> N" for M
  proof -
    have "card M < 32" using card_mono [OF hm_small_finite [OF s] that(2)] b(4) by linarith
    with that(1) b(2) show ?thesis unfolding hm_small_def hm_now_def hm_nodes_def by fastforce
  qed
  with l show ?thesis
    by (intro exI [of _ hs'] exI [of _ m'] exI [of _ p]) (auto split: option.splits)
qed

section \<open>The resize that never ends\<close>

lemma hm_small_insert_32:
  assumes s: "hm_small hs m N" and a: "hs a = Some n" "a \<notin> N" and c: "card N = 31"
    and b: "b \<in> insert a N" "code_of hs b = Some k" "k AND 3 \<noteq> 0"
  shows "hm_insert hs m (Some a) = None"
proof -
  from s obtain bt where bt: "hm_at hs m bt []" "bt = [] \<or> length bt = 4" "N = hm_nodes bt []" "N = set (concat bt)"
    by (auto simp: hm_small_def hm_nodes_def)
  have cb: "length (concat bt) = 31" using card_hm_nodes [OF bt(1)] bt(3) c by simp
  then have "length bt = 4" using bt(2) by auto
  obtain hs' m' bt1 where i: "hm_insert hs m (Some a) = hm_help_resizing hs' m'" "same_codes hs hs'"
    "length bt1 = (if bt = [] then 4 else length bt)" "set (concat bt1) = insert a (set (concat bt))"
    "length (concat bt1) = Suc (length (concat bt))"
    "if ([] :: addr list list) = [] \<and> 8 * length bt1 \<le> length (concat bt1)
     then hm_at hs' m' (replicate (2 * length bt1) []) bt1 \<and> table (ht_from m') \<noteq> None
     else hm_at hs' m' bt1 []"
    using hm_insert_step [OF bt(1) a(1)] a(2) bt(3) c by auto
  have l: "length bt1 = 4" "length (concat bt1) = 32" using i(3,5) cb \<open>length bt = 4\<close> by auto
  then have at: "hm_at hs' m' (replicate 8 []) bt1" "table (ht_from m') \<noteq> None" using i(6) by auto
  then have t: "tab_at hs' (ht_from m') bt1" unfolding hm_at_def by blast
  then have mk: "hmask (ht_from m') = 3" using at(2) l(1) by (auto elim!: tab_at_cases)
  have "b \<notin> set (bt1 ! 0)"
  proof
    assume "b \<in> set (bt1 ! 0)"
    then have "in_bucket hs' (ht_from m') 0 b" using t at(2) l(1) by (auto elim!: tab_at_cases)
    moreover have "code_of hs' b = Some k" using b(2) i(2) by (simp add: same_codes_def code_of_def)
    ultimately have "unat (k AND 3) = 0" by (auto simp: in_bucket_def code_of_def bucket_of_def mk)
    with b(3) show False by (simp add: unat_eq_0)
  qed
  moreover have "b \<in> set (concat bt1)" using b(1) i(4) bt(4) by blast
  ultimately have "set (bt1 ! 0) \<subset> set (concat bt1)" using set_concat_nth [of 0 bt1] l(1) by auto
  then have "card (set (bt1 ! 0)) < card (set (concat bt1))" by (intro psubset_card_mono) auto
  then have "length (bt1 ! 0) < 32"
    using distinct_card [OF tab_at_distinct [OF t]] distinct_card [OF distinct_concat_nth [OF tab_at_distinct [OF t], of 0]]
      l by (simp del: set_concat)
  then have "hm_stuck m' bt1 0" using at(2) l by (simp add: hm_stuck_def K_RESIZING_WORK_def)
  with i(1) hm_help_resizing_diverges [OF at(1)] show ?thesis by simp
qed

section \<open>The number of nodes\<close>

text \<open>
  The sum of the two size fields follows the operations, also in the middle of a resize: an insertion that
  returns adds one, a removal that finds a node takes one away, and moving nodes between the tables
  changes nothing. Below the load factor and outside a resize an insertion does return.
\<close>

lemma hm_inv_size: "hm_at hs m bt bf \<Longrightarrow> unat (hm_size m) = card (hm_nodes bt bf)"
  using hm_size_card unfolding hm_inv_def by blast

lemma finite_hm_nodes: "finite (hm_nodes bt bf)"
  by (simp add: hm_nodes_def)

lemma hm_insert_size:
  assumes at: "hm_at hs m bt bf" and a: "hs a = Some n" "a \<notin> hm_nodes bt bf" and sz: "card (hm_nodes bt bf) + 1 < 2 ^ 64"
  shows "hm_insert hs m (Some a) = None \<or>
      (\<exists>hs' m'. hm_insert hs m (Some a) = ret (hs', m') \<and> unat (hm_size m') = unat (hm_size m) + 1)"
    and "bf = [] \<Longrightarrow> unat (hm_size m) + 1 < 8 * (if bt = [] then 4 else length bt) \<Longrightarrow> hm_insert hs m (Some a) \<noteq> None"
proof -
  obtain hs1 m1 bt1 where i: "hm_insert hs m (Some a) = hm_help_resizing hs1 m1"
    "length bt1 = (if bt = [] then 4 else length bt)" "set (concat bt1) = insert a (set (concat bt))"
    "length (concat bt1) = Suc (length (concat bt))"
    "if bf = [] \<and> 8 * length bt1 \<le> length (concat bt1)
     then hm_at hs1 m1 (replicate (2 * length bt1) []) bt1 \<and> table (ht_from m1) \<noteq> None
     else hm_at hs1 m1 bt1 bf" using hm_insert_step [OF at a sz] by metis
  obtain bt2 bf2 where b2: "hm_at hs1 m1 bt2 bf2" "hm_nodes bt2 bf2 = insert a (hm_nodes bt bf)"
    "bf = [] \<Longrightarrow> length (concat bt1) < 8 * length bt1 \<Longrightarrow> bf2 = []"
    using i(3,5) by (fastforce simp: hm_nodes_def split: if_splits)
  have n: "card (hm_nodes bt2 bf2) = unat (hm_size m) + 1"
    using a(2) hm_inv_size [OF at] finite_hm_nodes [of bt bf] by (simp add: b2(2))
  show "hm_insert hs m (Some a) = None \<or>
      (\<exists>hs' m'. hm_insert hs m (Some a) = ret (hs', m') \<and> unat (hm_size m') = unat (hm_size m) + 1)"
  proof (cases "hm_stuck m1 bf2 0")
    case True
    then show ?thesis using hm_help_resizing_diverges [OF b2(1)] i(1) by simp
  next
    case False
    then show ?thesis using hm_help_resizing_returns [OF b2(1)] hm_inv_size n i(1) by metis
  qed
  show "hm_insert hs m (Some a) \<noteq> None" if "bf = []" "unat (hm_size m) + 1 < 8 * (if bt = [] then 4 else length bt)"
  proof -
    have "length (concat bt) = card (hm_nodes bt bf)" using card_hm_nodes [OF at] that(1) by simp
    then have "bf2 = []" using b2(3) that i(2,4) hm_inv_size [OF at] by (simp split: if_splits)
    then have "\<not> hm_stuck m1 bf2 0" using hm_at_from_null [OF b2(1)] by (simp add: hm_stuck_def)
    then show ?thesis using hm_help_resizing_returns [OF b2(1)] i(1) by (auto simp: ret_def)
  qed
qed

lemma hm_pop_size:
  assumes at: "hm_at hs m bt bf" and live: "\<not> hm_stuck m bf 0" and f: "finds hs (hm_nodes bt bf) c cmp P"
  shows "\<exists>hs' m' p. hm_pop hs m c cmp = ret (hs', m', p) \<and> (p = None \<longleftrightarrow> (\<forall>a \<in> hm_nodes bt bf. \<not> P a)) \<and>
    unat (hm_size m) = unat (hm_size m') + (if p = None then 0 else 1)"
proof -
  obtain hs' m' p where p: "hm_pop hs m c cmp = ret (hs', m', p)"
    "case p of Some a \<Rightarrow> a \<in> hm_nodes bt bf \<and> P a \<and> hm_now hs' m' bt bf (hm_nodes bt bf - {a})
     | None \<Rightarrow> hm_now hs' m' bt bf (hm_nodes bt bf) \<and> (\<forall>a \<in> hm_nodes bt bf. \<not> P a)"
    using hm_pop_at [OF assms] by blast
  have now: "unat (hm_size m') = card N" if "hm_now hs' m' bt bf N" for N
    using that hm_inv_size unfolding hm_now_def by blast
  show ?thesis
  proof (cases p)
    case None
    then show ?thesis using p now hm_inv_size [OF at] by auto
  next
    case (Some a)
    then have a: "a \<in> hm_nodes bt bf" "P a" "unat (hm_size m') = card (hm_nodes bt bf - {a})"
      using p(2) now [of "hm_nodes bt bf - {a}"] by (simp_all del: card_Diff_insert)
    have "Suc (card (hm_nodes bt bf - {a})) = card (hm_nodes bt bf)" by (rule card_Suc_Diff1 [OF finite_hm_nodes a(1)])
    then have "unat (hm_size m) = unat (hm_size m') + 1" using a(3) hm_inv_size [OF at] by linarith
    then show ?thesis using p(1) Some a(1,2) by auto
  qed
qed

lemma hm_lookup_size:
  assumes "hm_at hs m bt bf" and "\<not> hm_stuck m bf 0" and "finds hs (hm_nodes bt bf) c cmp P"
  shows "\<exists>hs' m' p. hm_lookup hs m c cmp = ret (hs', m', p) \<and> hm_size m' = hm_size m"
  using hm_lookup_at [OF assms] hm_inv_size assms(1) by (metis word_unat_eq_iff)

end
