(* ===== verification/Hashtable_Client.thy ===== *)
theory Hashtable_Client
  imports Hashtable_Spec
begin

unbundle bit_operations_syntax

text \<open>
  The hash map as its clients see it. The locale \<open>node_map\<close> is the contract of a set of intrusive
  nodes with lookup by a comparison callback, insertion and removal; in it, lookups by key are
  derived for nodes whose keys are pairwise different and whose hash codes are the codes of their
  keys. It is interpreted for \<open>hm_lookup\<close>, \<open>hm_insert\<close> and \<open>hm_pop\<close> on maps in their first table. The
  traversal \<open>h_scan\<close> is shown to call its function once on every node.
\<close>

section \<open>The contract\<close>

definition at_key :: "addr set \<Rightarrow> (addr \<Rightarrow> 'k) \<Rightarrow> 'k \<Rightarrow> ptr \<Rightarrow> bool" where
  "at_key N key k p \<longleftrightarrow> (case p of Some a \<Rightarrow> a \<in> N \<and> key a = k | None \<Rightarrow> k \<notin> key ` N)"

definition keyed :: "hstore \<Rightarrow> addr set \<Rightarrow> (addr \<Rightarrow> 'k) \<Rightarrow> ('k \<Rightarrow> u64) \<Rightarrow> bool" where
  "keyed hs N key code \<longleftrightarrow> inj_on key N \<and> (\<forall>a \<in> N. code_of hs a = Some (code (key a)))"

lemma keyed_finds:
  "keyed hs N key code \<Longrightarrow> (\<And>a. a \<in> N \<Longrightarrow> cmp a = ret (key a = k)) \<Longrightarrow>
   finds hs N (code k) cmp (\<lambda>a. key a = k)"
  by (auto simp: keyed_def finds_def)

lemma keyed_codes: "keyed hs N key code \<Longrightarrow> same_codes hs hs' \<Longrightarrow> keyed hs' N key code"
  by (simp add: keyed_def same_codes_def code_of_def)

lemma keyed_subset: "keyed hs N key code \<Longrightarrow> M \<subseteq> N \<Longrightarrow> keyed hs M key code"
  unfolding keyed_def using inj_on_subset by blast

lemma at_key_Some_unique: "keyed hs N key code \<Longrightarrow> a \<in> N \<Longrightarrow> key a = k \<Longrightarrow> at_key N key k p \<longleftrightarrow> p = Some a"
  by (cases p) (auto simp: keyed_def at_key_def inj_on_def)

locale node_map =
  fixes inv :: "hstore \<Rightarrow> 'm \<Rightarrow> addr set \<Rightarrow> bool"
    and lookup :: "hstore \<Rightarrow> 'm \<Rightarrow> u64 \<Rightarrow> (addr \<Rightarrow> bool exec) \<Rightarrow> (hstore \<times> 'm \<times> ptr) exec"
    and insert_node :: "hstore \<Rightarrow> 'm \<Rightarrow> ptr \<Rightarrow> (hstore \<times> 'm) exec"
    and pop :: "hstore \<Rightarrow> 'm \<Rightarrow> u64 \<Rightarrow> (addr \<Rightarrow> bool exec) \<Rightarrow> (hstore \<times> 'm \<times> ptr) exec"
    and capacity :: nat
  assumes lookup_law: "inv hs m N \<Longrightarrow> finds hs N c cmp P \<Longrightarrow> \<exists>p. lookup hs m c cmp = ret (hs, m, p) \<and>
      (case p of Some a \<Rightarrow> a \<in> N \<and> P a | None \<Rightarrow> \<forall>a \<in> N. \<not> P a)"
    and insert_law: "inv hs m N \<Longrightarrow> hs a = Some n \<Longrightarrow> a \<notin> N \<Longrightarrow> card N + 1 < capacity \<Longrightarrow>
      \<exists>hs' m'. insert_node hs m (Some a) = ret (hs', m') \<and> inv hs' m' (insert a N) \<and>
        same_outside {a} hs hs' \<and> same_codes hs hs'"
    and pop_law: "inv hs m N \<Longrightarrow> finds hs N c cmp P \<Longrightarrow>
      \<exists>hs' m' p. pop hs m c cmp = ret (hs', m', p) \<and> same_outside N hs hs' \<and> same_codes hs hs' \<and>
        (case p of Some a \<Rightarrow> a \<in> N \<and> P a \<and> inv hs' m' (N - {a})
         | None \<Rightarrow> inv hs' m' N \<and> (\<forall>a \<in> N. \<not> P a))"
begin

lemma lookup_key:
  assumes "inv hs m N" "keyed hs N key code" "\<And>a. a \<in> N \<Longrightarrow> cmp a = ret (key a = k)"
  shows "\<exists>p. lookup hs m (code k) cmp = ret (hs, m, p) \<and> at_key N key k p"
proof -
  obtain p where p: "lookup hs m (code k) cmp = ret (hs, m, p)"
    "case p of Some a \<Rightarrow> a \<in> N \<and> key a = k | None \<Rightarrow> \<forall>a \<in> N. key a \<noteq> k"
    using lookup_law [OF assms(1) keyed_finds [OF assms(2,3)]] by blast
  from p(2) have "at_key N key k p" by (auto simp: at_key_def split: option.splits)
  with p(1) show ?thesis by blast
qed

lemma insert_key:
  assumes "inv hs m N" "keyed hs N key code" "hs a = Some n" "hcode n = code (key a)" "key a \<notin> key ` N"
    and "card N + 1 < capacity"
  shows "\<exists>hs' m'. insert_node hs m (Some a) = ret (hs', m') \<and> inv hs' m' (insert a N) \<and>
    keyed hs' (insert a N) key code \<and> same_outside {a} hs hs'"
proof -
  have "a \<notin> N" using assms(5) by auto
  then obtain hs' m' where i: "insert_node hs m (Some a) = ret (hs', m')" "inv hs' m' (insert a N)"
    "same_outside {a} hs hs'" "same_codes hs hs'" using insert_law assms(1,3,6) by blast
  have "keyed hs (insert a N) key code" using assms(2-5) by (auto simp: keyed_def code_of_def)
  with i show ?thesis using keyed_codes by blast
qed

lemma pop_key:
  assumes "inv hs m N" "keyed hs N key code" "\<And>a. a \<in> N \<Longrightarrow> cmp a = ret (key a = k)"
  shows "\<exists>hs' m' p. pop hs m (code k) cmp = ret (hs', m', p) \<and> at_key N key k p \<and>
    inv hs' m' (N - set_option p) \<and> keyed hs' (N - set_option p) key code \<and> same_outside N hs hs'"
proof -
  obtain hs' m' p where p: "pop hs m (code k) cmp = ret (hs', m', p)" "same_outside N hs hs'" "same_codes hs hs'"
    "case p of Some a \<Rightarrow> a \<in> N \<and> key a = k \<and> inv hs' m' (N - {a}) | None \<Rightarrow> inv hs' m' N \<and> (\<forall>a \<in> N. key a \<noteq> k)"
    using pop_law [OF assms(1) keyed_finds [OF assms(2,3)]] by blast
  from p(4) have "at_key N key k p" "inv hs' m' (N - set_option p)"
    by (auto simp: at_key_def split: option.splits)
  moreover have "keyed hs' (N - set_option p) key code"
    using keyed_subset [OF keyed_codes [OF assms(2) p(3)]] by blast
  ultimately show ?thesis using p(1,2) by blast
qed

text \<open>What was inserted is found, until it is removed.\<close>

lemma insert_then_lookup:
  assumes "inv hs m N" "keyed hs N key code" "hs a = Some n" "hcode n = code (key a)" "key a \<notin> key ` N"
    and "card N + 1 < capacity" and "\<And>b. b \<in> insert a N \<Longrightarrow> cmp b = ret (key b = key a)"
  shows "\<exists>hs' m'. insert_node hs m (Some a) = ret (hs', m') \<and> lookup hs' m' (code (key a)) cmp = ret (hs', m', Some a)"
proof -
  obtain hs' m' where i: "insert_node hs m (Some a) = ret (hs', m')" "inv hs' m' (insert a N)"
    "keyed hs' (insert a N) key code" using insert_key [OF assms(1-6)] by blast
  then show ?thesis
    using lookup_key [OF i(2,3) assms(7)] at_key_Some_unique [OF i(3), of a "key a"] by auto
qed

lemma pop_then_lookup:
  assumes "inv hs m N" "keyed hs N key code" "\<And>b. b \<in> N \<Longrightarrow> cmp b = ret (key b = k)"
  shows "\<exists>hs' m' p. pop hs m (code k) cmp = ret (hs', m', p) \<and> lookup hs' m' (code k) cmp = ret (hs', m', None)"
proof -
  obtain hs' m' p where p: "pop hs m (code k) cmp = ret (hs', m', p)" "at_key N key k p"
    "inv hs' m' (N - set_option p)" "keyed hs' (N - set_option p) key code" using pop_key [OF assms] by blast
  obtain q where q: "lookup hs' m' (code k) cmp = ret (hs', m', q)" "at_key (N - set_option p) key k q"
    using lookup_key [OF p(3,4), where cmp = cmp and k = k] assms(3) by auto
  have "q = None"
    using q(2) p(2) assms(2) by (cases q; cases p) (auto simp: at_key_def keyed_def inj_on_def)
  with p(1) q(1) show ?thesis by blast
qed

end

interpretation first_table: node_map hm_small hm_lookup hm_insert hm_pop 32
proof unfold_locales
  fix hs m N a and n :: HNode
  assume "hm_small hs m N" "hs a = Some n" "a \<notin> N" "card N + 1 < 32"
  then show "\<exists>hs' m'. hm_insert hs m (Some a) = ret (hs', m') \<and> hm_small hs' m' (insert a N) \<and>
      same_outside {a} hs hs' \<and> same_codes hs hs'"
    using hm_small_insert [of hs m N a n] by simp
qed (fact hm_small_lookup, fact hm_small_pop)

section \<open>Traversal\<close>

text \<open>\<open>foldE f xs s\<close> runs \<open>f\<close> on the elements from left to right.\<close>

fun foldE :: "('a \<Rightarrow> 's \<Rightarrow> 's exec) \<Rightarrow> 'a list \<Rightarrow> 's \<Rightarrow> 's exec" where
  "foldE f [] s = ret s"
| "foldE f (x # xs) s = bindE (f x s) (\<lambda>s. foldE f xs s)"

lemma foldE_append: "foldE f (xs @ ys) s = bindE (foldE f xs s) (\<lambda>s. foldE f ys s)"
proof (induction xs arbitrary: s)
  case (Cons x xs)
  from Cons have "foldE f (xs @ ys) = (\<lambda>s. bindE (foldE f xs s) (\<lambda>s. foldE f ys s))" by (intro ext)
  then show ?case by (simp add: bindE_assoc)
qed simp

lemma foldE_ret: "(\<And>x s. f x s = ret (g x s)) \<Longrightarrow> foldE f xs s = ret (fold g xs s)"
  by (induction xs arbitrary: s) simp_all

lemma h_scan_chain_fold: "chain hs p xs \<Longrightarrow> h_scan_chain hs f p s = foldE f xs s"
proof (induction xs arbitrary: p s)
  case (Cons a xs)
  then obtain n where "p = Some a" "hs a = Some n" "chain hs (hnext n) xs" by (auto split: option.splits)
  then show ?case using Cons.IH by (simp add: h_scan_chain.simps [of _ _ "Some a"])
qed (simp add: h_scan_chain.simps)

lemma h_scan_buckets_fold:
  assumes "tab_at hs ht bs" "table ht \<noteq> None" "set is \<subseteq> {..< length bs}"
  shows "h_scan_buckets hs ht f is s = foldE f (concat (map ((!) bs) is)) s"
  using assms(3)
proof (induction "is" arbitrary: s)
  case (Cons i "is")
  from assms(1) show ?case
  proof (cases rule: tab_at_cases)
    case (table ps k)
    have "unat (of_nat i :: u64) = i"
      using Cons.prems table(3,4) pow2_less_u64 [of k] by (intro unat_of_nat_u64) simp
    then have "tbl_get ht (of_nat i) = ret (ps ! i)" using table(1,2) Cons.prems by (simp add: tbl_get_def)
    moreover have "h_scan_chain hs f (ps ! i) s = foldE f (bs ! i) s"
      using table(7) Cons.prems by (intro h_scan_chain_fold) simp
    moreover have "h_scan_buckets hs ht f is = foldE f (concat (map ((!) bs) is))"
      using Cons by (intro ext) simp
    ultimately show ?thesis by (simp add: foldE_append)
  qed (use assms(2) in simp)
qed simp

lemma h_scan_fold:
  assumes t: "tab_at hs ht bs" and small: "length (concat bs) < 2 ^ 64"
  shows "h_scan hs ht f s = foldE f (concat bs) s"
proof (cases "hsize ht = 0")
  case True
  then have "concat bs = []"
    using tab_at_hsize [OF t] small u64_of_nat_eq_iff [of "length (concat bs)" 0] by (simp del: concat_eq_Nil_conv)
  then show ?thesis using True by (simp add: h_scan_def del: concat_eq_Nil_conv)
next
  case False
  from t show ?thesis
  proof (cases rule: tab_at_cases)
    case (table ps k)
    have "hmask ht + 1 = of_nat (length bs)" using table(4,6) by (simp add: of_nat_diff)
    then have "unat (hmask ht + 1) = length bs"
      using table(3,4) pow2_less_u64 [of k] unat_of_nat_u64 [of "length bs"] by simp
    then show ?thesis
      using False h_scan_buckets_fold [OF t, of "[0..<length bs]" f s] table(1)
      by (simp add: h_scan_def map_nth atLeast_upt)
  qed (use False in simp)
qed

lemma hm_small_scan:
  assumes "hm_small hs m N"
  obtains xs where "distinct xs" "set xs = N" "\<And>f s. h_scan hs (ht_to m) f s = foldE f xs s"
proof -
  from assms obtain bt where b: "hm_at hs m bt []" "N = set (concat bt)" by (auto simp: hm_small_def)
  then have "tab_at hs (ht_to m) bt" "length (concat bt) < 2 ^ 64" by (auto simp: hm_at_def)
  then show thesis by (intro that [of "concat bt"]) (simp_all add: h_scan_fold tab_at_distinct b(2) del: set_concat)
qed

end
