(* ===== verification/Wire.thy ===== *)
theory Wire
  imports Prelude
begin

unbundle bit_operations_syntax

text \<open>
  The byte-level helpers of \<open>utils.h\<close> and the constants of \<open>constants.h\<close>: the string hash, the
  case-insensitive command comparison, the type-length-value serialisation of responses, and the
  blocking \<open>read_full\<close> / \<open>write_all\<close> loops over the \<open>read\<close> and \<open>write\<close> system calls, which are
  parameters. Strings (\<open>std::string\<close>) are byte lists; integers are copied in little-endian order,
  the byte order the source assumes.
\<close>

section \<open>Constants\<close>

definition K_MAX_MSG :: nat where "K_MAX_MSG = 4096"
definition K_MAX_ARGS :: nat where "K_MAX_ARGS = 1024"

definition SER_NIL :: u8 where "SER_NIL = 0"
definition SER_ERR :: u8 where "SER_ERR = 1"
definition SER_STR :: u8 where "SER_STR = 2"
definition SER_INT :: u8 where "SER_INT = 3"
definition SER_DBL :: u8 where "SER_DBL = 4"
definition SER_ARR :: u8 where "SER_ARR = 5"

definition ERR_UNKNOWN :: u32 where "ERR_UNKNOWN = 1"
definition ERR_2BIG :: u32 where "ERR_2BIG = 2"
definition ERR_TYPE :: u32 where "ERR_TYPE = 3"
definition ERR_ARG :: u32 where "ERR_ARG = 4"

lemmas ser_defs = SER_NIL_def SER_ERR_def SER_STR_def SER_INT_def SER_DBL_def SER_ARR_def

section \<open>Integers in memory\<close>

definition le32 :: "u32 \<Rightarrow> bytes" where
  "le32 w = [ucast w, ucast (drop_bit 8 w), ucast (drop_bit 16 w), ucast (drop_bit 24 w)]"

definition le64 :: "u64 \<Rightarrow> bytes" where
  "le64 w = [ucast w, ucast (drop_bit 8 w), ucast (drop_bit 16 w), ucast (drop_bit 24 w),
     ucast (drop_bit 32 w), ucast (drop_bit 40 w), ucast (drop_bit 48 w), ucast (drop_bit 56 w)]"

fun word_of_le :: "bytes \<Rightarrow> 'a::len word" where
  "word_of_le [] = 0"
| "word_of_le (b # bs) = ucast b OR push_bit 8 (word_of_le bs)"

text \<open>\<open>memcpy\<close> out of a buffer: reading past its end is a fault.\<close>

definition read_bytes :: "bytes \<Rightarrow> nat \<Rightarrow> nat \<Rightarrow> bytes exec" where
  "read_bytes buf pos n = (if pos + n \<le> length buf then ret (take n (drop pos buf)) else fault OutOfBounds)"

definition read_u32 :: "bytes \<Rightarrow> nat \<Rightarrow> u32 exec" where
  "read_u32 buf pos = bindE (read_bytes buf pos 4) (\<lambda>bs. ret (word_of_le bs))"

definition read_u64 :: "bytes \<Rightarrow> nat \<Rightarrow> u64 exec" where
  "read_u64 buf pos = bindE (read_bytes buf pos 8) (\<lambda>bs. ret (word_of_le bs))"

text \<open>\<open>memcpy\<close> into a buffer.\<close>

definition write_bytes :: "bytes \<Rightarrow> nat \<Rightarrow> bytes \<Rightarrow> bytes exec" where
  "write_bytes buf pos bs = (if pos + length bs \<le> length buf
     then ret (take pos buf @ bs @ drop (pos + length bs) buf) else fault OutOfBounds)"

section \<open>Hash and command names\<close>

definition str_hash_step :: "u8 \<Rightarrow> u32 \<Rightarrow> u32" where
  "str_hash_step b hash = (hash + ucast b) * 0x811C9DC5"

definition str_hash :: "bytes \<Rightarrow> u64" where
  "str_hash data = ucast (fold str_hash_step data 0x811C9DC5)"

definition tolower :: "u8 \<Rightarrow> u8" where
  "tolower b = (if 65 \<le> b \<and> b \<le> 90 then b + 32 else b)"

definition c_string :: "bytes \<Rightarrow> bytes" where
  "c_string s = takeWhile (\<lambda>b. b \<noteq> 0) s"

definition lit :: "string \<Rightarrow> bytes" where
  "lit s = map of_char s"

definition cmd_is :: "bytes \<Rightarrow> string \<Rightarrow> bool" where
  "cmd_is word cmd = (map tolower (c_string word) = map tolower (lit cmd))"

section \<open>Serialisation of responses\<close>

definition out_nil :: "bytes \<Rightarrow> bytes" where
  "out_nil out = out @ [SER_NIL]"

definition out_str :: "bytes \<Rightarrow> bytes \<Rightarrow> bytes" where
  "out_str out s = (let len = of_nat (length s) :: u32 in out @ [SER_STR] @ le32 len @ take (unat len) s)"

definition out_int :: "bytes \<Rightarrow> u64 \<Rightarrow> bytes" where
  "out_int out val = out @ [SER_INT] @ le64 val"

definition out_err :: "bytes \<Rightarrow> u32 \<Rightarrow> bytes \<Rightarrow> bytes" where
  "out_err out code msg = out @ [SER_ERR] @ le32 code @ le32 (of_nat (length msg)) @ msg"

definition out_arr :: "bytes \<Rightarrow> u32 \<Rightarrow> bytes" where
  "out_arr out n = out @ [SER_ARR] @ le32 n"

definition out_update_arr :: "bytes \<Rightarrow> u32 \<Rightarrow> bytes exec" where
  "out_update_arr out n =
     bindE (assertE (out \<noteq> [] \<and> out ! 0 = SER_ARR)) (\<lambda>_. write_bytes out 1 (le32 n))"

definition out_double :: "bytes \<Rightarrow> u64 \<Rightarrow> bytes" where
  "out_double out val = out @ [SER_DBL] @ le64 val"

section \<open>Blocking input and output\<close>

text \<open>
  \<open>sys_write k buf\<close> stands for \<open>write(fd, buf, n)\<close> on the state \<open>k\<close> of the kernel, and
  \<open>sys_read k n\<close> for \<open>read(fd, buf, n)\<close>; a negative result is an error. The loops may run forever
  only if the calls keep returning zero progress, which they treat as an error.
\<close>

partial_function (option) write_all ::
  "('k \<Rightarrow> bytes \<Rightarrow> int \<times> 'k) \<Rightarrow> 'k \<Rightarrow> bytes \<Rightarrow> (int \<times> 'k) exec" where
  "write_all sys_write k buf =
     (if buf \<noteq> [] then
        case sys_write k buf of (rv, k) \<Rightarrow>
          if rv \<le> 0 then ret (-1, k)
          else bindE (assertE (nat rv \<le> length buf)) (\<lambda>_. write_all sys_write k (drop (nat rv) buf))
      else ret (0, k))"

partial_function (option) read_full ::
  "('k \<Rightarrow> nat \<Rightarrow> int \<times> bytes \<times> 'k) \<Rightarrow> 'k \<Rightarrow> nat \<Rightarrow> bytes \<Rightarrow> (int \<times> bytes \<times> 'k) exec" where
  "read_full sys_read k n buf =
     (if n > 0 then
        case sys_read k n of (rv, bs, k) \<Rightarrow>
          if rv \<le> 0 then ret (-1, buf, k)
          else bindE (assertE (nat rv \<le> n)) (\<lambda>_. read_full sys_read k (n - nat rv) (buf @ take (nat rv) bs))
      else ret (0, buf, k))"

section \<open>Round trips of the integers\<close>

named_theorems wire_simps "normal forms of encoded fields"

lemma length_le32 [simp]: "length (le32 w) = 4"
  by (simp add: le32_def)

lemma length_le64 [simp]: "length (le64 w) = 8"
  by (simp add: le64_def)

text \<open>The little-endian image of the low \<open>n\<close> bytes of a word, of which both layouts are instances.\<close>

primrec le_bytes :: "nat \<Rightarrow> 'a::len word \<Rightarrow> bytes" where
  "le_bytes 0 w = []"
| "le_bytes (Suc n) w = ucast w # le_bytes n (drop_bit 8 w)"

lemma low_byte_split:
  "(ucast (ucast w :: u8) :: 'a::len word) OR push_bit 8 (take_bit (8 * n) (drop_bit 8 w)) = take_bit (8 + 8 * n) w"
proof (rule bit_word_eqI)
  fix i
  assume "i < LENGTH('a)"
  then show "bit ((ucast (ucast w :: u8) :: 'a word) OR push_bit 8 (take_bit (8 * n) (drop_bit 8 w))) i
    = bit (take_bit (8 + 8 * n) w) i"
    by (cases "i < 8") (auto simp: bit_simps not_less)
qed

lemma word_of_le_bytes: "word_of_le (le_bytes n w) = take_bit (8 * n) w"
  by (induction n arbitrary: w) (simp_all add: low_byte_split)

lemma le32_bytes: "le32 w = le_bytes 4 w"
  by (simp add: le32_def numeral_eq_Suc)

lemma le64_bytes: "le64 w = le_bytes 8 w"
  by (simp add: le64_def numeral_eq_Suc)

lemma word_of_le32 [simp]: "word_of_le (le32 w) = w"
  by (simp add: le32_bytes word_of_le_bytes take_bit_word_eq_self)

lemma word_of_le64 [simp]: "word_of_le (le64 w) = w"
  by (simp add: le64_bytes word_of_le_bytes take_bit_word_eq_self)

text \<open>Conversely, four bytes are the image of the word they are read as.\<close>

lemma length_le_bytes [simp]: "length (le_bytes n w) = n"
  by (induction n arbitrary: w) simp_all

lemma le_bytes_take_bit: "8 * n \<le> m \<Longrightarrow> le_bytes n (take_bit m w) = le_bytes n w"
proof (induction n arbitrary: m w)
  case (Suc n)
  have "(ucast (take_bit m w) :: u8) = ucast w"
    by (rule bit_word_eqI) (use Suc.prems in \<open>auto simp: bit_simps\<close>)
  moreover have "drop_bit 8 (take_bit m w) = take_bit (m - 8) (drop_bit 8 w)"
    by (simp add: drop_bit_take_bit)
  ultimately show ?case using Suc.IH [of "m - 8" "drop_bit 8 w"] Suc.prems by simp
qed simp

lemma le_bytes_word_of_le:
  "8 * length bs \<le> LENGTH('a) \<Longrightarrow> le_bytes (length bs) (word_of_le bs :: 'a::len word) = bs"
proof (induction bs)
  case (Cons b bs)
  let ?w = "word_of_le bs :: 'a word"
  have "(ucast (ucast b OR push_bit 8 ?w) :: u8) = b"
    by (rule bit_word_eqI) (use Cons.prems in \<open>auto simp: bit_simps\<close>)
  moreover have "drop_bit 8 (ucast b OR push_bit 8 ?w) = take_bit (LENGTH('a) - 8) ?w"
    by (rule bit_word_eqI) (use Cons.prems in \<open>auto simp: bit_simps dest: bit_imp_le_length\<close>)
  ultimately show ?case using Cons by (simp add: le_bytes_take_bit)
qed simp

lemma le32_word_of_le: "length bs = 4 \<Longrightarrow> le32 (word_of_le bs) = bs"
  using le_bytes_word_of_le [of bs, where 'a = 32] by (simp add: le32_bytes)

lemma le64_word_of_le: "length bs = 8 \<Longrightarrow> le64 (word_of_le bs) = bs"
  using le_bytes_word_of_le [of bs, where 'a = 64] by (simp add: le64_bytes)

section \<open>Fields of a buffer\<close>

lemma read_bytes_at: "read_bytes (xs @ bs @ ys) (length xs) (length bs) = ret bs"
  by (simp add: read_bytes_def)

lemma read_u32_at:
  assumes "buf = xs @ le32 w @ ys" and "pos = length xs"
  shows "read_u32 buf pos = ret w"
  using read_bytes_at [of xs "le32 w" ys] assms by (simp add: read_u32_def)

lemma read_u64_at:
  assumes "buf = xs @ le64 w @ ys" and "pos = length xs"
  shows "read_u64 buf pos = ret w"
  using read_bytes_at [of xs "le64 w" ys] assms by (simp add: read_u64_def)

lemma read_u32_ret: "pos + 4 \<le> length buf \<Longrightarrow> read_u32 buf pos = ret (word_of_le (take 4 (drop pos buf)))"
  by (simp add: read_u32_def read_bytes_def)

lemma read_u64_ret: "pos + 8 \<le> length buf \<Longrightarrow> read_u64 buf pos = ret (word_of_le (take 8 (drop pos buf)))"
  by (simp add: read_u64_def read_bytes_def)

lemma write_bytes_at:
  assumes "length bs \<le> n" and "pos = length xs"
  shows "write_bytes (xs @ replicate n 0) pos bs = ret ((xs @ bs) @ replicate (n - length bs) 0)"
  using assms by (simp add: write_bytes_def)

section \<open>The input and output loops\<close>

text \<open>
  What the loops rely on. \<open>sent k\<close> is what has been handed to the kernel on the descriptor, and
  \<open>pending k\<close> is everything the peer will still deliver; a call moves as many bytes as it reports.
\<close>

definition writes_prefix :: "('k \<Rightarrow> bytes \<Rightarrow> int \<times> 'k) \<Rightarrow> ('k \<Rightarrow> bytes) \<Rightarrow> bool" where
  "writes_prefix sys_write sent \<longleftrightarrow> (\<forall>k buf rv k'. sys_write k buf = (rv, k') \<longrightarrow>
     rv \<le> int (length buf) \<and> sent k' = sent k @ take (nat rv) buf)"

definition reads_prefix :: "('k \<Rightarrow> nat \<Rightarrow> int \<times> bytes \<times> 'k) \<Rightarrow> ('k \<Rightarrow> bytes) \<Rightarrow> bool" where
  "reads_prefix sys_read pending \<longleftrightarrow> (\<forall>k n rv bs k'. sys_read k n = (rv, bs, k') \<longrightarrow>
     rv \<le> int n \<and> length bs = nat rv \<and> pending k = bs @ pending k')"

text \<open>
  The loop hands over everything, or stops with -1 at a call that reported an error (or no progress) on
  the bytes that were left.
\<close>

lemma write_all_outcome:
  assumes "writes_prefix sys_write sent"
  shows "\<exists>rv k' m. write_all sys_write k buf = ret (rv, k') \<and> sent k' = sent k @ take m buf \<and>
    (rv = 0 \<and> m = length buf \<or> rv = -1 \<and> m < length buf \<and>
      (\<exists>k0. sent k0 = sent k @ take m buf \<and> fst (sys_write k0 (drop m buf)) \<le> 0))"
proof (induction "length buf" arbitrary: k buf rule: less_induct)
  case less
  show ?case
  proof (cases "buf = []")
    case False
    obtain rv k1 where call: "sys_write k buf = (rv, k1)" by (cases "sys_write k buf")
    then have le: "nat rv \<le> length buf" and sent: "sent k1 = sent k @ take (nat rv) buf"
      using assms unfolding writes_prefix_def by (simp_all add: nat_le_iff)
    show ?thesis
    proof (cases "rv \<le> 0")
      case True
      then have "write_all sys_write k buf = ret (-1, k1)" "sent k1 = sent k" "fst (sys_write k buf) \<le> 0"
        using False call sent by (simp_all add: write_all.simps [of _ _ buf])
      then show ?thesis using False by (intro exI [of _ "-1"] exI [of _ k1] exI [of _ 0]) auto
    next
      case pos: False
      with False have "length (drop (nat rv) buf) < length buf" by simp
      from less [OF this, of k1] obtain rv' k' m where
        rest: "write_all sys_write k1 (drop (nat rv) buf) = ret (rv', k')"
          "sent k' = sent k1 @ take m (drop (nat rv) buf)"
          "rv' = 0 \<and> m = length buf - nat rv \<or> rv' = -1 \<and> m < length buf - nat rv \<and>
             (\<exists>k0. sent k0 = sent k1 @ take m (drop (nat rv) buf) \<and> fst (sys_write k0 (drop m (drop (nat rv) buf))) \<le> 0)"
        unfolding length_drop by blast
      have j: "sent k1 @ take m (drop (nat rv) buf) = sent k @ take (nat rv + m) buf" "drop m (drop (nat rv) buf) = drop (nat rv + m) buf"
        using sent by (simp add: take_add, simp add: add.commute)
      have "write_all sys_write k buf = ret (rv', k')"
        using False call pos le rest(1) by (simp add: write_all.simps [of _ _ buf])
      then show ?thesis using rest(2,3) le unfolding j by (intro exI [of _ rv'] exI [of _ k'] exI [of _ "nat rv + m"]) auto
    qed
  qed (simp add: write_all.simps)
qed

lemma write_all_prefix:
  assumes "writes_prefix sys_write sent"
  shows "\<exists>rv k' m. write_all sys_write k buf = ret (rv, k') \<and> sent k' = sent k @ take m buf \<and>
    (rv = 0 \<and> m = length buf \<or> rv = -1 \<and> m < length buf)"
  using write_all_outcome [OF assms, of k buf] by blast

lemma read_full_prefix:
  assumes "reads_prefix sys_read pending"
  shows "\<exists>rv bs k'. read_full sys_read k n buf = ret (rv, buf @ bs, k') \<and> pending k = bs @ pending k' \<and>
    (rv = 0 \<and> length bs = n \<or> rv = -1 \<and> length bs < n)"
proof (induction n arbitrary: k buf rule: less_induct)
  case (less n)
  show ?case
  proof (cases "n = 0")
    case False
    obtain rv bs k1 where call: "sys_read k n = (rv, bs, k1)" by (cases "sys_read k n") auto
    then have le: "nat rv \<le> n" and bs: "length bs = nat rv" "pending k = bs @ pending k1"
      using assms unfolding reads_prefix_def by (simp_all add: nat_le_iff)
    show ?thesis
    proof (cases "rv \<le> 0")
      case True
      then show ?thesis using False call bs
        by (auto simp: read_full.simps [of _ _ n])
    next
      case pos: False
      with False have "n - nat rv < n" by simp
      from less [OF this, of k1 "buf @ bs"] obtain rv' bs' k' where
        rest: "read_full sys_read k1 (n - nat rv) (buf @ bs) = ret (rv', (buf @ bs) @ bs', k')"
          "pending k1 = bs' @ pending k'"
          "rv' = 0 \<and> length bs' = n - nat rv \<or> rv' = -1 \<and> length bs' < n - nat rv"
        by auto
      show ?thesis
        using False call pos le rest bs
        by (auto simp: read_full.simps [of _ _ n] intro!: exI [of _ "bs @ bs'"])
    qed
  qed (simp add: read_full.simps)
qed

end
