(* ===== verification/Zset.thy ===== *)
theory Zset
  imports Avl_Spec Hashtable_Client Wire "HOL-Library.List_Lexorder" "HOL-Library.Product_Lexorder"
begin

unbundle bit_operations_syntax

text \<open>
  The sorted set of \<open>zset.h\<close> and \<open>zset.cpp\<close>: nodes \<open>(score, name)\<close> indexed twice, by an AVL tree in
  the order of \<open>(score, name)\<close> and by a hash map on the name. The memory has one store per member
  of \<open>ZNode\<close>: the intrusive tree node, the intrusive hash node and the payload.
\<close>

section \<open>Doubles\<close>

text \<open>
  A \<open>double\<close> is its IEEE-754 bit pattern. Finite numbers and infinities are ordered by sign and
  magnitude, the two zeros are equal, and a NaN compares false with everything.
\<close>

definition dbl_mag :: "u64 \<Rightarrow> u64" where
  "dbl_mag d = d AND 0x7FFFFFFFFFFFFFFF"

definition dbl_nan :: "u64 \<Rightarrow> bool" where
  "dbl_nan d \<longleftrightarrow> dbl_mag d > 0x7FF0000000000000"

definition dbl_key :: "u64 \<Rightarrow> int" where
  "dbl_key d = (if bit d 63 then - uint (dbl_mag d) else uint (dbl_mag d))"

definition dbl_eq :: "u64 \<Rightarrow> u64 \<Rightarrow> bool" where
  "dbl_eq x y \<longleftrightarrow> \<not> dbl_nan x \<and> \<not> dbl_nan y \<and> dbl_key x = dbl_key y"

definition dbl_lt :: "u64 \<Rightarrow> u64 \<Rightarrow> bool" where
  "dbl_lt x y \<longleftrightarrow> \<not> dbl_nan x \<and> \<not> dbl_nan y \<and> dbl_key x < dbl_key y"

section \<open>Memory\<close>

record ZNode =
  score :: u64
  name :: bytes

record ZSet =
  tree :: ptr
  hmap :: HMap

record zmem =
  tnodes :: avl_store
  hnodes :: hstore
  znodes :: "ZNode store"

definition ZSet_default :: ZSet where
  "ZSet_default = \<lparr>tree = None, hmap = HMap_default\<rparr>"

text \<open>
  \<open>fresh\<close> is what \<open>malloc\<close> returned. The tree node starts with arbitrary contents, all of which
  \<open>avl_init\<close> overwrites.
\<close>

definition znode_new :: "zmem \<Rightarrow> ptr \<Rightarrow> bytes \<Rightarrow> u64 \<Rightarrow> (zmem \<times> ptr) exec" where
  "znode_new m fresh nm sc =
     (case fresh of None \<Rightarrow> fault AssertFailed
      | Some a \<Rightarrow>
          bindE (avl_init ((tnodes m)(a \<mapsto> \<lparr>depth = 0, cnt = 0, left = None, right = None, parent = None\<rparr>)) fresh) (\<lambda>ts.
          ret (m\<lparr>tnodes := ts,
                 hnodes := (hnodes m)(a \<mapsto> \<lparr>hnext = None, hcode = str_hash nm\<rparr>),
                 znodes := (znodes m)(a \<mapsto> \<lparr>score = sc, name = nm\<rparr>)\<rparr>, fresh)))"

definition znode_del :: "zmem \<Rightarrow> ptr \<Rightarrow> zmem exec" where
  "znode_del m node =
     (case node of None \<Rightarrow> ret m
      | Some a \<Rightarrow> if znodes m a = None then fault Dangling
          else ret (m\<lparr>tnodes := (tnodes m)(a := None), hnodes := (hnodes m)(a := None),
                      znodes := (znodes m)(a := None)\<rparr>))"

section \<open>Order\<close>

text \<open>\<open>min\<close> of \<open>zset.cpp\<close> returns a \<open>uint32_t\<close>; \<open>memcmp\<close> compares unsigned bytes, within both buffers.\<close>

definition min_u32 :: "nat \<Rightarrow> nat \<Rightarrow> nat" where
  "min_u32 lhs rhs = unat (of_nat (if lhs < rhs then lhs else rhs) :: u32)"

fun memcmp :: "bytes \<Rightarrow> bytes \<Rightarrow> nat \<Rightarrow> int" where
  "memcmp (x # xs) (y # ys) (Suc n) = (if x = y then memcmp xs ys n else if x < y then -1 else 1)"
| "memcmp _ _ _ = 0"

definition zless :: "ZNode store \<Rightarrow> ptr \<Rightarrow> u64 \<Rightarrow> bytes \<Rightarrow> bool exec" where
  "zless zs lhs sc nm =
     bindE (rd zs lhs) (\<lambda>zl.
     if \<not> dbl_eq (score zl) sc then ret (dbl_lt (score zl) sc)
     else let rv = memcmp (name zl) nm (min_u32 (length (name zl)) (length nm)) in
       if rv \<noteq> 0 then ret (rv < 0) else ret (length (name zl) < length nm))"

definition zless_node :: "ZNode store \<Rightarrow> ptr \<Rightarrow> ptr \<Rightarrow> bool exec" where
  "zless_node zs lhs rhs = bindE (rd zs rhs) (\<lambda>zr. zless zs lhs (score zr) (name zr))"

section \<open>Insertion into the tree\<close>

partial_function (option) tree_add_loop ::
  "avl_store \<Rightarrow> ZNode store \<Rightarrow> ptr \<Rightarrow> ptr \<Rightarrow> (avl_store \<times> ptr) exec" where
  "tree_add_loop ts zs node cur =
     bindE (zless_node zs node cur) (\<lambda>lt.
     bindE (rd ts cur) (\<lambda>c.
     let from = (if lt then LeftLink cur else RightLink cur);
         child = (if lt then left c else right c) in
     if child = None then
       bindE (set_link ts from node) (\<lambda>ts.
       bindE (wr ts node (\<lambda>n. n\<lparr>parent := cur\<rparr>)) (\<lambda>ts.
       avl_rebalance ts node))
     else tree_add_loop ts zs node child))"

definition tree_add :: "zmem \<Rightarrow> ZSet \<Rightarrow> ptr \<Rightarrow> (zmem \<times> ZSet) exec" where
  "tree_add m zset node =
     (if tree zset = None then ret (m, zset\<lparr>tree := node\<rparr>)
      else
        bindE (tree_add_loop (tnodes m) (znodes m) node (tree zset)) (\<lambda>(ts, root).
        ret (m\<lparr>tnodes := ts\<rparr>, zset\<lparr>tree := root\<rparr>)))"

section \<open>The operations of a sorted set\<close>

definition hcmp :: "zmem \<Rightarrow> u64 \<Rightarrow> bytes \<Rightarrow> addr \<Rightarrow> bool exec" where
  "hcmp m key_hcode nm node =
     bindE (rd (hnodes m) (Some node)) (\<lambda>n.
     if hcode n \<noteq> key_hcode then ret False
     else
       bindE (rd (znodes m) (Some node)) (\<lambda>znode.
       if length (name znode) \<noteq> length nm then ret False
       else ret (memcmp (name znode) nm (length (name znode)) = 0)))"

definition zset_lookup :: "zmem \<Rightarrow> ZSet \<Rightarrow> bytes \<Rightarrow> (zmem \<times> ZSet \<times> ptr) exec" where
  "zset_lookup m zset nm =
     (if tree zset = None then ret (m, zset, None)
      else let key_hcode = str_hash nm in
        bindE (hm_lookup (hnodes m) (hmap zset) key_hcode (hcmp m key_hcode nm)) (\<lambda>(hs, hm, found).
        ret (m\<lparr>hnodes := hs\<rparr>, zset\<lparr>hmap := hm\<rparr>, found)))"

definition zset_update :: "zmem \<Rightarrow> ZSet \<Rightarrow> ptr \<Rightarrow> u64 \<Rightarrow> (zmem \<times> ZSet) exec" where
  "zset_update m zset node sc =
     bindE (rd (znodes m) node) (\<lambda>z.
     if dbl_eq (score z) sc then ret (m, zset)
     else
       bindE (avl_delete (tnodes m) node) (\<lambda>(ts, root).
       bindE (wr (znodes m) node (\<lambda>z. z\<lparr>score := sc\<rparr>)) (\<lambda>zs.
       bindE (avl_init ts node) (\<lambda>ts.
       tree_add (m\<lparr>tnodes := ts, znodes := zs\<rparr>) (zset\<lparr>tree := root\<rparr>) node))))"

definition zset_add :: "zmem \<Rightarrow> ZSet \<Rightarrow> ptr \<Rightarrow> bytes \<Rightarrow> u64 \<Rightarrow> (zmem \<times> ZSet \<times> bool) exec" where
  "zset_add m zset fresh nm sc =
     bindE (zset_lookup m zset nm) (\<lambda>(m, zset, node).
     if node \<noteq> None then
       bindE (zset_update m zset node sc) (\<lambda>(m, zset). ret (m, zset, False))
     else
       bindE (znode_new m fresh nm sc) (\<lambda>(m, node).
       bindE (hm_insert (hnodes m) (hmap zset) node) (\<lambda>(hs, hm).
       bindE (tree_add (m\<lparr>hnodes := hs\<rparr>) (zset\<lparr>hmap := hm\<rparr>) node) (\<lambda>(m, zset).
       ret (m, zset, True)))))"

partial_function (option) lower_loop ::
  "avl_store \<Rightarrow> ZNode store \<Rightarrow> u64 \<Rightarrow> bytes \<Rightarrow> ptr \<Rightarrow> ptr \<Rightarrow> ptr exec" where
  "lower_loop ts zs sc nm cur found =
     (if cur \<noteq> None then
        bindE (zless zs cur sc nm) (\<lambda>lt.
        bindE (rd ts cur) (\<lambda>c.
        if lt then lower_loop ts zs sc nm (right c) found
        else lower_loop ts zs sc nm (left c) cur))
      else ret found)"

definition zset_query :: "zmem \<Rightarrow> ZSet \<Rightarrow> u64 \<Rightarrow> bytes \<Rightarrow> int \<Rightarrow> ptr exec" where
  "zset_query m zset sc nm offset =
     bindE (lower_loop (tnodes m) (znodes m) sc nm (tree zset) None) (\<lambda>found.
     if found \<noteq> None then avl_offset (tnodes m) found offset else ret None)"

definition zset_pop :: "zmem \<Rightarrow> ZSet \<Rightarrow> bytes \<Rightarrow> (zmem \<times> ZSet \<times> ptr) exec" where
  "zset_pop m zset nm =
     (if tree zset = None then ret (m, zset, None)
      else let key_hcode = str_hash nm in
        bindE (hm_pop (hnodes m) (hmap zset) key_hcode (hcmp m key_hcode nm)) (\<lambda>(hs, hm, found).
        let m = m\<lparr>hnodes := hs\<rparr>; zset = zset\<lparr>hmap := hm\<rparr> in
        if found = None then ret (m, zset, None)
        else
          bindE (avl_delete (tnodes m) found) (\<lambda>(ts, root).
          ret (m\<lparr>tnodes := ts\<rparr>, zset\<lparr>tree := root\<rparr>, found))))"

partial_function (option) tree_dispose :: "zmem \<Rightarrow> ptr \<Rightarrow> zmem exec" where
  "tree_dispose m node =
     (if node = None then ret m
      else
        bindE (rd (tnodes m) node) (\<lambda>n.
        bindE (tree_dispose m (left n)) (\<lambda>m.
        bindE (rd (tnodes m) node) (\<lambda>n.
        bindE (tree_dispose m (right n)) (\<lambda>m.
        znode_del m node)))))"

definition zset_dispose :: "zmem \<Rightarrow> ZSet \<Rightarrow> (zmem \<times> ZSet) exec" where
  "zset_dispose m zset =
     bindE (tree_dispose m (tree zset)) (\<lambda>m. ret (m, zset\<lparr>hmap := hm_destroy (hmap zset)\<rparr>))"

end
