(* ===== verification/Ttl_Heap.thy ===== *)
theory Ttl_Heap
  imports Prelude "HOL-Library.Multiset"
begin

text \<open>
  The timer heap of \<open>server.cpp\<close>: an array of deadlines, each pointing back to the \<open>heap_idx\<close> field of
  the entry it belongs to. The model keeps both sides of that link: the array \<open>heap\<close> and the store
  of the \<open>heap_idx\<close> fields. Every operation is shown to keep the heap order and the links, and
  \<open>entry_set_ttl\<close> to implement an update of the abstract map from entries to deadlines.

  Positions are \<open>size_t\<close>, read as natural numbers with the wrap-around written out; \<open>(size_t)-1\<close> marks
  an entry without a timer.
\<close>

section \<open>The code\<close>

record HeapItem =
  val :: u64
  ref :: ptr

definition SIZE_MAX :: nat where "SIZE_MAX = 2 ^ 64 - 1"

definition heap_parent :: "nat \<Rightarrow> nat" where
  "heap_parent i = ((i + 1) mod 2 ^ 64 div 2 + SIZE_MAX) mod 2 ^ 64"

definition heap_left_child :: "nat \<Rightarrow> nat" where
  "heap_left_child i = (i * 2 + 1) mod 2 ^ 64"

definition heap_right_child :: "nat \<Rightarrow> nat" where
  "heap_right_child i = (i * 2 + 2) mod 2 ^ 64"

definition item_get :: "HeapItem list \<Rightarrow> nat \<Rightarrow> HeapItem exec" where
  "item_get hp i = (if i < length hp then ret (hp ! i) else fault OutOfBounds)"

definition item_set :: "HeapItem list \<Rightarrow> nat \<Rightarrow> HeapItem \<Rightarrow> HeapItem list exec" where
  "item_set hp i x = (if i < length hp then ret (hp[i := x]) else fault OutOfBounds)"

text \<open>\<open>ptr[pos] = item; *(ptr[pos].ref) = pos\<close>\<close>

definition item_place ::
  "HeapItem list \<Rightarrow> nat store \<Rightarrow> nat \<Rightarrow> HeapItem \<Rightarrow> (HeapItem list \<times> nat store) exec" where
  "item_place hp idx pos item =
     bindE (item_set hp pos item) (\<lambda>hp.
     bindE (wr idx (ref item) (\<lambda>_. pos)) (\<lambda>idx. ret (hp, idx)))"

partial_function (option) bubble_up_loop ::
  "HeapItem list \<Rightarrow> nat store \<Rightarrow> nat \<Rightarrow> HeapItem \<Rightarrow> (HeapItem list \<times> nat store \<times> nat) exec" where
  "bubble_up_loop hp idx pos item =
     (if pos > 0 then
        bindE (item_get hp (heap_parent pos)) (\<lambda>par.
        if val par > val item then
          bindE (item_place hp idx pos par) (\<lambda>r.
          bubble_up_loop (fst r) (snd r) (heap_parent pos) item)
        else ret (hp, idx, pos))
      else ret (hp, idx, pos))"

definition heap_bubble_up :: "HeapItem list \<Rightarrow> nat store \<Rightarrow> nat \<Rightarrow> (HeapItem list \<times> nat store) exec" where
  "heap_bubble_up hp idx pos =
     bindE (item_get hp pos) (\<lambda>item.
     bindE (bubble_up_loop hp idx pos item) (\<lambda>(hp, idx, pos). item_place hp idx pos item))"

definition smaller_child :: "HeapItem list \<Rightarrow> nat \<Rightarrow> nat \<Rightarrow> HeapItem \<Rightarrow> nat exec" where
  "smaller_child hp pos len item =
     (let l = heap_left_child pos; r = heap_right_child pos in
      bindE (if l < len then item_get hp l else ret item) (\<lambda>lc.
      let min_pos = (if l < len \<and> val lc < val item then l else SIZE_MAX);
          min_val = (if l < len \<and> val lc < val item then val lc else val item) in
      bindE (if r < len then item_get hp r else ret item) (\<lambda>rc.
      ret (if r < len \<and> val rc < min_val then r else min_pos))))"

partial_function (option) bubble_down_loop ::
  "HeapItem list \<Rightarrow> nat store \<Rightarrow> nat \<Rightarrow> nat \<Rightarrow> HeapItem \<Rightarrow> (HeapItem list \<times> nat store \<times> nat) exec" where
  "bubble_down_loop hp idx pos len item =
     bindE (smaller_child hp pos len item) (\<lambda>min_pos.
     if min_pos = SIZE_MAX then ret (hp, idx, pos)
     else
       bindE (item_get hp min_pos) (\<lambda>child.
       bindE (item_place hp idx pos child) (\<lambda>r.
       bubble_down_loop (fst r) (snd r) min_pos len item)))"

definition heap_bubble_down ::
  "HeapItem list \<Rightarrow> nat store \<Rightarrow> nat \<Rightarrow> nat \<Rightarrow> (HeapItem list \<times> nat store) exec" where
  "heap_bubble_down hp idx pos len =
     bindE (item_get hp pos) (\<lambda>item.
     bindE (bubble_down_loop hp idx pos len item) (\<lambda>(hp, idx, pos). item_place hp idx pos item))"

definition heap_update ::
  "HeapItem list \<Rightarrow> nat store \<Rightarrow> nat \<Rightarrow> nat \<Rightarrow> (HeapItem list \<times> nat store) exec" where
  "heap_update hp idx pos len =
     bindE (if pos > 0 then
              bindE (item_get hp (heap_parent pos)) (\<lambda>par.
              bindE (item_get hp pos) (\<lambda>item. ret (val par > val item)))
            else ret False) (\<lambda>up.
     if up then heap_bubble_up hp idx pos else heap_bubble_down hp idx pos len)"

text \<open>
  \<open>now_us\<close> is the value of \<open>get_monotonic_usec()\<close> at the call; \<open>a\<close> is the address of the entry. The
  deadline is computed in \<open>uint64_t\<close>.
\<close>

definition entry_set_ttl ::
  "u64 \<Rightarrow> HeapItem list \<Rightarrow> nat store \<Rightarrow> ptr \<Rightarrow> 64 word \<Rightarrow> (HeapItem list \<times> nat store) exec" where
  "entry_set_ttl now_us hp idx ent ttl_ms =
     bindE (rd idx ent) (\<lambda>pos.
     if sint ttl_ms < 0 \<and> pos \<noteq> SIZE_MAX then
       (if hp = [] then fault OutOfBounds
        else
          bindE (item_set hp pos (last hp)) (\<lambda>hp.
          let hp = butlast hp in
          bindE (if pos < length hp then heap_update hp idx pos (length hp) else ret (hp, idx)) (\<lambda>(hp, idx).
          bindE (wr idx ent (\<lambda>_. SIZE_MAX)) (\<lambda>idx. ret (hp, idx)))))
     else if sint ttl_ms \<ge> 0 then
       (let (hp, pos) = (if pos = SIZE_MAX then (hp @ [\<lparr>val = 0, ref = ent\<rparr>], length hp) else (hp, pos)) in
        bindE (item_get hp pos) (\<lambda>item.
        bindE (item_set hp pos (item\<lparr>val := now_us + ttl_ms * 1000\<rparr>)) (\<lambda>hp.
        heap_update hp idx pos (length hp))))
     else ret (hp, idx))"

section \<open>Heap order and links\<close>

definition par :: "nat \<Rightarrow> nat" where
  "par i = (i - 1) div 2"

definition heap_ordered :: "HeapItem list \<Rightarrow> bool" where
  "heap_ordered hp \<longleftrightarrow> (\<forall>i < length hp. 0 < i \<longrightarrow> val (hp ! par i) \<le> val (hp ! i))"

text \<open>The order with position \<open>pos\<close> exempt: the edges at \<open>pos\<close> are unknown, the others hold.\<close>

definition ordered_except :: "nat \<Rightarrow> HeapItem list \<Rightarrow> bool" where
  "ordered_except pos hp \<longleftrightarrow>
     (\<forall>i < length hp. 0 < i \<longrightarrow> i \<noteq> pos \<longrightarrow> par i \<noteq> pos \<longrightarrow> val (hp ! par i) \<le> val (hp ! i)) \<and>
     (\<forall>i < length hp. 0 < i \<longrightarrow> par i = pos \<longrightarrow> 0 < pos \<longrightarrow> val (hp ! par pos) \<le> val (hp ! i))"

definition linked_at :: "nat store \<Rightarrow> HeapItem \<Rightarrow> nat \<Rightarrow> bool" where
  "linked_at idx x i \<longleftrightarrow> (\<exists>a. ref x = Some a \<and> idx a = Some i)"

definition has_slot :: "nat store \<Rightarrow> HeapItem \<Rightarrow> bool" where
  "has_slot idx x \<longleftrightarrow> (\<exists>a j. ref x = Some a \<and> idx a = Some j)"

definition linked_except :: "nat \<Rightarrow> nat store \<Rightarrow> HeapItem list \<Rightarrow> bool" where
  "linked_except pos idx hp \<longleftrightarrow>
     distinct (map ref hp) \<and>
     (\<forall>i < length hp. (i \<noteq> pos \<longrightarrow> linked_at idx (hp ! i) i) \<and> has_slot idx (hp ! i))"

definition linked :: "nat store \<Rightarrow> HeapItem list \<Rightarrow> bool" where
  "linked idx hp \<longleftrightarrow> distinct (map ref hp) \<and> (\<forall>i < length hp. linked_at idx (hp ! i) i)"

lemma heap_parent_par: "0 < i \<Longrightarrow> i < 2 ^ 62 \<Longrightarrow> heap_parent i = par i"
proof -
  assume i: "0 < i" "i < 2 ^ 62"
  then obtain j where j: "i = Suc j" by (cases i) auto
  have "(i + 1) mod 2 ^ 64 div 2 = Suc (j div 2)" using i j by simp
  then have "heap_parent i = (j div 2 + 2 ^ 64) mod 2 ^ 64" by (simp add: heap_parent_def SIZE_MAX_def)
  also have "\<dots> = j div 2" using i j by simp
  finally show ?thesis by (simp add: par_def j)
qed

lemma child_pos: "i < 2 ^ 62 \<Longrightarrow> heap_left_child i = 2 * i + 1" "i < 2 ^ 62 \<Longrightarrow> heap_right_child i = 2 * i + 2"
  by (simp_all add: heap_left_child_def heap_right_child_def)

lemma par_less [simp]: "0 < i \<Longrightarrow> par i < i"
  by (simp add: par_def)

lemma par_child [simp]: "par (2 * i + 1) = i" "par (2 * i + 2) = i"
  "par (Suc (2 * i)) = i" "par (Suc (Suc (2 * i))) = i"
  by (simp_all add: par_def)

lemma par_neq [simp]: "0 < i \<Longrightarrow> par i \<noteq> i"
  by (metis less_irrefl par_less)

lemma par_bound [simp]: "0 < i \<Longrightarrow> i < n \<Longrightarrow> par i < n"
  using par_less less_trans by blast

lemma par_eq_iff: "0 < j \<Longrightarrow> par j = i \<longleftrightarrow> j = 2 * i + 1 \<or> j = 2 * i + 2"
  unfolding par_def by presburger

text \<open>The two orders at \<open>pos\<close> itself, against its children and against its parent.\<close>

definition below :: "nat \<Rightarrow> HeapItem list \<Rightarrow> bool" where
  "below pos hp \<longleftrightarrow> (\<forall>i < length hp. 0 < i \<longrightarrow> par i = pos \<longrightarrow> val (hp ! pos) \<le> val (hp ! i))"

definition above :: "nat \<Rightarrow> HeapItem list \<Rightarrow> bool" where
  "above pos hp \<longleftrightarrow> (0 < pos \<longrightarrow> val (hp ! par pos) \<le> val (hp ! pos))"

lemma heap_orderedI: "ordered_except pos hp \<Longrightarrow> below pos hp \<Longrightarrow> above pos hp \<Longrightarrow> heap_ordered hp"
  unfolding heap_ordered_def ordered_except_def below_def above_def by metis

lemma heap_ordered_except: "heap_ordered hp \<Longrightarrow> ordered_except pos hp"
  unfolding heap_ordered_def ordered_except_def by (meson order_trans par_bound)

lemma heap_ordered_update:
  assumes "heap_ordered hp" and "pos < length hp"
  shows "ordered_except pos (hp[pos := x])"
  unfolding ordered_except_def
proof (intro conjI allI impI)
  fix i
  assume i: "i < length (hp[pos := x])" "0 < i" "par i = pos" "0 < pos"
  then have "val (hp ! par pos) \<le> val (hp ! pos)" "val (hp ! pos) \<le> val (hp ! i)"
    using assms by (auto simp: heap_ordered_def)
  moreover have "par pos < pos" "pos < i" using i by auto
  ultimately show "val (hp[pos := x] ! par pos) \<le> val (hp[pos := x] ! i)" by simp
qed (use assms in \<open>simp add: heap_ordered_def\<close>)

definition swap :: "'a list \<Rightarrow> nat \<Rightarrow> nat \<Rightarrow> 'a list" where
  "swap xs p q = xs[p := xs ! q, q := xs ! p]"

lemma swap_nth [simp]:
  "p < length xs \<Longrightarrow> q < length xs \<Longrightarrow> i < length xs \<Longrightarrow>
    swap xs p q ! i = (if i = q then xs ! p else if i = p then xs ! q else xs ! i)"
  by (simp add: swap_def nth_list_update)

lemma length_swap [simp]: "length (swap xs p q) = length xs"
  by (simp add: swap_def)

lemma mset_swap' [simp]: "p < length xs \<Longrightarrow> q < length xs \<Longrightarrow> mset (swap xs p q) = mset xs"
  unfolding swap_def by (rule mset_swap)

lemma swap_up:
  assumes "ordered_except pos hp" "below pos hp" "0 < pos" "pos < length hp"
    and less: "val (hp ! pos) < val (hp ! par pos)"
  shows "ordered_except (par pos) (swap hp pos (par pos))" "below (par pos) (swap hp pos (par pos))"
proof -
  let ?q = "par pos" and ?s = "swap hp pos (par pos)"
  have q: "?q < pos" "?q < length hp" "?q \<noteq> pos" using assms(3,4) par_less [OF assms(3)] by auto
  have sib: "val (hp ! ?q) \<le> val (hp ! i)" if "i < length hp" "0 < i" "par i = ?q" "i \<noteq> pos" for i
    using assms(1) that q unfolding ordered_except_def by metis
  have "val (?s ! ?q) \<le> val (?s ! i)" if i: "i < length hp" "0 < i" "par i = ?q" for i
    using i q assms(4) less sib [OF i] par_less [OF i(2)] by (cases "i = pos") auto
  then show "below ?q ?s" by (simp add: below_def)
  have edge: "val (?s ! par i) \<le> val (?s ! i)" if i: "i < length hp" "0 < i" "i \<noteq> ?q" "par i \<noteq> ?q" for i
  proof (cases "par i = pos")
    case True
    moreover have "val (hp ! par pos) \<le> val (hp ! i)"
      using i True assms(1,3) by (simp add: ordered_except_def)
    ultimately show ?thesis using i q assms(4) par_less [OF i(2)] by simp
  next
    case False
    then show ?thesis using i q assms par_less [OF i(2)] by (auto simp: ordered_except_def)
  qed
  moreover have "val (?s ! par ?q) \<le> val (?s ! i)" if i: "i < length hp" "0 < i" "par i = ?q" "0 < ?q" for i
  proof -
    have "par ?q \<noteq> ?q" "par ?q \<noteq> pos" "par ?q < length hp" using par_less [OF i(4)] q by auto
    moreover have "val (hp ! par ?q) \<le> val (hp ! ?q)"
      using assms(1) i(4) q unfolding ordered_except_def by (metis less_irrefl par_less order_less_trans)
    ultimately show ?thesis using i q assms(4) sib [OF i(1,2,3)] by (auto intro: order_trans)
  qed
  ultimately show "ordered_except ?q ?s" by (simp add: ordered_except_def)
qed

lemma swap_down:
  assumes "ordered_except pos hp" "above pos hp" "pos < length hp" "q < length hp" "0 < q" "par q = pos"
    and less: "val (hp ! q) < val (hp ! pos)"
    and least: "\<And>i. i < length hp \<Longrightarrow> 0 < i \<Longrightarrow> par i = pos \<Longrightarrow> val (hp ! q) \<le> val (hp ! i)"
  shows "ordered_except q (swap hp pos q)" "above q (swap hp pos q)"
proof -
  let ?s = "swap hp pos q"
  have q: "pos < q" using assms(5,6) par_less by blast
  show "above q ?s" using assms(3-7) q by (simp add: above_def)
  have "val (?s ! par i) \<le> val (?s ! i)" if i: "i < length hp" "0 < i" "i \<noteq> q" "par i \<noteq> q" for i
  proof -
    have bounds: "par i < i" "par i < length hp" using i par_less [OF i(2)] by auto
    consider "i = pos" | "par i = pos" | "i \<noteq> pos" "par i \<noteq> pos" by blast
    then show ?thesis
    proof cases
      case 1
      then have "val (hp ! par pos) \<le> val (hp ! q)"
        using assms(1,4,5,6) i(2) by (simp add: ordered_except_def)
      then show ?thesis using 1 i bounds assms(3,4) q by simp
    next
      case 2
      then show ?thesis using i bounds assms(3,4) least [OF i(1,2) 2] by simp
    next
      case 3
      then have "val (hp ! par i) \<le> val (hp ! i)" using i assms(1) by (simp add: ordered_except_def)
      then show ?thesis using 3 i bounds assms(3,4) by simp
    qed
  qed
  moreover have "val (?s ! par q) \<le> val (?s ! i)" if i: "i < length hp" "0 < i" "par i = q" "0 < q" for i
  proof -
    have "q < i" using par_less [OF i(2)] i(3) by simp
    moreover have "val (hp ! q) \<le> val (hp ! i)"
      using assms(1) i q \<open>q < i\<close> by (auto simp: ordered_except_def)
    ultimately show ?thesis using i q assms(3,4,6) by simp
  qed
  ultimately show "ordered_except q ?s" by (simp add: ordered_except_def)
qed

subsection \<open>Moving an item\<close>

definition refs :: "HeapItem list \<Rightarrow> addr set" where
  "refs hp = {a. Some a \<in> ref ` set hp}"

lemma linked_at_upd: "linked_at (idx(b \<mapsto> p)) x i \<longleftrightarrow> (if ref x = Some b then i = p else linked_at idx x i)"
  by (auto simp: linked_at_def)

lemma has_slot_upd: "has_slot idx x \<Longrightarrow> has_slot (idx(b \<mapsto> p)) x"
  by (auto simp: has_slot_def)

lemma linked_swap:
  assumes l: "linked_except p idx hp" and "p < length hp" "q < length hp" "p \<noteq> q"
    and b: "ref (hp ! q) = Some b"
  shows "linked_except q (idx(b \<mapsto> p)) (swap hp p q)"
proof -
  have d: "distinct (map ref hp)" using l by (simp add: linked_except_def)
  have "mset (map ref (swap hp p q)) = mset (map ref hp)" using assms(2,3) by simp
  then have "distinct (map ref (swap hp p q))" using d mset_eq_imp_distinct_iff by blast
  moreover have other: "ref (hp ! i) \<noteq> Some b" if "i < length hp" "i \<noteq> q" for i
    using d that assms(3) b nth_eq_iff_index_eq [of "map ref hp" i q] by auto
  ultimately show ?thesis
    using assms by (simp add: linked_except_def linked_at_upd has_slot_upd) blast
qed

lemma linked_finish:
  assumes "linked_except p idx hp" "p < length hp" "ref (hp ! p) = Some b"
  shows "linked (idx(b \<mapsto> p)) hp"
proof -
  have d: "distinct (map ref hp)" using assms(1) by (simp add: linked_except_def)
  have "ref (hp ! i) \<noteq> Some b" if "i < length hp" "i \<noteq> p" for i
    using d that assms(2,3) nth_eq_iff_index_eq [of "map ref hp" i p] by auto
  then show ?thesis using assms by (simp add: linked_except_def linked_def linked_at_upd) blast
qed

lemma swap_hole:
  "p < length hp \<Longrightarrow> p \<noteq> q \<Longrightarrow> (hp[p := hp ! q])[q := item] = swap (hp[p := item]) p q"
  by (simp add: swap_def)

lemma item_place_step:
  assumes "linked_except p idx (hp[p := item])" "p < length hp" "q < length hp" "p \<noteq> q"
  obtains idx' where "item_place hp idx p (hp ! q) = ret (hp[p := hp ! q], idx')"
    "linked_except q idx' (swap (hp[p := item]) p q)" "same_outside (refs (hp[p := item])) idx idx'"
proof -
  let ?H = "hp[p := item]"
  have Hq: "?H ! q = hp ! q" using assms(4) by simp
  with assms obtain b j where b: "ref (?H ! q) = Some b" "idx b = Some j"
    unfolding linked_except_def has_slot_def by (metis length_list_update)
  have "b \<in> refs ?H" unfolding refs_def using b(1) assms(3) by (force simp: in_set_conv_nth)
  then show thesis
    using that [of "idx(b \<mapsto> p)"] linked_swap [OF assms(1) _ _ assms(4) b(1)] assms(2,3) b Hq
    by (simp add: item_place_def item_set_def same_outside_upd)
qed

subsection \<open>The loops\<close>

text \<open>
  With \<open>item\<close> put back at the position where a loop stops, the array is ordered, holds the same items
  as before, and every other item is linked.
\<close>

definition floated ::
  "HeapItem list \<Rightarrow> nat store \<Rightarrow> HeapItem \<Rightarrow> HeapItem list \<times> nat store \<times> nat \<Rightarrow> bool" where
  "floated hp idx item r \<longleftrightarrow> (case r of (hp', idx', pos') \<Rightarrow> let H = hp'[pos' := item] in
     pos' < length hp' \<and> linked_except pos' idx' H \<and> heap_ordered H \<and> mset H = mset hp \<and>
     same_outside (refs hp) idx idx')"

lemma refs_mset: "mset xs = mset ys \<Longrightarrow> refs xs = refs ys"
  unfolding refs_def by (metis set_mset_mset)

lemma floated_step:
  assumes "floated (swap hp p q) idx' item r" "same_outside (refs hp) idx idx'" "p < length hp" "q < length hp"
  shows "floated hp idx item r"
  using assms refs_mset [of "swap hp p q" hp]
  by (auto simp: floated_def Let_def intro: same_outside_trans split: prod.splits)

lemma bubble_up_loop_floats:
  assumes "linked_except pos idx (hp[pos := item])" "ordered_except pos (hp[pos := item])"
    "below pos (hp[pos := item])" "pos < length hp" "length hp < 2 ^ 62"
  shows "\<exists>r. bubble_up_loop hp idx pos item = ret r \<and> floated (hp[pos := item]) idx item r"
  using assms
proof (induction pos arbitrary: hp idx rule: less_induct)
  case (less pos)
  let ?H = "hp[pos := item]" and ?q = "par pos"
  show ?case
  proof (cases "0 < pos \<and> val item < val (hp ! ?q)")
    case True
    then have lt: "?q < pos" by simp
    with True have q: "?q < pos" "?q < length hp" "heap_parent pos = ?q" "?q \<noteq> pos"
      using less.prems(4,5) heap_parent_par [of pos] by auto
    obtain idx' where step: "item_place hp idx pos (hp ! ?q) = ret (hp[pos := hp ! ?q], idx')"
      "linked_except ?q idx' (swap ?H pos ?q)" "same_outside (refs ?H) idx idx'"
      using item_place_step [OF less.prems(1,4) q(2)] q(4) by metis
    have hole: "(hp[pos := hp ! ?q])[?q := item] = swap ?H pos ?q"
      using swap_hole less.prems(4) q(4) by metis
    have "val (?H ! pos) < val (?H ! ?q)" using True q less.prems(4) by simp
    from swap_up [OF less.prems(2,3) _ _ this] True less.prems(4)
    have "ordered_except ?q (swap ?H pos ?q)" "below ?q (swap ?H pos ?q)" by simp_all
    then obtain r where "bubble_up_loop (hp[pos := hp ! ?q]) idx' ?q item = ret r"
      "floated (swap ?H pos ?q) idx' item r"
      using less.IH [OF q(1), where hp = "hp[pos := hp ! ?q]" and idx = idx'] step(2) less.prems(5) q(2) unfolding hole by auto
    then show ?thesis
      using floated_step [OF _ step(3)] True q step(1) less.prems(4)
      by (auto simp: bubble_up_loop.simps [of hp idx pos] item_get_def)
  next
    case False
    then have "above pos ?H"
      using less.prems(4) by (auto simp: above_def not_less par_neq [symmetric])
    then have "heap_ordered ?H" using heap_orderedI less.prems(2,3) by blast
    then have "floated ?H idx item (hp, idx, pos)" using less.prems by (simp add: floated_def)
    moreover have "bubble_up_loop hp idx pos item = ret (hp, idx, pos)"
      using False less.prems(4,5) heap_parent_par [of pos]
      by (subst bubble_up_loop.simps) (auto simp: item_get_def)
    ultimately show ?thesis by blast
  qed
qed

lemma smaller_child_cases:
  assumes "pos < length hp" "length hp < 2 ^ 62"
  shows "smaller_child hp pos (length hp) item = ret SIZE_MAX \<and> below pos (hp[pos := item]) \<or>
    (\<exists>q. smaller_child hp pos (length hp) item = ret q \<and> q < length hp \<and> 0 < q \<and> par q = pos \<and>
       val (hp ! q) < val item \<and>
       (\<forall>i < length hp. 0 < i \<longrightarrow> par i = pos \<longrightarrow> val (hp ! q) \<le> val (hp ! i)))"
proof -
  let ?l = "2 * pos + 1" and ?r = "2 * pos + 2"
  define lt where "lt \<longleftrightarrow> ?l < length hp \<and> val (hp ! ?l) < val item"
  define rt where "rt \<longleftrightarrow> ?r < length hp \<and> val (hp ! ?r) < (if lt then val (hp ! ?l) else val item)"
  have eq: "smaller_child hp pos (length hp) item = ret (if rt then ?r else if lt then ?l else SIZE_MAX)"
    using assms child_pos [of pos]
    by (simp add: smaller_child_def Let_def item_get_def lt_def rt_def)
  show ?thesis
  proof (cases "rt \<or> lt")
    case False
    then have "?l < length hp \<Longrightarrow> val item \<le> val (hp ! ?l)" "?r < length hp \<Longrightarrow> val item \<le> val (hp ! ?r)"
      by (auto simp: lt_def rt_def not_less split: if_splits)
    then have "below pos (hp[pos := item])"
      using assms(1) by (auto simp: below_def par_eq_iff)
    then show ?thesis using eq False by simp
  next
    case True
    let ?q = "if rt then ?r else ?l"
    have "?q < length hp" "0 < ?q" "par ?q = pos" "val (hp ! ?q) < val item"
      using True by (auto simp: lt_def rt_def split: if_splits)
    moreover have "val (hp ! ?q) \<le> val (hp ! i)" if "i < length hp" "0 < i" "par i = pos" for i
      using that True by (auto simp: par_eq_iff lt_def rt_def split: if_splits)
    moreover have "smaller_child hp pos (length hp) item = ret ?q" using eq True by auto
    ultimately show ?thesis by blast
  qed
qed

lemma bubble_down_loop_floats:
  assumes "linked_except pos idx (hp[pos := item])" "ordered_except pos (hp[pos := item])"
    "above pos (hp[pos := item])" "pos < length hp" "length hp < 2 ^ 62"
  shows "\<exists>r. bubble_down_loop hp idx pos (length hp) item = ret r \<and> floated (hp[pos := item]) idx item r"
  using assms
proof (induction "length hp - pos" arbitrary: hp idx pos rule: less_induct)
  case less
  let ?H = "hp[pos := item]"
  from smaller_child_cases [OF less.prems(4,5), of item] show ?case
  proof (elim disjE exE conjE)
    assume stop: "smaller_child hp pos (length hp) item = ret SIZE_MAX" "below pos ?H"
    then have "heap_ordered ?H" using heap_orderedI less.prems(2,3) by blast
    then have "floated ?H idx item (hp, idx, pos)" using less.prems by (simp add: floated_def)
    then show ?thesis using stop by (auto simp: bubble_down_loop.simps [of hp idx pos])
  next
    fix q
    assume go: "smaller_child hp pos (length hp) item = ret q" and q: "q < length hp" "0 < q" "par q = pos"
      and lt: "val (hp ! q) < val item"
      and least: "\<forall>i < length hp. 0 < i \<longrightarrow> par i = pos \<longrightarrow> val (hp ! q) \<le> val (hp ! i)"
    have pq: "pos < q" using par_less [OF q(2)] q(3) by simp
    obtain idx' where step: "item_place hp idx pos (hp ! q) = ret (hp[pos := hp ! q], idx')"
      "linked_except q idx' (swap ?H pos q)" "same_outside (refs ?H) idx idx'"
      using item_place_step [OF less.prems(1,4) q(1)] pq by (metis less_irrefl)
    have hole: "(hp[pos := hp ! q])[q := item] = swap ?H pos q"
      using swap_hole less.prems(4) pq by (metis less_irrefl)
    have "val (?H ! q) \<le> val (?H ! i)" if i: "i < length ?H" "0 < i" "par i = pos" for i
      using par_less [OF i(2)] i least pq by simp
    moreover have "val (?H ! q) < val (?H ! pos)" using lt pq less.prems(4) by simp
    ultimately have "ordered_except q (swap ?H pos q)" "above q (swap ?H pos q)"
      using swap_down [OF less.prems(2,3) _ _ q(2,3)] less.prems(4) q(1) by simp_all
    moreover have "length (hp[pos := hp ! q]) - q < length hp - pos" using pq q(1) by simp
    ultimately obtain r where "bubble_down_loop (hp[pos := hp ! q]) idx' q (length hp) item = ret r"
      "floated (swap ?H pos q) idx' item r"
      using less.hyps [where hp = "hp[pos := hp ! q]" and pos = q and idx = idx'] step(2) less.prems(5) q(1) unfolding hole by auto
    moreover have "q \<noteq> SIZE_MAX" using q(1) less.prems(5) by (simp add: SIZE_MAX_def)
    ultimately show ?thesis
      using floated_step [OF _ step(3)] go q step(1) less.prems(4)
      by (auto simp: bubble_down_loop.simps [of hp idx pos] item_get_def)
  qed
qed

subsection \<open>Restoring the heap\<close>

definition restored ::
  "HeapItem list \<Rightarrow> nat store \<Rightarrow> HeapItem list \<times> nat store \<Rightarrow> bool" where
  "restored hp idx r \<longleftrightarrow> heap_ordered (fst r) \<and> linked (snd r) (fst r) \<and> mset (fst r) = mset hp \<and>
     same_outside (refs hp) idx (snd r)"

lemma floated_restored:
  assumes "floated hp idx item (hp', idx', pos')"
  shows "\<exists>r. item_place hp' idx' pos' item = ret r \<and> restored hp idx r"
proof -
  let ?H = "hp'[pos' := item]"
  have f: "pos' < length hp'" "linked_except pos' idx' ?H" "heap_ordered ?H" "mset ?H = mset hp"
    "same_outside (refs hp) idx idx'" using assms by (simp_all add: floated_def Let_def)
  then have "?H ! pos' = item" by simp
  moreover from this f(1,2) obtain b j where b: "ref item = Some b" "idx' b = Some j"
    unfolding linked_except_def has_slot_def by (metis length_list_update)
  ultimately have "linked (idx'(b \<mapsto> pos')) ?H" using linked_finish [OF f(2)] f(1) by simp
  moreover have "item \<in> set ?H" using f(1) by (rule set_update_memI)
  then have "item \<in> set hp" using f(4) mset_eq_setD by blast
  then have "b \<in> refs hp" unfolding refs_def using b(1) by force
  then have "same_outside (refs hp) idx (idx'(b \<mapsto> pos'))"
    using same_outside_trans [OF f(5) same_outside_upd [where h = idx' and a = b and n = j]] b(2) by simp
  ultimately show ?thesis
    using f(1,3,4) b by (simp add: item_place_def item_set_def restored_def)
qed

lemma heap_update_restores:
  assumes "linked_except pos idx hp" "ordered_except pos hp" "pos < length hp" "length hp < 2 ^ 62"
  shows "\<exists>r. heap_update hp idx pos (length hp) = ret r \<and> restored hp idx r"
proof -
  let ?item = "hp ! pos"
  have same: "hp[pos := ?item] = hp" by simp
  have finish: "\<exists>r. bindE (ret s) (\<lambda>(hp, idx, pos). item_place hp idx pos ?item) = ret r \<and> restored hp idx r"
    if "floated hp idx ?item s" for s
    using floated_restored that by (cases s) simp
  show ?thesis
  proof (cases "0 < pos \<and> val ?item < val (hp ! par pos)")
    case True
    have "val ?item \<le> val (hp ! i)" if i: "i < length hp" "0 < i" "par i = pos" for i
    proof -
      have "val (hp ! par pos) \<le> val (hp ! i)" using assms(2) i True by (simp add: ordered_except_def)
      then show ?thesis using True by (meson less_imp_le order_trans)
    qed
    then have "below pos hp" by (simp add: below_def)
    then obtain s where "bubble_up_loop hp idx pos ?item = ret s" "floated hp idx ?item s"
      using bubble_up_loop_floats [of pos idx hp ?item] assms same by auto
    then show ?thesis using True assms(3,4) finish [of s] heap_parent_par [of pos]
      by (simp add: heap_update_def item_get_def heap_bubble_up_def)
  next
    case False
    then have "above pos hp" by (auto simp: above_def)
    then obtain s where "bubble_down_loop hp idx pos (length hp) ?item = ret s" "floated hp idx ?item s"
      using bubble_down_loop_floats [of pos idx hp ?item] assms same by auto
    then show ?thesis using False assms(3,4) finish [of s] heap_parent_par [of pos]
      by (cases "pos = 0") (auto simp: heap_update_def item_get_def heap_bubble_down_def)
  qed
qed

section \<open>Timers as a map from entries to deadlines\<close>

text \<open>
  \<open>ttl_inv\<close>: the array is a heap and its items are in one-to-one correspondence with the entries
  whose \<open>heap_idx\<close> is not \<open>(size_t)-1\<close>. \<open>deadline\<close> is what the structure means.
\<close>

definition ttl_inv :: "HeapItem list \<Rightarrow> nat store \<Rightarrow> bool" where
  "ttl_inv hp idx \<longleftrightarrow> heap_ordered hp \<and> linked idx hp \<and> length hp < 2 ^ 62 \<and>
     (\<forall>a i. idx a = Some i \<longrightarrow> i \<noteq> SIZE_MAX \<longrightarrow> a \<in> refs hp)"

definition deadline :: "HeapItem list \<Rightarrow> nat store \<Rightarrow> addr \<Rightarrow> u64 option" where
  "deadline hp idx a = (case idx a of None \<Rightarrow> None
     | Some i \<Rightarrow> if i = SIZE_MAX then None else Some (val (hp ! i)))"

lemma refs_iff: "a \<in> refs hp \<longleftrightarrow> (\<exists>i < length hp. ref (hp ! i) = Some a)"
  unfolding refs_def by (force simp: in_set_conv_nth)

lemma linked_pos: "linked idx hp \<Longrightarrow> i < length hp \<Longrightarrow> ref (hp ! i) = Some a \<Longrightarrow> idx a = Some i"
  by (auto simp: linked_def linked_at_def)

lemma ttl_inv_pos:
  assumes "ttl_inv hp idx" "idx a = Some i" "i \<noteq> SIZE_MAX"
  shows "i < length hp" "ref (hp ! i) = Some a"
proof -
  have "a \<in> refs hp" "linked idx hp" using assms by (simp_all add: ttl_inv_def)
  then obtain j where "j < length hp" "ref (hp ! j) = Some a" "idx a = Some j"
    unfolding refs_iff using linked_pos by blast
  then show "i < length hp" "ref (hp ! i) = Some a" using assms(2) by simp_all
qed

lemma ttl_inv_unset:
  assumes "ttl_inv hp idx" "idx a = Some SIZE_MAX"
  shows "a \<notin> refs hp"
proof
  assume "a \<in> refs hp"
  then obtain j where "j < length hp" "idx a = Some j"
    using assms(1) linked_pos unfolding refs_iff ttl_inv_def by blast
  then show False using assms by (simp add: ttl_inv_def SIZE_MAX_def)
qed

lemma deadline_iff:
  assumes "ttl_inv hp idx"
  shows "deadline hp idx a = Some v \<longleftrightarrow> \<lparr>val = v, ref = Some a\<rparr> \<in> set hp"
proof
  assume "deadline hp idx a = Some v"
  then obtain i where "idx a = Some i" "i \<noteq> SIZE_MAX" "v = val (hp ! i)"
    by (auto simp: deadline_def split: option.splits if_splits)
  then have "i < length hp" "hp ! i = \<lparr>val = v, ref = Some a\<rparr>"
    using ttl_inv_pos [OF assms] by (simp_all add: HeapItem.equality)
  then show "\<lparr>val = v, ref = Some a\<rparr> \<in> set hp" by (metis nth_mem)
next
  assume "\<lparr>val = v, ref = Some a\<rparr> \<in> set hp"
  then obtain i where i: "i < length hp" "hp ! i = \<lparr>val = v, ref = Some a\<rparr>" by (metis in_set_conv_nth)
  then have "idx a = Some i" using assms linked_pos [of idx hp i a] by (simp add: ttl_inv_def)
  moreover have "i \<noteq> SIZE_MAX" using i(1) assms by (simp add: ttl_inv_def SIZE_MAX_def)
  ultimately show "deadline hp idx a = Some v" using i by (simp add: deadline_def)
qed

text \<open>The deadlines after a change of the array that \<open>heap_update\<close> has completed.\<close>

lemma restored_inv:
  assumes "restored hp1 idx (hp', idx')" "length hp1 < 2 ^ 62"
    and "\<And>a i. idx a = Some i \<Longrightarrow> i \<noteq> SIZE_MAX \<Longrightarrow> a \<in> refs hp1"
  shows "ttl_inv hp' idx'"
proof -
  have r: "heap_ordered hp'" "linked idx' hp'" "mset hp' = mset hp1" "same_outside (refs hp1) idx idx'"
    using assms(1) by (simp_all add: restored_def)
  then have "refs hp' = refs hp1" "length hp' = length hp1" using refs_mset mset_eq_length by blast+
  moreover have "a \<in> refs hp1" if "idx' a = Some i" "i \<noteq> SIZE_MAX" for a i
    using that assms(3) same_outsideD [OF r(4), of a] by metis
  ultimately show ?thesis using r assms(2) by (auto simp: ttl_inv_def)
qed

lemma same_set_items:
  assumes "restored hp1 idx (hp', idx')"
  shows "set hp' = set hp1"
  using assms by (auto simp: restored_def dest: mset_eq_setD)

lemma linked_except_upd:
  assumes "linked idx hp" "pos < length hp" "ref x = ref (hp ! pos)"
  shows "linked_except pos idx (hp[pos := x])"
proof -
  have "map ref (hp[pos := x]) = map ref hp" using assms(2,3) by (metis list_update_id map_update)
  moreover have "has_slot idx (hp ! i)" if "i < length hp" for i
    using assms(1) that by (auto simp: linked_def linked_at_def has_slot_def)
  ultimately show ?thesis
    using assms by (auto simp: linked_except_def linked_def nth_list_update has_slot_def)
qed

lemma linked_except_snoc:
  assumes "linked idx hp" "a \<notin> refs hp" "idx a = Some i" "ref x = Some a"
  shows "linked_except (length hp) idx (hp @ [x])"
proof -
  have "has_slot idx (hp ! i)" if "i < length hp" for i
    using assms(1) that by (auto simp: linked_def linked_at_def has_slot_def)
  moreover have "Some a \<notin> ref ` set hp" using assms(2) by (simp add: refs_def)
  ultimately show ?thesis
    using assms by (auto simp: linked_except_def linked_def nth_append has_slot_def less_Suc_eq)
qed

lemma ordered_except_snoc: "heap_ordered hp \<Longrightarrow> ordered_except (length hp) (hp @ [x])"
  by (auto simp: heap_ordered_def ordered_except_def nth_append less_Suc_eq dest: par_bound)

lemma set_deadline:
  assumes inv: "ttl_inv hp idx" and a: "idx a = Some pos" and "pos \<noteq> SIZE_MAX" "pos < length hp" "sint ttl_ms \<ge> 0"
  obtains hp' idx' where "entry_set_ttl now_us hp idx (Some a) ttl_ms = ret (hp', idx')"
    "restored (hp[pos := \<lparr>val = now_us + ttl_ms * 1000, ref = Some a\<rparr>]) idx (hp', idx')"
proof -
  let ?x = "\<lparr>val = now_us + ttl_ms * 1000, ref = Some a\<rparr>" and ?h = "hp ! pos"
  have x: "?h\<lparr>val := now_us + ttl_ms * 1000\<rparr> = ?x"
    using ttl_inv_pos(2) [OF inv a assms(3)] by (simp add: HeapItem.equality)
  have "linked_except pos idx (hp[pos := ?x])" "ordered_except pos (hp[pos := ?x])"
    using inv assms(4) ttl_inv_pos(2) [OF inv a assms(3)]
    by (simp_all add: ttl_inv_def linked_except_upd heap_ordered_update)
  then obtain r where "heap_update (hp[pos := ?x]) idx pos (length hp) = ret r" "restored (hp[pos := ?x]) idx r"
    using heap_update_restores [of pos idx "hp[pos := ?x]"] assms(4) inv by (auto simp: ttl_inv_def)
  then show thesis
    using that [of "fst r" "snd r"] assms a x
    by (simp add: entry_set_ttl_def Let_def item_get_def item_set_def)
qed

lemma add_deadline:
  assumes inv: "ttl_inv hp idx" and a: "idx a = Some SIZE_MAX" and "sint ttl_ms \<ge> 0" "length hp + 1 < 2 ^ 62"
  obtains hp' idx' where "entry_set_ttl now_us hp idx (Some a) ttl_ms = ret (hp', idx')"
    "restored (hp @ [\<lparr>val = now_us + ttl_ms * 1000, ref = Some a\<rparr>]) idx (hp', idx')"
proof -
  let ?x = "\<lparr>val = now_us + ttl_ms * 1000, ref = Some a\<rparr>"
  have "linked_except (length hp) idx (hp @ [?x])" "ordered_except (length hp) (hp @ [?x])"
    using inv a ttl_inv_unset [OF inv a] by (simp_all add: ttl_inv_def linked_except_snoc ordered_except_snoc)
  then obtain r where "heap_update (hp @ [?x]) idx (length hp) (Suc (length hp)) = ret r" "restored (hp @ [?x]) idx r"
    using heap_update_restores [of "length hp" idx "hp @ [?x]"] assms(4) by auto
  then show thesis
    using that [of "fst r" "snd r"] assms(3) a
    by (simp add: entry_set_ttl_def Let_def item_get_def item_set_def)
qed

text \<open>Removing an item by moving the last one into its place.\<close>

definition without :: "nat \<Rightarrow> HeapItem list \<Rightarrow> HeapItem list" where
  "without pos hp = butlast (hp[pos := last hp])"

lemma without_mset:
  assumes "pos < length hp"
  shows "mset hp = add_mset (hp ! pos) (mset (without pos hp))"
proof -
  let ?l = "length hp - 1" and ?s = "swap hp pos (length hp - 1)"
  have "hp \<noteq> []" using assms by auto
  then have l: "?l < length hp" "last hp = hp ! ?l" by (simp_all add: last_conv_nth)
  then have ne: "?s \<noteq> []" using \<open>hp \<noteq> []\<close> by (metis length_0_conv length_swap)
  then have "last ?s = hp ! pos" using assms l(1) by (simp add: last_conv_nth)
  moreover have "butlast ?s = without pos hp"
    using l by (simp add: without_def swap_def butlast_list_update)
  ultimately have "mset ?s = add_mset (hp ! pos) (mset (without pos hp))"
    using append_butlast_last_id [OF ne] union_mset_add_mset_right [of "mset (butlast ?s)" "last ?s" "{#}"]
    by (metis add_0_right mset.simps mset_append)
  then show ?thesis using assms l(1) by simp
qed

lemma without_facts:
  assumes inv: "ttl_inv hp idx" and "idx a = Some pos" "pos \<noteq> SIZE_MAX"
  shows "a \<notin> refs (without pos hp)" "refs hp = insert a (refs (without pos hp))"
    "set (without pos hp) = {x \<in> set hp. ref x \<noteq> Some a}"
proof -
  let ?w = "without pos hp"
  note pos = ttl_inv_pos [OF assms]
  have m: "mset hp = add_mset (hp ! pos) (mset ?w)" using without_mset [OF pos(1)] .
  then have "mset (map ref hp) = mset (Some a # map ref ?w)" using pos(2) by simp
  moreover have "distinct (map ref hp)" using inv by (simp add: ttl_inv_def linked_def)
  ultimately have "distinct (Some a # map ref ?w)" using mset_eq_imp_distinct_iff by blast
  then have na: "Some a \<notin> ref ` set ?w" by simp
  have set: "set hp = insert (hp ! pos) (set ?w)" using arg_cong [OF m, of set_mset] by simp
  show "a \<notin> refs ?w" using na by (simp add: refs_def)
  show "refs hp = insert a (refs ?w)" using pos(2) unfolding refs_def set by auto
  show "set ?w = {x \<in> set hp. ref x \<noteq> Some a}" using na pos(2) unfolding set by force
qed

lemma without_linked:
  assumes inv: "ttl_inv hp idx" and "pos < length hp"
  shows "linked_except pos idx (without pos hp)" "ordered_except pos (without pos hp)"
    "pos = length hp - 1 \<Longrightarrow> restored (without pos hp) idx (without pos hp, idx)"
proof -
  let ?w = "without pos hp" and ?n = "length hp - 1"
  have lk: "linked idx hp" and ord: "heap_ordered hp" using inv by (simp_all add: ttl_inv_def)
  have w: "?w = (butlast hp)[pos := last hp]" "length ?w = ?n"
    using assms(2) by (auto simp: without_def butlast_list_update list_update_beyond)
  have "mset (map ref hp) = mset (ref (hp ! pos) # map ref ?w)" using without_mset [OF assms(2)] by simp
  moreover have "distinct (map ref hp)" using lk by (simp add: linked_def)
  ultimately have "distinct (ref (hp ! pos) # map ref ?w)" using mset_eq_imp_distinct_iff by blast
  then have d: "distinct (map ref ?w)" by simp
  have nth: "?w ! i = hp ! i" if "i < ?n" "i \<noteq> pos" for i
    using that w by (simp add: nth_butlast)
  have "has_slot idx x" if "x \<in> set hp" for x
    using lk that by (auto simp: linked_def linked_at_def has_slot_def in_set_conv_nth)
  moreover have "set ?w \<subseteq> set hp" using without_mset [OF assms(2)] by (metis set_mset_add_mset_insert set_mset_mset subset_insertI)
  ultimately have "has_slot idx (?w ! i)" if "i < ?n" for i using that w(2) by (metis nth_mem subsetD)
  then show "linked_except pos idx ?w"
    using lk d w(2) by (auto simp: linked_except_def linked_def nth)
  have ob: "heap_ordered (butlast hp)"
    using ord by (auto simp: heap_ordered_def nth_butlast)
  then show "ordered_except pos ?w"
    using heap_ordered_update [of "butlast hp" pos "last hp"] assms(2) w(1)
    by (cases "pos < ?n") (simp_all add: list_update_beyond heap_ordered_except)
  assume "pos = ?n"
  then have "?w = butlast hp" using w(1) by (simp add: list_update_beyond)
  then show "restored ?w idx (?w, idx)"
    using ob lk d w(2) \<open>pos = ?n\<close> by (auto simp: restored_def linked_def nth_butlast)
qed

lemma remove_deadline:
  assumes inv: "ttl_inv hp idx" and a: "idx a = Some pos" "pos \<noteq> SIZE_MAX" and "sint ttl_ms < 0"
  obtains hp' idx' where "entry_set_ttl now_us hp idx (Some a) ttl_ms = ret (hp', idx'(a \<mapsto> SIZE_MAX))"
    "restored (without pos hp) idx (hp', idx')"
proof -
  let ?w = "without pos hp"
  note pos = ttl_inv_pos [OF inv a]
  have len: "length ?w = length hp - 1" by (simp add: without_def)
  then have small: "length ?w < 2 ^ 62" using inv unfolding ttl_inv_def by linarith
  obtain r where r: "restored ?w idx r"
    "(if pos < length ?w then heap_update ?w idx pos (length ?w) else ret (?w, idx)) = ret r"
  proof (cases "pos < length ?w")
    case True
    obtain r where "heap_update ?w idx pos (length ?w) = ret r" "restored ?w idx r"
      using heap_update_restores [OF without_linked(1,2) [OF inv pos(1)] True small] by auto
    then show thesis using True that by simp
  next
    case False
    then have "pos = length hp - 1" using pos(1) len by simp
    then show thesis using without_linked(3) [OF inv pos(1)] False that by simp
  qed
  have "same_outside (refs ?w) idx (snd r)" using r(1) by (simp add: restored_def)
  then obtain j where "snd r a = Some j" using a(1) same_outside_alloc by metis
  moreover have "hp \<noteq> []" using pos(1) by auto
  moreover have "butlast (hp[pos := last hp]) = ?w" by (simp add: without_def)
  ultimately have "entry_set_ttl now_us hp idx (Some a) ttl_ms = ret (fst r, (snd r)(a \<mapsto> SIZE_MAX))"
    using r(2) assms pos(1)
    by (cases "pos < length ?w") (auto simp: entry_set_ttl_def item_set_def Let_def case_prod_beta simp del: length_butlast)
  then show thesis using that r(1) by simp
qed

subsection \<open>The contract of \<open>entry_set_ttl\<close>\<close>

lemma deadline_eqI:
  assumes "ttl_inv hp idx" and "\<And>b v. \<lparr>val = v, ref = Some b\<rparr> \<in> set hp \<longleftrightarrow> d b = Some v"
  shows "deadline hp idx = d"
proof
  fix b
  show "deadline hp idx b = d b"
    using deadline_iff [OF assms(1), of b] assms(2) [of _ b]
    by (cases "d b") (simp_all, metis not_Some_eq)
qed

definition deadline_set ::
  "HeapItem list \<Rightarrow> nat store \<Rightarrow> addr \<Rightarrow> u64 option \<Rightarrow> HeapItem list \<times> nat store \<Rightarrow> bool" where
  "deadline_set hp idx a d r \<longleftrightarrow> ttl_inv (fst r) (snd r) \<and> dom (snd r) = dom idx \<and>
     deadline (fst r) (snd r) = (deadline hp idx)(a := d)"

lemma restored_set:
  assumes inv: "ttl_inv hp idx" and r: "restored hp1 idx (hp', idx')" and small: "length hp1 < 2 ^ 62"
    and items: "\<And>b v. \<lparr>val = v, ref = Some b\<rparr> \<in> set hp1 \<longleftrightarrow>
      (if b = a then v = d else \<lparr>val = v, ref = Some b\<rparr> \<in> set hp)"
    and refs: "refs hp \<subseteq> refs hp1"
  shows "deadline_set hp idx a (Some d) (hp', idx')"
proof -
  have "b \<in> refs hp1" if "idx b = Some i" "i \<noteq> SIZE_MAX" for b i
    using inv that refs by (auto simp: ttl_inv_def)
  from restored_inv [OF r small this] have inv': "ttl_inv hp' idx'" .
  have "same_outside (refs hp1) idx idx'" using r by (simp add: restored_def)
  then have "dom idx' = dom idx" by (rule same_outside_dom)
  moreover have "deadline hp' idx' = (deadline hp idx)(a := Some d)"
    using same_set_items [OF r] items deadline_iff [OF inv]
    by (intro deadline_eqI [OF inv']) auto
  ultimately show ?thesis using inv' by (simp add: deadline_set_def)
qed

lemma restored_removed:
  assumes inv: "ttl_inv hp idx" and a: "idx a = Some pos" "pos \<noteq> SIZE_MAX"
    and r: "restored (without pos hp) idx (hp', idx')"
  shows "deadline_set hp idx a None (hp', idx'(a \<mapsto> SIZE_MAX))"
proof -
  let ?w = "without pos hp" and ?i = "idx'(a \<mapsto> SIZE_MAX)"
  note w = without_facts [OF inv a]
  have res: "linked idx' hp'" "same_outside (refs ?w) idx idx'" using r by (simp_all add: restored_def)
  have "refs hp' = refs ?w" using r by (intro refs_mset) (simp add: restored_def)
  then have "a \<notin> refs hp'" using w(1) by simp
  then have "linked ?i hp'" using res(1) by (auto simp: linked_def linked_at_upd refs_iff)
  moreover have "same_outside (refs ?w) (idx(a \<mapsto> SIZE_MAX)) ?i" using res(2) by (simp add: same_outside_def)
  ultimately have r': "restored ?w (idx(a \<mapsto> SIZE_MAX)) (hp', ?i)" using r by (simp add: restored_def)
  have "b \<in> refs ?w" if "(idx(a \<mapsto> SIZE_MAX)) b = Some i" "i \<noteq> SIZE_MAX" for b i
    using inv that w(2) by (auto simp: ttl_inv_def split: if_splits)
  moreover have "length ?w \<le> length hp" by (simp add: without_def)
  then have "length ?w < 2 ^ 62" using inv unfolding ttl_inv_def by linarith
  ultimately have inv': "ttl_inv hp' ?i" using restored_inv [OF r'] by blast
  have "dom ?i = dom idx" using same_outside_dom [OF res(2)] a(1) by auto
  moreover have "deadline hp' ?i = (deadline hp idx)(a := None)"
    using same_set_items [OF r] w(3) deadline_iff [OF inv]
    by (intro deadline_eqI [OF inv']) auto
  ultimately show ?thesis using inv' by (simp add: deadline_set_def)
qed

lemma update_items:
  assumes inv: "ttl_inv hp idx" and a: "idx a = Some pos" "pos \<noteq> SIZE_MAX"
  shows "set (hp[pos := x]) = insert x {y \<in> set hp. ref y \<noteq> Some a}"
proof -
  note at = ttl_inv_pos [OF inv a] and w = without_facts [OF inv a]
  have "distinct hp" using inv by (simp add: ttl_inv_def linked_def distinct_map)
  then have "set (hp[pos := x]) = insert x (set hp - {hp ! pos})" using at(1) by (rule set_update_distinct)
  moreover have "set hp - {hp ! pos} = {y \<in> set hp. ref y \<noteq> Some a}"
    using w(3) at(2) arg_cong [OF without_mset [OF at(1)], of set_mset] by auto
  ultimately show ?thesis by simp
qed

lemma entry_set_ttl_refines:
  assumes inv: "ttl_inv hp idx" and a: "idx a = Some pos" and room: "length hp + 1 < 2 ^ 62"
  shows "\<exists>r. entry_set_ttl now_us hp idx (Some a) ttl_ms = ret r \<and>
    deadline_set hp idx a (if sint ttl_ms < 0 then None else Some (now_us + ttl_ms * 1000)) r"
proof (cases "pos = SIZE_MAX"; cases "sint ttl_ms < 0")
  assume unset: "pos = SIZE_MAX" and "sint ttl_ms < 0"
  moreover have "deadline hp idx a = None" using a unset by (simp add: deadline_def)
  then have "(deadline hp idx)(a := None) = deadline hp idx" by (simp add: fun_upd_idem)
  ultimately show ?thesis using inv a by (simp add: entry_set_ttl_def deadline_set_def)
next
  assume unset: "pos = SIZE_MAX" and pos: "\<not> sint ttl_ms < 0"
  let ?x = "\<lparr>val = now_us + ttl_ms * 1000, ref = Some a\<rparr>"
  obtain hp' idx' where r: "entry_set_ttl now_us hp idx (Some a) ttl_ms = ret (hp', idx')"
    "restored (hp @ [?x]) idx (hp', idx')"
    using add_deadline [OF inv, of a ttl_ms now_us] a unset pos room by auto
  have na: "a \<notin> refs hp" using ttl_inv_unset inv a unset by blast
  have "deadline_set hp idx a (Some (now_us + ttl_ms * 1000)) (hp', idx')"
  proof (rule restored_set [OF inv r(2)])
    show "\<lparr>val = v, ref = Some b\<rparr> \<in> set (hp @ [?x]) \<longleftrightarrow>
        (if b = a then v = now_us + ttl_ms * 1000 else \<lparr>val = v, ref = Some b\<rparr> \<in> set hp)" for b v
      using na by (force simp: refs_def)
  qed (use room in \<open>auto simp: refs_def\<close>)
  then show ?thesis using r(1) pos by simp
next
  assume set: "pos \<noteq> SIZE_MAX" and neg: "sint ttl_ms < 0"
  obtain hp' idx' where "entry_set_ttl now_us hp idx (Some a) ttl_ms = ret (hp', idx'(a \<mapsto> SIZE_MAX))"
    "restored (without pos hp) idx (hp', idx')"
    using remove_deadline [OF inv a set neg, where now_us = now_us] .
  then show ?thesis using restored_removed [OF inv a set] neg by simp
next
  assume set: "pos \<noteq> SIZE_MAX" and pos: "\<not> sint ttl_ms < 0"
  let ?x = "\<lparr>val = now_us + ttl_ms * 1000, ref = Some a\<rparr>"
  note at = ttl_inv_pos [OF inv a set]
  obtain hp' idx' where r: "entry_set_ttl now_us hp idx (Some a) ttl_ms = ret (hp', idx')"
    "restored (hp[pos := ?x]) idx (hp', idx')"
    using set_deadline [OF inv a set at(1), of ttl_ms now_us] pos by auto
  note items = update_items [OF inv a set, of ?x]
  have "deadline_set hp idx a (Some (now_us + ttl_ms * 1000)) (hp', idx')"
  proof (rule restored_set [OF inv r(2)])
    show "refs hp \<subseteq> refs (hp[pos := ?x])" unfolding refs_def items by force
  qed (use inv items in \<open>auto simp: ttl_inv_def\<close>)
  then show ?thesis using r(1) pos by simp
qed

text \<open>The first item of the array is the earliest deadline, which is what \<open>next_timer_ms\<close> looks at.\<close>

lemma heap_root_least:
  assumes "heap_ordered hp" "i < length hp"
  shows "val (hp ! 0) \<le> val (hp ! i)"
  using assms(2)
proof (induction i rule: less_induct)
  case (less i)
  show ?case
  proof (cases "i = 0")
    case False
    then have "val (hp ! 0) \<le> val (hp ! par i)" using less by simp
    also have "\<dots> \<le> val (hp ! i)" using False less.prems assms(1) by (simp add: heap_ordered_def)
    finally show ?thesis .
  qed simp
qed

lemma earliest_deadline:
  assumes inv: "ttl_inv hp idx" and "hp \<noteq> []"
  shows "\<exists>a. deadline hp idx a = Some (val (hp ! 0))"
    and "deadline hp idx b = Some v \<Longrightarrow> val (hp ! 0) \<le> v"
proof -
  have "0 < length hp" "linked_at idx (hp ! 0) 0"
    using inv assms(2) by (simp_all add: ttl_inv_def linked_def)
  then obtain a where "ref (hp ! 0) = Some a" "hp ! 0 \<in> set hp" by (auto simp: linked_at_def)
  then have "\<lparr>val = val (hp ! 0), ref = Some a\<rparr> \<in> set hp" by (metis HeapItem.surjective old.unit.exhaust)
  then show "\<exists>a. deadline hp idx a = Some (val (hp ! 0))" using deadline_iff [OF inv] by blast
  assume "deadline hp idx b = Some v"
  then obtain i where "i < length hp" "v = val (hp ! i)"
    using deadline_iff [OF inv] by (metis HeapItem.select_convs(1) in_set_conv_nth)
  then show "val (hp ! 0) \<le> v" using heap_root_least inv by (simp add: ttl_inv_def)
qed

end
