(* ===== verification/Numbers.thy ===== *)
theory Numbers
  imports Zset
begin

unbundle bit_operations_syntax

text \<open>
  Conversion of command arguments to numbers: \<open>str2int\<close> and \<open>str2double\<close> of \<open>server.cpp\<close>, with the C
  library functions \<open>strtoll\<close> (base 10) and \<open>strtod\<close> they call. Both library functions return the
  value and the number of characters consumed, which is how the code uses \<open>endp\<close>; the end of the
  list is the terminating NUL.
\<close>

section \<open>Characters\<close>

definition is_space :: "u8 \<Rightarrow> bool" where
  "is_space c \<longleftrightarrow> c = 32 \<or> 9 \<le> c \<and> c \<le> 13"

definition is_digit :: "u8 \<Rightarrow> bool" where
  "is_digit c \<longleftrightarrow> 48 \<le> c \<and> c \<le> 57"

definition digit_val :: "u8 \<Rightarrow> nat" where
  "digit_val c = unat c - 48"

definition hex_val :: "u8 \<Rightarrow> nat option" where
  "hex_val c = (let l = tolower c in
     if is_digit c then Some (unat c - 48) else if 97 \<le> l \<and> l \<le> 102 then Some (unat l - 87) else None)"

definition skip_space :: "bytes \<Rightarrow> bytes" where
  "skip_space s = dropWhile is_space s"

definition take_sign :: "bytes \<Rightarrow> bool \<times> bytes" where
  "take_sign s = (case s of [] \<Rightarrow> (False, s) | c # cs \<Rightarrow> if c = 45 then (True, cs) else if c = 43 then (False, cs) else (False, s))"

definition digits_val :: "bytes \<Rightarrow> nat" where
  "digits_val ds = foldl (\<lambda>n c. 10 * n + digit_val c) 0 ds"

section \<open>\<open>strtoll\<close>\<close>

definition LLONG_MAX :: int where "LLONG_MAX = 2 ^ 63 - 1"
definition LLONG_MIN :: int where "LLONG_MIN = - (2 ^ 63)"

definition strtoll :: "bytes \<Rightarrow> int \<times> nat" where
  "strtoll s =
     (case take_sign (skip_space s) of (neg, r) \<Rightarrow>
      let ds = takeWhile is_digit r; n = int (digits_val ds) in
      if ds = [] then (0, 0)
      else (if neg then max LLONG_MIN (- n) else min LLONG_MAX n, length s - length r + length ds))"

definition str2int :: "bytes \<Rightarrow> bool \<times> int" where
  "str2int s = (case strtoll s of (out, used) \<Rightarrow> (used = length s, out))"

section \<open>\<open>strtod\<close>\<close>

text \<open>
  The nearest double to the positive rational \<open>n / d\<close>, ties to even. With \<open>e\<close> the binary exponent,
  at least \<open>-1022\<close>, the significand is \<open>q = round (n / d * 2 ^ (52 - e))\<close>, and
  \<open>(e + 1022) * 2 ^ 52 + q\<close> is the bit pattern, the hidden bit and a carry out of \<open>q\<close> included.
\<close>

fun bit_len :: "nat \<Rightarrow> nat" where
  "bit_len n = (if n = 0 then 0 else Suc (bit_len (n div 2)))"

declare bit_len.simps [simp del]

definition div_even :: "nat \<Rightarrow> nat \<Rightarrow> nat" where
  "div_even n d = (let q = n div d; r = n mod d in
     if 2 * r < d \<or> 2 * r = d \<and> even q then q else q + 1)"

definition scale2 :: "nat \<times> nat \<Rightarrow> int \<Rightarrow> nat \<times> nat" where
  "scale2 x k = (if 0 \<le> k then (fst x * 2 ^ nat k, snd x) else (fst x, snd x * 2 ^ nat (- k)))"

definition bin_exp :: "nat \<Rightarrow> nat \<Rightarrow> int" where
  "bin_exp n d = (let e = int (bit_len n) - int (bit_len d); x = scale2 (n, d) (- e) in
     if snd x \<le> fst x then e else e - 1)"

definition dbl_inf :: u64 where
  "dbl_inf = 0x7FF0000000000000"

definition round_dbl :: "nat \<Rightarrow> nat \<Rightarrow> u64" where
  "round_dbl n d =
     (if n = 0 then 0
      else let e = max (bin_exp n d) (-1022); x = scale2 (n, d) (52 - e);
               w = nat (e + 1022) * 2 ^ 52 + div_even (fst x) (snd x) in
        if w \<ge> unat dbl_inf then dbl_inf else of_nat w)"

definition with_sign :: "bool \<Rightarrow> u64 \<Rightarrow> u64" where
  "with_sign neg d = (if neg then d OR 0x8000000000000000 else d)"

text \<open>Case-insensitive literal prefix, and the optional exponent of a number.\<close>

definition has_prefix :: "string \<Rightarrow> bytes \<Rightarrow> bool" where
  "has_prefix p s \<longleftrightarrow> map tolower (take (length p) s) = lit p"

definition take_exp :: "u8 \<Rightarrow> bytes \<Rightarrow> int \<times> nat" where
  "take_exp marker s =
     (case s of [] \<Rightarrow> (0, 0)
      | c # cs \<Rightarrow>
          if tolower c = marker then
            (case take_sign cs of (neg, r) \<Rightarrow>
             let ds = takeWhile is_digit r; n = int (digits_val ds) in
             if ds = [] then (0, 0) else (if neg then - n else n, 1 + (length cs - length r) + length ds))
          else (0, 0))"

text \<open>Mantissa digits with an optional point: value of the digits, number of fraction digits, length.\<close>

definition take_mantissa :: "(u8 \<Rightarrow> nat option) \<Rightarrow> nat \<Rightarrow> bytes \<Rightarrow> (nat \<times> nat \<times> nat) option" where
  "take_mantissa dv b s =
     (let is = takeWhile (\<lambda>c. dv c \<noteq> None) s; r = drop (length is) s;
          fs = (case r of [] \<Rightarrow> [] | c # cs \<Rightarrow> if c = 46 then takeWhile (\<lambda>c. dv c \<noteq> None) cs else []);
          point = (if r \<noteq> [] \<and> hd r = 46 then 1 else 0);
          m = foldl (\<lambda>n c. b * n + the (dv c)) 0 (is @ fs) in
      if is @ fs = [] then None else Some (m, length fs, length is + point + length fs))"

definition dec_val :: "u8 \<Rightarrow> nat option" where
  "dec_val c = (if is_digit c then Some (digit_val c) else None)"

definition dec_number :: "bytes \<Rightarrow> (u64 \<times> nat) option" where
  "dec_number s =
     (case take_mantissa dec_val 10 s of None \<Rightarrow> None
      | Some (m, f, k) \<Rightarrow>
          (case take_exp 101 (drop k s) of (e, j) \<Rightarrow>
           let x = e - int f in
           Some (if 0 \<le> x then round_dbl (m * 10 ^ nat x) 1 else round_dbl m (10 ^ nat (- x)), k + j)))"

definition hex_number :: "bytes \<Rightarrow> (u64 \<times> nat) option" where
  "hex_number s =
     (if \<not> has_prefix ''0x'' s then None
      else case take_mantissa hex_val 16 (drop 2 s) of None \<Rightarrow> None
      | Some (m, f, k) \<Rightarrow>
          (case take_exp 112 (drop (2 + k) s) of (e, j) \<Rightarrow>
           let x = e - 4 * int f in
           Some (if 0 \<le> x then round_dbl (m * 2 ^ nat x) 1 else round_dbl m (2 ^ nat (- x)), 2 + k + j)))"

definition is_nan_char :: "u8 \<Rightarrow> bool" where
  "is_nan_char c \<longleftrightarrow> is_digit c \<or> c = 95 \<or> 97 \<le> tolower c \<and> tolower c \<le> 122"

definition special_number :: "bytes \<Rightarrow> (u64 \<times> nat) option" where
  "special_number s =
     (if has_prefix ''infinity'' s then Some (dbl_inf, 8)
      else if has_prefix ''inf'' s then Some (dbl_inf, 3)
      else if has_prefix ''nan'' s then
        (let r = drop 3 s; cs = takeWhile is_nan_char (tl r) in
         Some (0x7FF8000000000000,
           if r \<noteq> [] \<and> hd r = 40 \<and> take 1 (drop (length cs) (tl r)) = [41] then 5 + length cs else 3))
      else None)"

definition strtod :: "bytes \<Rightarrow> u64 \<times> nat" where
  "strtod s =
     (case take_sign (skip_space s) of (neg, r) \<Rightarrow>
      let used = length s - length r in
      case special_number r of Some (d, k) \<Rightarrow> (with_sign neg d, used + k)
      | None \<Rightarrow>
        (case hex_number r of Some (d, k) \<Rightarrow> (with_sign neg d, used + k)
         | None \<Rightarrow>
           (case dec_number r of Some (d, k) \<Rightarrow> (with_sign neg d, used + k)
            | None \<Rightarrow> (0, 0))))"

definition str2double :: "bytes \<Rightarrow> bool \<times> u64" where
  "str2double s = (case strtod s of (out, used) \<Rightarrow> (used = length s \<and> \<not> dbl_nan out, out))"

section \<open>Properties\<close>

lemma str2double_not_nan: "str2double s = (True, d) \<Longrightarrow> \<not> dbl_nan d"
  by (auto simp: str2double_def split: prod.splits)

lemma strtoll_range: "LLONG_MIN \<le> fst (strtoll s) \<and> fst (strtoll s) \<le> LLONG_MAX"
  by (auto simp: strtoll_def Let_def LLONG_MIN_def LLONG_MAX_def split: prod.split)

text \<open>The usual decimal notation of an integer.\<close>

fun dec_digits :: "nat \<Rightarrow> bytes" where
  "dec_digits n = (if n < 10 then [of_nat (48 + n)] else dec_digits (n div 10) @ [of_nat (48 + n mod 10)])"

declare dec_digits.simps [simp del]

definition dec_int :: "int \<Rightarrow> bytes" where
  "dec_int i = (if i < 0 then 45 # dec_digits (nat (- i)) else dec_digits (nat i))"

lemma unat_digit: "k < 10 \<Longrightarrow> unat (of_nat (48 + k) :: u8) = 48 + k"
  by (simp add: unat_of_nat take_bit_nat_eq_self del: of_nat_add)

lemma digit_char:
  assumes "k < 10"
  shows "is_digit (of_nat (48 + k))" "digit_val (of_nat (48 + k)) = k" "(of_nat (48 + k) :: u8) \<notin> {45, 43, 32}"
    "\<not> is_space (of_nat (48 + k))"
proof -
  note u = unat_digit [OF assms]
  show "is_digit (of_nat (48 + k))" using assms u by (simp add: is_digit_def word_le_nat_alt del: of_nat_add)
  show "digit_val (of_nat (48 + k)) = k" using u by (simp add: digit_val_def del: of_nat_add)
  have ne: "(of_nat (48 + k) :: u8) \<noteq> w" if "unat w < 48" for w using u that by (metis not_add_less1)
  then show "(of_nat (48 + k) :: u8) \<notin> {45, 43, 32}" by simp
  show "\<not> is_space (of_nat (48 + k))"
    using ne [of 32] u by (simp add: is_space_def word_le_nat_alt del: of_nat_add)
qed

lemma dec_digits_all: "c \<in> set (dec_digits n) \<Longrightarrow> \<exists>k < 10. c = of_nat (48 + k)"
proof (induction n rule: dec_digits.induct)
  case (1 n)
  show ?case
  proof (cases "n < 10")
    case True
    then show ?thesis using 1(2) by (auto simp: dec_digits.simps [of n])
  next
    case False
    then consider "c \<in> set (dec_digits (n div 10))" | "c = of_nat (48 + n mod 10)"
      using 1(2) by (auto simp: dec_digits.simps [of n])
    then show ?thesis using 1(1) [OF False] by cases (auto intro: exI [of _ "n mod 10"])
  qed
qed

lemma dec_digits_nonempty: "dec_digits n \<noteq> []"
  by (subst dec_digits.simps) simp

lemma dec_digits_val: "digits_val (dec_digits n) = n"
proof (induction n rule: dec_digits.induct)
  case (1 n)
  show ?case
  proof (cases "n < 10")
    case True
    then show ?thesis using digit_char(2) [of n] by (subst dec_digits.simps) (simp add: digits_val_def del: of_nat_add)
  next
    case False
    then show ?thesis
      using 1 [OF False] digit_char(2) [of "n mod 10"]
      by (subst dec_digits.simps) (simp add: digits_val_def del: of_nat_add)
  qed
qed

lemma takeWhile_digits: "takeWhile is_digit (dec_digits n) = dec_digits n"
  unfolding takeWhile_eq_all_conv using dec_digits_all digit_char(1) by metis

lemma digits_first:
  "skip_space (dec_digits n) = dec_digits n" "take_sign (dec_digits n) = (False, dec_digits n)"
proof -
  obtain c cs where c: "dec_digits n = c # cs" using dec_digits_nonempty by (cases "dec_digits n") auto
  then obtain k where "k < 10" "c = of_nat (48 + k)" using dec_digits_all [of c n] by auto
  then have "c \<notin> {45, 43, 32}" "\<not> is_space c" using digit_char by metis+
  then show "skip_space (dec_digits n) = dec_digits n" "take_sign (dec_digits n) = (False, dec_digits n)"
    using c by (simp_all add: skip_space_def take_sign_def)
qed

lemma str2int_dec_int:
  assumes "LLONG_MIN \<le> i" "i \<le> LLONG_MAX"
  shows "str2int (dec_int i) = (True, i)"
proof (cases "i < 0")
  case True
  have "\<not> is_space 45" by (simp add: is_space_def)
  then have "take_sign (skip_space (45 # dec_digits (nat (- i)))) = (True, dec_digits (nat (- i)))"
    by (simp add: skip_space_def take_sign_def)
  then show ?thesis using True assms
    by (simp add: dec_int_def str2int_def strtoll_def Let_def takeWhile_digits dec_digits_nonempty dec_digits_val)
next
  case False
  then show ?thesis using assms
    by (simp add: dec_int_def str2int_def strtoll_def Let_def digits_first takeWhile_digits dec_digits_nonempty dec_digits_val)
qed

text \<open>What \<open>str2int\<close> accepts: optional white space, an optional sign and at least one digit; or nothing at all.\<close>

definition int_literal :: "bytes \<Rightarrow> bool" where
  "int_literal s \<longleftrightarrow> (\<exists>ws sg ds. s = ws @ sg @ ds \<and> list_all is_space ws \<and> sg \<in> {[], [43], [45]} \<and> ds \<noteq> [] \<and> list_all is_digit ds)"

lemma not_space: "\<not> is_space 43" "\<not> is_space 45" "is_digit c \<Longrightarrow> \<not> is_space c" "is_digit c \<Longrightarrow> c \<noteq> 43 \<and> c \<noteq> 45"
  by (auto simp: is_space_def is_digit_def word_le_nat_alt)

lemma take_sign_append: "take_sign s = (neg, r) \<Longrightarrow> \<exists>sg \<in> {[], [43], [45]}. s = sg @ r"
  by (auto simp: take_sign_def split: list.splits if_splits)

lemma literal_parts:
  assumes "list_all is_space ws" "sg \<in> {[], [43], [45]}" "ds \<noteq> []" "list_all is_digit ds"
  shows "take_sign (skip_space (ws @ sg @ ds)) = (sg = [45], ds)"
proof -
  obtain d ds' where d: "ds = d # ds'" "is_digit d" using assms(3,4) by (cases ds) auto
  have "skip_space (ws @ sg @ ds) = skip_space (sg @ ds)"
    using assms(1) by (simp add: skip_space_def dropWhile_append2 list_all_iff)
  also have "\<dots> = sg @ ds" using assms(2) d not_space by (auto simp: skip_space_def)
  finally show ?thesis using assms(2) d not_space(4) by (auto simp: take_sign_def)
qed

lemma str2int_accepts: "fst (str2int s) \<longleftrightarrow> s = [] \<or> int_literal s"
proof
  assume acc: "fst (str2int s)"
  obtain neg r where r: "take_sign (skip_space s) = (neg, r)" by (cases "take_sign (skip_space s)")
  obtain sg where sg: "sg \<in> {[], [43], [45]}" "skip_space s = sg @ r" using take_sign_append [OF r] by blast
  have s: "s = takeWhile is_space s @ sg @ r" using sg(2) by (metis skip_space_def takeWhile_dropWhile_id)
  have len: "length s = length (takeWhile is_space s) + length sg + length r" using arg_cong [OF s, of length] by simp
  show "s = [] \<or> int_literal s"
  proof (cases "takeWhile is_digit r = []")
    case True
    then show ?thesis using acc r by (simp add: str2int_def strtoll_def)
  next
    case False
    then have "length (takeWhile is_digit r) = length r" using acc r len by (simp add: str2int_def strtoll_def Let_def)
    then have "list_all is_digit r" by (metis list_all_iff takeWhile_eq_all_conv takeWhile_eq_take take_all_iff order_refl)
    moreover have "list_all is_space (takeWhile is_space s)" by (auto simp: list_all_iff dest: set_takeWhileD)
    moreover have "r \<noteq> []" using False by auto
    ultimately show ?thesis using s sg(1) unfolding int_literal_def by blast
  qed
next
  assume "s = [] \<or> int_literal s"
  then show "fst (str2int s)"
  proof
    assume "int_literal s"
    then obtain ws sg ds where p: "s = ws @ sg @ ds" "list_all is_space ws" "sg \<in> {[], [43], [45]}" "ds \<noteq> []" "list_all is_digit ds"
      unfolding int_literal_def by blast
    have tw: "takeWhile is_digit ds = ds" using p(5) by (simp add: list_all_iff)
    show ?thesis using literal_parts [OF p(2-5)] p(1,4) by (simp add: str2int_def strtoll_def Let_def tw)
  qed (simp add: str2int_def strtoll_def skip_space_def take_sign_def)
qed
end
