(* ===== verification/Keyspace.thy ===== *)
theory Keyspace
  imports Zset Ttl_Heap Numbers
begin

text \<open>
  The key space of \<open>server.cpp\<close> and the command handlers on it. The global \<open>g_data\<close>, as far as commands
  use it, is the record \<open>server\<close>: the hash map of entries, the timer heap, the tasks handed to the
  thread pool, and the memory of the objects: entries, their intrusive hash nodes, their \<open>heap_idx\<close>
  fields, and the nodes of sorted sets. An entry owns its \<open>ZSet\<close>, which no other pointer reaches, so
  the set is stored in the entry, with \<open>None\<close> for \<open>nullptr\<close>. \<open>new\<close> returns the address it is given.

  A handler takes the argument vector and the output string and returns the new state and output.
  The keys and values that handlers \<open>swap\<close> out of the argument vector are not read again by them.
\<close>

section \<open>State\<close>

definition T_STR :: u32 where "T_STR = 0"
definition T_ZSET :: u32 where "T_ZSET = 1"

record Entry =
  ent_key :: bytes
  ent_val :: bytes
  ent_type :: u32
  ent_zset :: "ZSet option"

definition Entry_default :: Entry where
  "Entry_default = \<lparr>ent_key = [], ent_val = [], ent_type = 0, ent_zset = None\<rparr>"

record server =
  db :: HMap
  heap :: "HeapItem list"
  tasks :: "addr list"
  entries :: "Entry store"
  enodes :: hstore
  heap_idx :: "nat store"
  zheap :: zmem

text \<open>The zero-initialised static object, before anything is allocated.\<close>

definition server_init :: server where
  "server_init = \<lparr>db = HMap_default, heap = [], tasks = [], entries = Map.empty, enodes = Map.empty,
     heap_idx = Map.empty, zheap = \<lparr>tnodes = Map.empty, hnodes = Map.empty, znodes = Map.empty\<rparr>\<rparr>"

text \<open>\<open>new Entry()\<close> at address \<open>a\<close>, with the fields the callers assign at once.\<close>

definition entry_new :: "server \<Rightarrow> addr \<Rightarrow> Entry \<Rightarrow> u64 \<Rightarrow> server" where
  "entry_new s a e code = s\<lparr>entries := (entries s)(a \<mapsto> e),
     enodes := (enodes s)(a \<mapsto> \<lparr>hnext = None, hcode = code\<rparr>),
     heap_idx := (heap_idx s)(a \<mapsto> SIZE_MAX)\<rparr>"

text \<open>\<open>cmd[i]\<close>\<close>

definition arg :: "bytes list \<Rightarrow> nat \<Rightarrow> bytes exec" where
  "arg cmd i = (if i < length cmd then ret (cmd ! i) else fault OutOfBounds)"

section \<open>Deleting entries\<close>

definition entry_destroy :: "server \<Rightarrow> addr \<Rightarrow> server exec" where
  "entry_destroy s ent =
     bindE (rd (entries s) (Some ent)) (\<lambda>e.
     bindE (if ent_type e = T_ZSET then
              (case ent_zset e of None \<Rightarrow> fault NullDeref
               | Some zset \<Rightarrow> bindE (zset_dispose (zheap s) zset) (\<lambda>(m, _). ret (s\<lparr>zheap := m\<rparr>)))
            else ret s) (\<lambda>s.
     ret (s\<lparr>entries := (entries s)(ent := None), enodes := (enodes s)(ent := None),
            heap_idx := (heap_idx s)(ent := None)\<rparr>)))"

definition entry_del_async :: "server \<Rightarrow> addr \<Rightarrow> server exec" where
  "entry_del_async s ent = entry_destroy s ent"

definition K_LARGE_CONTAINER_SIZE :: u64 where "K_LARGE_CONTAINER_SIZE = 10000"

text \<open>A negative time to live reads no clock, so the clock argument of \<open>entry_set_ttl\<close> does not matter.\<close>

definition entry_del :: "server \<Rightarrow> addr \<Rightarrow> server exec" where
  "entry_del s ent =
     bindE (entry_set_ttl 0 (heap s) (heap_idx s) (Some ent) (-1)) (\<lambda>(hp, ix).
     let s = s\<lparr>heap := hp, heap_idx := ix\<rparr> in
     bindE (rd (entries s) (Some ent)) (\<lambda>e.
     bindE (if ent_type e = T_ZSET then
              (case ent_zset e of None \<Rightarrow> fault NullDeref
               | Some zset \<Rightarrow> ret (hm_size (hmap zset) > K_LARGE_CONTAINER_SIZE))
            else ret False) (\<lambda>too_big.
     if too_big then ret (s\<lparr>tasks := tasks s @ [ent]\<rparr>) else entry_destroy s ent)))"

section \<open>Looking up keys\<close>

definition entry_eq :: "server \<Rightarrow> u64 \<Rightarrow> bytes \<Rightarrow> addr \<Rightarrow> bool exec" where
  "entry_eq s key_hcode key node =
     bindE (rd (enodes s) (Some node)) (\<lambda>n.
     if hcode n \<noteq> key_hcode then ret False
     else bindE (rd (entries s) (Some node)) (\<lambda>le. ret (ent_key le = key)))"

definition db_lookup :: "server \<Rightarrow> bytes \<Rightarrow> (server \<times> ptr) exec" where
  "db_lookup s key = (let code = str_hash key in
     bindE (hm_lookup (enodes s) (db s) code (entry_eq s code key)) (\<lambda>(hs, hm, node).
     ret (s\<lparr>db := hm, enodes := hs\<rparr>, node)))"

definition db_pop :: "server \<Rightarrow> bytes \<Rightarrow> (server \<times> ptr) exec" where
  "db_pop s key = (let code = str_hash key in
     bindE (hm_pop (enodes s) (db s) code (entry_eq s code key)) (\<lambda>(hs, hm, node).
     ret (s\<lparr>db := hm, enodes := hs\<rparr>, node)))"

definition db_insert :: "server \<Rightarrow> addr \<Rightarrow> server exec" where
  "db_insert s a = bindE (hm_insert (enodes s) (db s) (Some a)) (\<lambda>(hs, hm). ret (s\<lparr>db := hm, enodes := hs\<rparr>))"

section \<open>Commands on strings\<close>

definition do_get :: "server \<Rightarrow> bytes list \<Rightarrow> bytes \<Rightarrow> (server \<times> bytes) exec" where
  "do_get s cmd out =
     bindE (arg cmd 1) (\<lambda>key.
     bindE (db_lookup s key) (\<lambda>(s, node).
     if node = None then ret (s, out_nil out)
     else
       bindE (rd (entries s) node) (\<lambda>e.
       bindE (assertE (length (ent_val e) \<le> K_MAX_MSG)) (\<lambda>_.
       ret (s, out_str out (ent_val e))))))"

definition do_set :: "addr \<Rightarrow> server \<Rightarrow> bytes list \<Rightarrow> bytes \<Rightarrow> (server \<times> bytes) exec" where
  "do_set fresh s cmd out =
     bindE (arg cmd 1) (\<lambda>key.
     bindE (db_lookup s key) (\<lambda>(s, node).
     bindE (arg cmd 2) (\<lambda>v.
     bindE (if node \<noteq> None then
              bindE (wr (entries s) node (\<lambda>e. e\<lparr>ent_val := v\<rparr>)) (\<lambda>es. ret (s\<lparr>entries := es\<rparr>))
            else
              db_insert (entry_new s fresh (Entry_default\<lparr>ent_key := key, ent_val := v\<rparr>) (str_hash key)) fresh) (\<lambda>s.
     ret (s, out_nil out)))))"

definition do_del :: "server \<Rightarrow> bytes list \<Rightarrow> bytes \<Rightarrow> (server \<times> bytes) exec" where
  "do_del s cmd out =
     bindE (arg cmd 1) (\<lambda>key.
     bindE (db_pop s key) (\<lambda>(s, node).
     bindE (case node of Some a \<Rightarrow> entry_del s a | None \<Rightarrow> ret s) (\<lambda>s.
     ret (s, out_int out (if node \<noteq> None then 1 else 0)))))"

definition cb_scan :: "server \<Rightarrow> addr \<Rightarrow> bytes \<Rightarrow> bytes exec" where
  "cb_scan s node out = bindE (rd (entries s) (Some node)) (\<lambda>e. ret (out_str out (ent_key e)))"

definition do_keys :: "server \<Rightarrow> bytes list \<Rightarrow> bytes \<Rightarrow> (server \<times> bytes) exec" where
  "do_keys s cmd out =
     bindE (h_scan (enodes s) (ht_to (db s)) (cb_scan s) (out_arr out (ucast (hm_size (db s))))) (\<lambda>out.
     bindE (h_scan (enodes s) (ht_from (db s)) (cb_scan s) out) (\<lambda>out.
     ret (s, out)))"

section \<open>Commands on sorted sets\<close>

definition do_zadd :: "addr \<Rightarrow> ptr \<Rightarrow> server \<Rightarrow> bytes list \<Rightarrow> bytes \<Rightarrow> (server \<times> bytes) exec" where
  "do_zadd fresh fresh_node s cmd out =
     bindE (arg cmd 2) (\<lambda>sc.
     case str2double sc of (ok, scr) \<Rightarrow>
     if \<not> ok then ret (s, out_err out ERR_ARG (lit ''expected fp number''))
     else
       bindE (arg cmd 1) (\<lambda>key.
       bindE (db_lookup s key) (\<lambda>(s, hnode).
       bindE (case hnode of
                None \<Rightarrow>
                  bindE (db_insert (entry_new s fresh (Entry_default\<lparr>ent_key := key, ent_type := T_ZSET,
                      ent_zset := Some ZSet_default\<rparr>) (str_hash key)) fresh) (\<lambda>s. ret (s, Some fresh))
              | Some a \<Rightarrow>
                  bindE (rd (entries s) (Some a)) (\<lambda>e.
                  ret (s, if ent_type e \<noteq> T_ZSET then None else Some a))) (\<lambda>(s, ent).
       if ent = None then ret (s, out_err out ERR_TYPE (lit ''expecting zset''))
       else
         bindE (arg cmd 3) (\<lambda>nm.
         bindE (rd (entries s) ent) (\<lambda>e.
         case ent_zset e of None \<Rightarrow> fault NullDeref
         | Some zset \<Rightarrow>
             bindE (zset_add (zheap s) zset fresh_node nm scr) (\<lambda>(m, zset, added).
             bindE (wr (entries s) ent (\<lambda>e. e\<lparr>ent_zset := Some zset\<rparr>)) (\<lambda>es.
             ret (s\<lparr>entries := es, zheap := m\<rparr>, out_int out (if added then 1 else 0))))))))))"

text \<open>The pointer parameter \<open>Entry **ent\<close> is a result; it is null when \<open>false\<close> is returned.\<close>

definition expect_zset :: "server \<Rightarrow> bytes \<Rightarrow> bytes \<Rightarrow> (server \<times> bytes \<times> bool \<times> ptr) exec" where
  "expect_zset s out key =
     bindE (db_lookup s key) (\<lambda>(s, hnode).
     if hnode = None then ret (s, out_nil out, False, None)
     else
       bindE (rd (entries s) hnode) (\<lambda>e.
       if ent_type e \<noteq> T_ZSET then ret (s, out_err out ERR_TYPE (lit ''expecting zset''), False, None)
       else ret (s, out, True, hnode)))"

definition do_zrem :: "server \<Rightarrow> bytes list \<Rightarrow> bytes \<Rightarrow> (server \<times> bytes) exec" where
  "do_zrem s cmd out =
     bindE (arg cmd 1) (\<lambda>key.
     bindE (expect_zset s out key) (\<lambda>(s, out, ok, ent).
     if \<not> ok then ret (s, out)
     else
       bindE (arg cmd 2) (\<lambda>nm.
       bindE (rd (entries s) ent) (\<lambda>e.
       case ent_zset e of None \<Rightarrow> fault NullDeref
       | Some zset \<Rightarrow>
           bindE (zset_pop (zheap s) zset nm) (\<lambda>(m, zset, znode).
           bindE (wr (entries s) ent (\<lambda>e. e\<lparr>ent_zset := Some zset\<rparr>)) (\<lambda>es.
           bindE (if znode \<noteq> None then znode_del m znode else ret m) (\<lambda>m.
           ret (s\<lparr>entries := es, zheap := m\<rparr>, out_int out (if znode \<noteq> None then 1 else 0)))))))))"

definition do_zscore :: "server \<Rightarrow> bytes list \<Rightarrow> bytes \<Rightarrow> (server \<times> bytes) exec" where
  "do_zscore s cmd out =
     bindE (arg cmd 1) (\<lambda>key.
     bindE (expect_zset s out key) (\<lambda>(s, out, ok, ent).
     if \<not> ok then ret (s, out)
     else
       bindE (arg cmd 2) (\<lambda>nm.
       bindE (rd (entries s) ent) (\<lambda>e.
       case ent_zset e of None \<Rightarrow> fault NullDeref
       | Some zset \<Rightarrow>
           bindE (zset_lookup (zheap s) zset nm) (\<lambda>(m, zset, znode).
           bindE (wr (entries s) ent (\<lambda>e. e\<lparr>ent_zset := Some zset\<rparr>)) (\<lambda>es.
           let s = s\<lparr>entries := es, zheap := m\<rparr> in
           if znode \<noteq> None
           then bindE (rd (znodes m) znode) (\<lambda>z. ret (s, out_double out (score z)))
           else ret (s, out_nil out)))))))"

partial_function (option) zquery_loop ::
  "zmem \<Rightarrow> int \<Rightarrow> ptr \<Rightarrow> u32 \<Rightarrow> bytes \<Rightarrow> (u32 \<times> bytes) exec" where
  "zquery_loop m limit znode n out =
     (if znode \<noteq> None \<and> uint n < limit then
        bindE (rd (znodes m) znode) (\<lambda>z.
        bindE (avl_offset (tnodes m) znode 1) (\<lambda>next_node.
        zquery_loop m limit next_node (n + 2) (out_double (out_str out (name z)) (score z))))
      else ret (n, out))"

definition do_zquery :: "server \<Rightarrow> bytes list \<Rightarrow> bytes \<Rightarrow> (server \<times> bytes) exec" where
  "do_zquery s cmd out =
     bindE (arg cmd 2) (\<lambda>sc.
     case str2double sc of (ok, scr) \<Rightarrow>
     if \<not> ok then ret (s, out_err out ERR_ARG (lit ''expecting fp number''))
     else
       bindE (arg cmd 3) (\<lambda>nm.
       bindE (arg cmd 4) (\<lambda>off.
       case str2int off of (ok, offset) \<Rightarrow>
       if \<not> ok then ret (s, out_err out ERR_ARG (lit ''expecting int''))
       else
         bindE (arg cmd 5) (\<lambda>lim.
         case str2int lim of (ok, limit) \<Rightarrow>
         if \<not> ok then ret (s, out_err out ERR_ARG (lit ''expecting int''))
         else
           bindE (arg cmd 1) (\<lambda>key.
           bindE (expect_zset s out key) (\<lambda>(s, out, ok, ent).
           if \<not> ok then ret (s, if take 1 out = [SER_NIL] then out_arr [] 0 else out)
           else if limit \<le> 0 then ret (s, out_arr out 0)
           else
             bindE (rd (entries s) ent) (\<lambda>e.
             case ent_zset e of None \<Rightarrow> fault NullDeref
             | Some zset \<Rightarrow>
                 bindE (zset_query (zheap s) zset scr nm offset) (\<lambda>znode.
                 bindE (zquery_loop (zheap s) limit znode 0 (out_arr out 0)) (\<lambda>(n, out).
                 bindE (out_update_arr out n) (\<lambda>out. ret (s, out)))))))))))"

section \<open>Dispatch\<close>

definition do_request :: "addr \<Rightarrow> ptr \<Rightarrow> server \<Rightarrow> bytes list \<Rightarrow> bytes \<Rightarrow> (server \<times> bytes) exec" where
  "do_request fresh fresh_node s cmd out =
     (let is = (\<lambda>n word. length cmd = n \<and> cmd_is (cmd ! 0) word) in
      if is 1 ''keys'' then do_keys s cmd out
      else if is 2 ''get'' then do_get s cmd out
      else if is 3 ''set'' then do_set fresh s cmd out
      else if is 2 ''del'' then do_del s cmd out
      else if is 4 ''zadd'' then do_zadd fresh fresh_node s cmd out
      else if is 3 ''zrem'' then do_zrem s cmd out
      else if is 3 ''zscore'' then do_zscore s cmd out
      else if is 6 ''zquery'' then do_zquery s cmd out
      else ret (s, out_err out ERR_UNKNOWN (lit ''Unknown cmd'')))"

section \<open>Times to live\<close>

definition do_expire :: "u64 \<Rightarrow> server \<Rightarrow> bytes list \<Rightarrow> bytes \<Rightarrow> (server \<times> bytes) exec" where
  "do_expire now_us s cmd out =
     bindE (arg cmd 2) (\<lambda>ttl.
     case str2int ttl of (ok, ttl_ms) \<Rightarrow>
     if \<not> ok then ret (s, out_err out ERR_ARG (lit ''expecting int64''))
     else
       bindE (arg cmd 1) (\<lambda>key.
       bindE (db_lookup s key) (\<lambda>(s, node).
       bindE (if node \<noteq> None then
                bindE (entry_set_ttl now_us (heap s) (heap_idx s) node (word_of_int ttl_ms)) (\<lambda>(hp, ix).
                ret (s\<lparr>heap := hp, heap_idx := ix\<rparr>))
              else ret s) (\<lambda>s.
       ret (s, out_int out (if node \<noteq> None then 1 else 0))))))"

definition do_ttl :: "u64 \<Rightarrow> server \<Rightarrow> bytes list \<Rightarrow> bytes \<Rightarrow> (server \<times> bytes) exec" where
  "do_ttl now_us s cmd out =
     bindE (arg cmd 1) (\<lambda>key.
     bindE (db_lookup s key) (\<lambda>(s, node).
     if node = None then ret (s, out_int out (-2))
     else
       bindE (rd (heap_idx s) node) (\<lambda>pos.
       if pos = SIZE_MAX then ret (s, out_int out (-1))
       else
         bindE (item_get (heap s) pos) (\<lambda>item.
         let expire_at = val item in
         ret (s, out_int out (if expire_at > now_us then (expire_at - now_us) div 1000 else 0))))))"

definition hnode_same :: "ptr \<Rightarrow> addr \<Rightarrow> bool exec" where
  "hnode_same key node = ret (Some node = key)"

definition K_MAX_WORKS :: nat where "K_MAX_WORKS = 2000"

text \<open>The second loop of \<open>process_timers\<close>, where \<open>now_us\<close> already has the extra 1000 microseconds.\<close>

partial_function (option) expire_loop :: "u64 \<Rightarrow> server \<Rightarrow> nat \<Rightarrow> server exec" where
  "expire_loop now_us s nworks =
     (if heap s \<noteq> [] \<and> val (heap s ! 0) < now_us then
        let entry = ref (heap s ! 0) in
        bindE (rd (enodes s) entry) (\<lambda>n.
        bindE (hm_pop (enodes s) (db s) (hcode n) (hnode_same entry)) (\<lambda>(hs, hm, node).
        bindE (assertE (node = entry)) (\<lambda>_.
        bindE (entry_del (s\<lparr>db := hm, enodes := hs\<rparr>) (the entry)) (\<lambda>s.
        if nworks \<ge> K_MAX_WORKS then ret s else expire_loop now_us s (nworks + 1)))))
      else ret s)"

end
