(* ===== verification/Request.thy ===== *)
theory Request
  imports Wire
begin

text \<open>
  The request format, from both ends: \<open>parse_req\<close> of \<open>server.cpp\<close>, which turns the payload of a
  request into the argument vector, and \<open>send_req\<close> of \<open>client.cpp\<close>, which builds the message.
\<close>

section \<open>Server side\<close>

text \<open>
  \<open>data\<close> is the memory from the payload pointer to the end of the receive buffer and \<open>len\<close> the
  announced payload length. The position stays at most \<open>len\<close> before each check, so the \<open>size_t\<close>
  additions do not wrap and are written on \<^typ>\<open>nat\<close>.
\<close>

fun parse_args :: "bytes \<Rightarrow> nat \<Rightarrow> nat \<Rightarrow> nat \<Rightarrow> bytes list \<Rightarrow> (int \<times> bytes list) exec" where
  "parse_args data len 0 pos out = ret (if pos \<noteq> len then -1 else 0, out)"
| "parse_args data len (Suc n) pos out =
     (if pos + 4 > len then ret (-1, out)
      else bindE (read_u32 data pos) (\<lambda>sz.
        if pos + 4 + unat sz > len then ret (-1, out)
        else bindE (read_bytes data (pos + 4) (unat sz)) (\<lambda>s.
          parse_args data len n (pos + 4 + unat sz) (out @ [s]))))"

definition parse_req :: "bytes \<Rightarrow> nat \<Rightarrow> bytes list \<Rightarrow> (int \<times> bytes list) exec" where
  "parse_req data len out =
     (if len < 4 then ret (-1, out)
      else bindE (read_u32 data 0) (\<lambda>n.
        if unat n > K_MAX_ARGS then ret (-1, out)
        else parse_args data len (unat n) 4 out))"

section \<open>Client side\<close>

text \<open>The lengths are summed in \<open>uint32_t\<close>, where the sum wraps.\<close>

definition req_len :: "bytes list \<Rightarrow> u32" where
  "req_len cmd = fold (\<lambda>s len. len + (4 + of_nat (length s))) cmd 4"

fun put_args :: "bytes list \<Rightarrow> nat \<Rightarrow> bytes \<Rightarrow> bytes exec" where
  "put_args [] curr_pos wbuf = ret wbuf"
| "put_args (s # cmd) curr_pos wbuf =
     bindE (write_bytes wbuf curr_pos (le32 (of_nat (length s)))) (\<lambda>wbuf.
     bindE (write_bytes wbuf (curr_pos + 4) s) (\<lambda>wbuf.
     put_args cmd (curr_pos + (4 + length s)) wbuf))"

definition send_req ::
  "('k \<Rightarrow> bytes \<Rightarrow> int \<times> 'k) \<Rightarrow> 'k \<Rightarrow> bytes list \<Rightarrow> (int \<times> 'k) exec" where
  "send_req sys_write k cmd = (let len = req_len cmd in
     if unat len > K_MAX_MSG then ret (-1, k)
     else
       bindE (write_bytes (replicate (4 + K_MAX_MSG) 0) 0 (le32 len)) (\<lambda>wbuf.
       bindE (write_bytes wbuf 4 (le32 (of_nat (length cmd)))) (\<lambda>wbuf.
       bindE (put_args cmd 8 wbuf) (\<lambda>wbuf.
       write_all sys_write k (take (4 + unat len) wbuf)))))"

section \<open>The format they share\<close>

definition arg_image :: "bytes \<Rightarrow> bytes" where
  "arg_image s = le32 (of_nat (length s)) @ s"

definition args_image :: "bytes list \<Rightarrow> bytes" where
  "args_image cmd = concat (map arg_image cmd)"

definition req_payload :: "bytes list \<Rightarrow> bytes" where
  "req_payload cmd = le32 (of_nat (length cmd)) @ args_image cmd"

definition req_image :: "bytes list \<Rightarrow> bytes" where
  "req_image cmd = le32 (of_nat (length (req_payload cmd))) @ req_payload cmd"

lemma length_arg_image [simp]: "length (arg_image s) = 4 + length s"
  by (simp add: arg_image_def)

lemma args_image_simps [simp]:
  "args_image [] = []" "args_image (s # cmd) = arg_image s @ args_image cmd"
  by (simp_all add: args_image_def)

lemma length_req_payload: "length (req_payload cmd) = 4 + length (args_image cmd)"
  by (simp add: req_payload_def)

lemma args_image_bounds:
  "length cmd \<le> length (args_image cmd) div 4" "s \<in> set cmd \<Longrightarrow> length s \<le> length (args_image cmd)"
  by (induction cmd) auto

subsection \<open>Parsing\<close>

lemma parse_args_image:
  assumes "length (args_image cmd) < 2 ^ 32"
    and "data = pre @ args_image cmd @ rest" and "pos = length pre"
  shows "parse_args data (pos + length (args_image cmd)) (length cmd) pos out = ret (0, out @ cmd)"
  using assms
proof (induction cmd arbitrary: pre pos out)
  case (Cons s cmd)
  let ?w = "of_nat (length s) :: u32"
  have sz: "unat ?w = length s" using Cons.prems(1) by (intro unat_of_nat_u32) simp
  have "read_u32 data pos = ret ?w"
    using Cons.prems by (intro read_u32_at [of _ pre _ "s @ args_image cmd @ rest"]) (simp_all add: arg_image_def)
  moreover have "read_bytes data (pos + 4) (length s) = ret s"
    using read_bytes_at [of "pre @ le32 ?w" s "args_image cmd @ rest"] Cons.prems
    by (simp add: arg_image_def)
  moreover have "parse_args data ((pos + 4 + length s) + length (args_image cmd)) (length cmd)
      (pos + 4 + length s) (out @ [s]) = ret (0, (out @ [s]) @ cmd)"
    using Cons.prems by (intro Cons.IH [of "pre @ arg_image s"]) (simp_all add: arg_image_def)
  ultimately show ?case using sz by (simp add: add.assoc)
qed simp

lemma parse_req_payload:
  assumes "length cmd \<le> K_MAX_ARGS" and "length (req_payload cmd) \<le> K_MAX_MSG"
  shows "parse_req (req_payload cmd @ rest) (length (req_payload cmd)) out = ret (0, out @ cmd)"
proof -
  let ?n = "of_nat (length cmd) :: u32"
  have n: "unat ?n = length cmd" using assms(1) by (intro unat_of_nat_u32) (simp add: K_MAX_ARGS_def)
  have "read_u32 (req_payload cmd @ rest) 0 = ret ?n"
    by (rule read_u32_at [of _ "[]" _ "args_image cmd @ rest"]) (simp_all add: req_payload_def)
  moreover have "parse_args (req_payload cmd @ rest) (4 + length (args_image cmd)) (length cmd) 4 out
      = ret (0, out @ cmd)"
    using assms(2)
    by (intro parse_args_image [of _ _ "le32 ?n" rest]) (simp_all add: req_payload_def K_MAX_MSG_def)
  ultimately show ?thesis using n assms(1) by (simp add: parse_req_def length_req_payload)
qed

text \<open>Whatever the bytes are, parsing stays inside the announced payload.\<close>

lemma parse_args_safe:
  assumes "len \<le> length data"
  shows "\<exists>rv out'. parse_args data len n pos out = ret (rv, out') \<and> rv \<in> {-1, 0} \<and>
    length out' \<le> length out + n \<and>
    (rv = 0 \<longrightarrow> pos \<le> len \<longrightarrow> (\<exists>cmd. out' = out @ cmd \<and> length cmd = n \<and>
       take (len - pos) (drop pos data) = args_image cmd))"
  using assms
proof (induction data len n pos out rule: parse_args.induct)
  case (2 data len n pos out)
  show ?case
  proof (cases "pos + 4 > len")
    case False
    let ?sz = "word_of_le (take 4 (drop pos data)) :: u32"
    have rd: "read_u32 data pos = ret ?sz" using False 2 by (intro read_u32_ret) simp
    show ?thesis
    proof (cases "pos + 4 + unat ?sz > len")
      case fits: False
      let ?s = "take (unat ?sz) (drop (pos + 4) data)"
      have rb: "read_bytes data (pos + 4) (unat ?sz) = ret ?s"
        using fits 2 by (simp add: read_bytes_def)
      have "le32 (of_nat (length ?s)) = take 4 (drop pos data)"
        using False fits 2(2) by (simp add: le32_word_of_le min_absorb2 del: take_drop)
      then have image: "arg_image ?s = take (4 + unat ?sz) (drop pos data)"
        by (simp add: arg_image_def take_add add.commute)
      from 2 (1) [OF False rd fits rb 2(2)] obtain rv out' where
        rest: "parse_args data len n (pos + 4 + unat ?sz) (out @ [?s]) = ret (rv, out')"
        "rv \<in> {-1, 0}" "length out' \<le> length (out @ [?s]) + n"
        "rv = 0 \<longrightarrow> pos + 4 + unat ?sz \<le> len \<longrightarrow> (\<exists>cmd. out' = (out @ [?s]) @ cmd \<and> length cmd = n \<and>
           take (len - (pos + 4 + unat ?sz)) (drop (pos + 4 + unat ?sz) data) = args_image cmd)"
        by blast
      let ?e = "pos + 4 + unat ?sz"
      have split: "take (len - pos) (drop pos data) = arg_image ?s @ take (len - ?e) (drop ?e data)"
        using image fits take_add [of "4 + unat ?sz" "len - ?e" "drop pos data"]
        by (simp add: ac_simps)
      have "\<exists>cmd. out' = out @ cmd \<and> length cmd = Suc n \<and>
        take (len - pos) (drop pos data) = args_image cmd" if "rv = 0"
      proof -
        from rest(4) that fits obtain cmd where "out' = (out @ [?s]) @ cmd" "length cmd = n"
          "take (len - ?e) (drop ?e data) = args_image cmd" by auto
        then show ?thesis using split by (intro exI [of _ "?s # cmd"]) simp
      qed
      moreover have "parse_args data len (Suc n) pos out = ret (rv, out')"
        using rest(1) False rd fits rb by simp
      ultimately show ?thesis using rest(2,3) by auto
    qed (use False rd in simp)
  qed simp
qed auto

lemma parse_req_decodes:
  assumes "len \<le> length data"
  shows "\<exists>rv out'. parse_req data len [] = ret (rv, out') \<and> rv \<in> {-1, 0} \<and> length out' \<le> K_MAX_ARGS \<and>
    (rv = 0 \<longrightarrow> take len data = req_payload out')"
proof (cases "len < 4")
  case False
  let ?n = "word_of_le (take 4 data) :: u32"
  have rd: "read_u32 data 0 = ret ?n" using False assms by (simp add: read_u32_ret)
  show ?thesis
  proof (cases "unat ?n > K_MAX_ARGS")
    case le: False
    from parse_args_safe [OF assms, of "unat ?n" 4 "[]"] obtain rv out' where
      p: "parse_args data len (unat ?n) 4 [] = ret (rv, out')" "rv \<in> {-1, 0}" "length out' \<le> unat ?n"
        "rv = 0 \<longrightarrow> 4 \<le> len \<longrightarrow> length out' = unat ?n \<and> take (len - 4) (drop 4 data) = args_image out'"
      by auto
    have "take len data = req_payload out'" if "rv = 0"
    proof -
      have "length out' = unat ?n" "take (len - 4) (drop 4 data) = args_image out'"
        using p(4) that False by auto
      moreover have "take len data = take 4 data @ take (len - 4) (drop 4 data)"
        using take_add [of 4 "len - 4" data] False by simp
      ultimately show ?thesis
        using False assms by (simp add: req_payload_def le32_word_of_le del: take_drop)
    qed
    then show ?thesis using p False rd le by (auto simp: parse_req_def)
  qed (use False rd in \<open>simp add: parse_req_def\<close>)
qed (simp add: parse_req_def)

subsection \<open>Sending\<close>

lemma req_len_payload: "req_len cmd = of_nat (length (req_payload cmd))"
proof -
  have "fold (\<lambda>s len. len + (4 + of_nat (length s))) cmd acc = acc + (of_nat (length (args_image cmd)) :: u32)" for acc
    by (induction cmd arbitrary: acc) (simp_all add: algebra_simps)
  then show ?thesis by (simp add: req_len_def length_req_payload)
qed

lemma put_args_image:
  assumes "length (args_image cmd) \<le> n" and "pos = length xs"
  shows "put_args cmd pos (xs @ replicate n 0)
    = ret ((xs @ args_image cmd) @ replicate (n - length (args_image cmd)) 0)"
  using assms
proof (induction cmd arbitrary: xs n pos)
  case (Cons s cmd)
  let ?w = "of_nat (length s) :: u32"
  have "write_bytes (xs @ replicate n 0) pos (le32 ?w) = ret ((xs @ le32 ?w) @ replicate (n - 4) 0)"
    using Cons.prems by (subst write_bytes_at) simp_all
  moreover have "write_bytes ((xs @ le32 ?w) @ replicate (n - 4) 0) (pos + 4) s
      = ret (((xs @ le32 ?w) @ s) @ replicate (n - 4 - length s) 0)"
    using Cons.prems by (subst write_bytes_at) simp_all
  ultimately show ?case
    using Cons.IH [of "n - 4 - length s" "pos + (4 + length s)" "(xs @ le32 ?w) @ s"] Cons.prems
    by (simp add: arg_image_def del: append_assoc)
qed simp

lemma send_req_image:
  assumes "length (req_payload cmd) \<le> K_MAX_MSG"
  shows "send_req sys_write k cmd = write_all sys_write k (req_image cmd)"
proof -
  let ?len = "req_len cmd" and ?n = "of_nat (length cmd) :: u32"
  have len: "unat ?len = length (req_payload cmd)"
    using assms by (simp add: req_len_payload unat_of_nat_u32 K_MAX_MSG_def)
  have "write_bytes (replicate (4 + K_MAX_MSG) 0) 0 (le32 ?len) = ret (le32 ?len @ replicate K_MAX_MSG 0)"
    using write_bytes_at [of "le32 ?len" "4 + K_MAX_MSG" 0 "[]"] by simp
  moreover have "write_bytes (le32 ?len @ replicate K_MAX_MSG 0) 4 (le32 ?n)
      = ret ((le32 ?len @ le32 ?n) @ replicate (K_MAX_MSG - 4) 0)"
    by (subst write_bytes_at) (simp_all add: K_MAX_MSG_def)
  moreover have "put_args cmd 8 ((le32 ?len @ le32 ?n) @ replicate (K_MAX_MSG - 4) 0)
      = ret (((le32 ?len @ le32 ?n) @ args_image cmd) @ replicate (K_MAX_MSG - 4 - length (args_image cmd)) 0)"
    using assms by (intro put_args_image) (simp_all add: length_req_payload)
  ultimately show ?thesis
    using assms len
    by (simp add: send_req_def Let_def req_image_def req_payload_def length_req_payload req_len_payload)
qed

lemma send_req_too_long:
  assumes "K_MAX_MSG < length (req_payload cmd)" and "length (req_payload cmd) < 2 ^ 32"
  shows "send_req sys_write k cmd = ret (-1, k)"
  using assms by (simp add: send_req_def Let_def req_len_payload unat_of_nat_u32)

end
