(* ===== verification/Idle_List.thy ===== *)
theory Idle_List
  imports Prelude
begin

text \<open>
  The intrusive doubly linked list of \<open>list.h\<close>, which the server uses to keep connections in the
  order of their last activity. A list is a circle through a head node; \<open>dlist_at h s xs\<close> says that
  the nodes after \<open>s\<close> are \<open>xs\<close>, in this order, and that the pointers agree in both directions.
\<close>

section \<open>The code\<close>

record DList =
  prev :: ptr
  nxt :: ptr

type_synonym dstore = "DList store"

definition dlist_init :: "dstore \<Rightarrow> ptr \<Rightarrow> dstore exec" where
  "dlist_init h node = wr h node (\<lambda>n. n\<lparr>nxt := node, prev := node\<rparr>)"

definition dlist_is_empty :: "dstore \<Rightarrow> ptr \<Rightarrow> bool exec" where
  "dlist_is_empty h node = bindE (rd h node) (\<lambda>n. ret (node = nxt n))"

definition dlist_detach :: "dstore \<Rightarrow> ptr \<Rightarrow> dstore exec" where
  "dlist_detach h node =
     bindE (rd h node) (\<lambda>n. let p = prev n; q = nxt n in
     bindE (wr h p (\<lambda>n. n\<lparr>nxt := q\<rparr>)) (\<lambda>h.
     wr h q (\<lambda>n. n\<lparr>prev := p\<rparr>)))"

definition dlist_insert_before :: "dstore \<Rightarrow> ptr \<Rightarrow> ptr \<Rightarrow> dstore exec" where
  "dlist_insert_before h target to_be_inserted =
     bindE (rd h target) (\<lambda>t. let p = prev t in
     bindE (wr h p (\<lambda>n. n\<lparr>nxt := to_be_inserted\<rparr>)) (\<lambda>h.
     bindE (wr h to_be_inserted (\<lambda>n. n\<lparr>prev := p\<rparr>)) (\<lambda>h.
     bindE (wr h to_be_inserted (\<lambda>n. n\<lparr>nxt := target\<rparr>)) (\<lambda>h.
     wr h target (\<lambda>n. n\<lparr>prev := to_be_inserted\<rparr>)))))"

section \<open>Circles\<close>

fun adj :: "'a list \<Rightarrow> ('a \<times> 'a) list" where
  "adj (x # y # zs) = (x, y) # adj (y # zs)"
| "adj _ = []"

lemma adj_join: "adj (xs @ u # ys) = adj (xs @ [u]) @ adj (u # ys)"
  by (induction xs rule: adj.induct) simp_all

lemma adj_fst: "(u, v) \<in> set (adj xs) \<Longrightarrow> u \<in> set (butlast xs)"
  by (induction xs rule: adj.induct) auto

lemma adj_in: "(u, v) \<in> set (adj xs) \<Longrightarrow> u \<in> set xs \<and> v \<in> set xs"
  by (induction xs rule: adj.induct) auto

lemma adj_snd: "(u, v) \<in> set (adj xs) \<Longrightarrow> v \<in> set (tl xs)"
  by (induction xs rule: adj.induct) auto

definition nx :: "dstore \<Rightarrow> addr \<Rightarrow> ptr" where
  "nx h x = Option.bind (h x) nxt"

definition pv :: "dstore \<Rightarrow> addr \<Rightarrow> ptr" where
  "pv h x = Option.bind (h x) prev"

definition lnk :: "dstore \<Rightarrow> addr \<times> addr \<Rightarrow> bool" where
  "lnk h e \<longleftrightarrow> nx h (fst e) = Some (snd e) \<and> pv h (snd e) = Some (fst e)"

lemma nx_pv_simps [simp]: "h x = Some n \<Longrightarrow> nx h x = nxt n" "h x = Some n \<Longrightarrow> pv h x = prev n"
  by (simp_all add: nx_def pv_def)

lemma nx_pv_alloc: "nx h x = Some y \<Longrightarrow> \<exists>n. h x = Some n \<and> nxt n = Some y" "pv h x = Some y \<Longrightarrow> \<exists>n. h x = Some n \<and> prev n = Some y"
  by (auto simp: nx_def pv_def bind_eq_Some_conv)

definition dlist_at :: "dstore \<Rightarrow> addr \<Rightarrow> addr list \<Rightarrow> bool" where
  "dlist_at h s xs \<longleftrightarrow> distinct (s # xs) \<and> (\<forall>e \<in> set (adj (s # xs @ [s])). lnk h e)"

lemma dlist_at_init: "h s = Some n \<Longrightarrow> \<exists>h'. dlist_init h (Some s) = ret h' \<and> dlist_at h' s [] \<and> same_outside {s} h h'"
  by (simp add: dlist_init_def dlist_at_def lnk_def same_outside_upd)

lemma dlist_is_empty_iff:
  assumes "dlist_at h s xs"
  shows "dlist_is_empty h (Some s) = ret (xs = [])"
proof -
  obtain y where y: "(s, y) \<in> set (adj (s # xs @ [s]))" "y = s \<longleftrightarrow> xs = []"
    using assms by (cases xs) (auto simp: dlist_at_def)
  then have "lnk h (s, y)" using assms by (simp add: dlist_at_def)
  then show ?thesis using y(2) by (auto simp: dlist_is_empty_def lnk_def dest!: nx_pv_alloc(1))
qed

text \<open>Redirecting the link that leaves \<open>p\<close> and the one that enters \<open>q\<close> leaves every other edge alone.\<close>

definition relink :: "dstore \<Rightarrow> addr \<Rightarrow> addr \<Rightarrow> addr \<Rightarrow> addr \<Rightarrow> dstore" where
  "relink h p v q u = (\<lambda>x. map_option (\<lambda>n. n\<lparr>nxt := if x = p then Some v else nxt n, prev := if x = q then Some u else prev n\<rparr>) (h x))"

lemma relink_fields:
  "nx (relink h p v q u) x = (if x = p \<and> h x \<noteq> None then Some v else nx h x)"
  "pv (relink h p v q u) x = (if x = q \<and> h x \<noteq> None then Some u else pv h x)"
  by (cases "h x"; simp add: relink_def nx_def pv_def)+

lemma lnk_relink: "lnk h (x, y) \<Longrightarrow> x \<noteq> p \<Longrightarrow> y \<noteq> q \<Longrightarrow> lnk (relink h p v q u) (x, y)"
  by (simp add: lnk_def relink_fields)

lemma relink_writes:
  assumes "h p = Some n" "h q = Some m"
  shows "bindE (wr h (Some p) (\<lambda>n. n\<lparr>nxt := Some v\<rparr>)) (\<lambda>h. wr h (Some q) (\<lambda>n. n\<lparr>prev := Some u\<rparr>)) = ret (relink h p v q u)"
  using assms by (cases "p = q") (auto simp: relink_def fun_eq_iff wr_def map_option_case split: option.splits)

lemma relink_same_outside: "h p = Some n \<Longrightarrow> h q = Some m \<Longrightarrow> same_outside {p, q} h (relink h p v q u)"
  by (auto simp: same_outside_def relink_def map_option_case split: option.splits)

text \<open>
  A circle cut open at an edge: \<open>A @ [p]\<close> before it and \<open>q # B\<close> after it. Sources of edges are
  pairwise different, and so are targets.
\<close>

lemma circle_cut:
  assumes d: "distinct (s # xs)" and c: "s # xs @ [s] = A @ p # M @ q # B"
  shows "(x, y) \<in> set (adj (A @ [p])) \<Longrightarrow> x \<noteq> p \<and> y \<noteq> q" "(x, y) \<in> set (adj (q # B)) \<Longrightarrow> x \<noteq> p \<and> y \<noteq> q"
proof -
  have "butlast (s # xs @ [s]) = s # xs" "tl (s # xs @ [s]) = xs @ [s]" by (simp_all add: butlast_append)
  then have bl: "distinct (butlast (A @ p # M @ q # B))" and tl: "distinct (tl (A @ p # M @ q # B))"
    using d unfolding c by simp_all
  show "x \<noteq> p \<and> y \<noteq> q" if "(x, y) \<in> set (adj (A @ [p]))"
    using adj_fst [OF that] adj_snd [OF that] bl tl by (cases A) (auto simp: butlast_append split: if_splits)
  show "x \<noteq> p \<and> y \<noteq> q" if "(x, y) \<in> set (adj (q # B))"
    using adj_fst [OF that] adj_snd [OF that] bl tl by (cases A) (auto simp: butlast_append split: if_splits)
qed

lemma dlist_detach_at:
  assumes at: "dlist_at h s xs" and x: "x \<in> set xs"
  shows "\<exists>h'. dlist_detach h (Some x) = ret h' \<and> dlist_at h' s (remove1 x xs) \<and> same_outside (insert s (set xs)) h h'"
proof -
  have d: "distinct (s # xs)" using at by (simp add: dlist_at_def)
  obtain as bs where xs: "xs = as @ x # bs" using x by (meson split_list)
  obtain A p where A: "s # as = A @ [p]" by (metis append_butlast_last_id list.distinct(1))
  obtain q B where B: "bs @ [s] = q # B" by (cases bs) auto
  have c: "s # xs @ [s] = A @ p # [x] @ q # B" using A B xs by simp
  have adj: "set (adj (s # xs @ [s])) = set (adj (A @ [p])) \<union> {(p, x), (x, q)} \<union> set (adj (q # B))"
    unfolding c using adj_join [of A p "x # q # B"] by auto
  then have ends: "lnk h (p, x)" "lnk h (x, q)" using at by (simp_all add: dlist_at_def)
  then obtain n m k where n: "h p = Some n" "h q = Some m" "h x = Some k" "prev k = Some p" "nxt k = Some q"
    by (auto simp: lnk_def dest!: nx_pv_alloc)
  let ?h = "relink h p q q p"
  have det: "dlist_detach h (Some x) = ret ?h" using n relink_writes [of h p n q m q p] by (simp add: dlist_detach_def)
  have rm: "s # remove1 x xs @ [s] = A @ p # q # B" using A B d xs by (simp add: remove1_append)
  have "lnk ?h e" if "e \<in> set (adj (A @ p # q # B))" for e
  proof -
    have "e \<in> set (adj (A @ [p])) \<or> e = (p, q) \<or> e \<in> set (adj (q # B))"
      using that adj_join [of A p "q # B"] by auto
    moreover have "lnk ?h (p, q)" using n by (simp add: lnk_def relink_fields)
    moreover have "lnk h e" if "e \<in> set (adj (A @ [p])) \<union> set (adj (q # B))"
      using at adj that by (auto simp: dlist_at_def)
    ultimately show ?thesis using circle_cut [OF d c] lnk_relink [of h "fst e" "snd e" p q q p] by (cases e) auto
  qed
  then have "dlist_at ?h s (remove1 x xs)" unfolding dlist_at_def rm using d by auto
  moreover have "{p, q} \<subseteq> insert s (set xs)"
    using arg_cong [OF A, of set] arg_cong [OF B, of set] xs by auto
  then have "same_outside (insert s (set xs)) h ?h"
    using relink_same_outside [of h p n q m q p] n same_outside_mono by blast
  ultimately show ?thesis using det by blast
qed

lemma insert_before_relink:
  assumes "h p = Some n" "h q = Some m" "h x = Some k" "prev m = Some p" "x \<noteq> p" "x \<noteq> q"
  shows "dlist_insert_before h (Some q) (Some x) = ret ((relink h p x q x)(x \<mapsto> \<lparr>prev = Some p, nxt = Some q\<rparr>))"
  using assms by (cases "p = q"; cases k)
    (auto simp: dlist_insert_before_def Let_def relink_def fun_eq_iff map_option_case split: option.splits)

lemma lnk_upd: "lnk h (u, v) \<Longrightarrow> u \<noteq> x \<Longrightarrow> v \<noteq> x \<Longrightarrow> lnk (h(x \<mapsto> n)) (u, v)"
  by (simp add: lnk_def nx_def pv_def)

lemma dlist_insert_at:
  assumes at: "dlist_at h s (as @ bs)" and x: "x \<notin> insert s (set (as @ bs))" "h x = Some k"
  shows "\<exists>h'. dlist_insert_before h (Some (hd (bs @ [s]))) (Some x) = ret h' \<and> dlist_at h' s (as @ x # bs) \<and>
    same_outside (insert x (insert s (set (as @ bs)))) h h'"
proof -
  have d: "distinct (s # as @ bs)" using at by (simp add: dlist_at_def)
  obtain A p where A: "s # as = A @ [p]" by (metis append_butlast_last_id list.distinct(1))
  obtain q B where B: "bs @ [s] = q # B" by (cases bs) auto
  have c: "s # (as @ bs) @ [s] = A @ p # [] @ q # B" using A B by simp
  have adj: "set (adj (s # (as @ bs) @ [s])) = set (adj (A @ [p])) \<union> {(p, q)} \<union> set (adj (q # B))"
    unfolding c using adj_join [of A p "q # B"] by auto
  have pq: "{p, q} \<subseteq> insert s (set (as @ bs))" "set (A @ [p]) \<union> set (q # B) \<subseteq> insert s (set (as @ bs))"
    using arg_cong [OF A, of set] arg_cong [OF B, of set] by auto
  then have xpq: "x \<noteq> p" "x \<noteq> q" "x \<notin> set (A @ [p])" "x \<notin> set (q # B)" using x(1) by auto
  have "lnk h (p, q)" using at adj by (simp add: dlist_at_def)
  then obtain n m where n: "h p = Some n" "h q = Some m" "prev m = Some p" by (auto simp: lnk_def dest!: nx_pv_alloc)
  let ?r = "relink h p x q x" let ?h = "?r(x \<mapsto> \<lparr>prev = Some p, nxt = Some q\<rparr>)"
  have ins: "dlist_insert_before h (Some q) (Some x) = ret ?h"
    using insert_before_relink n x(2) xpq(1,2) by blast
  have new: "s # (as @ x # bs) @ [s] = A @ p # x # q # B" using A B by simp
  have "lnk ?h e" if "e \<in> set (adj (A @ p # x # q # B))" for e
  proof -
    have "e \<in> set (adj (A @ [p])) \<union> set (adj (q # B)) \<or> e \<in> {(p, x), (x, q)}"
      using that adj_join [of A p "x # q # B"] by auto
    then show ?thesis
    proof
      assume e: "e \<in> set (adj (A @ [p])) \<union> set (adj (q # B))"
      obtain u v where uv: "e = (u, v)" by (cases e)
      have "lnk h (u, v)" using at adj e uv by (auto simp: dlist_at_def)
      then have "lnk ?r (u, v)" using circle_cut [OF d c, of u v] e uv by (intro lnk_relink) auto
      moreover have "u \<noteq> x" "v \<noteq> x"
        using e uv xpq(3,4) adj_in [of u v "A @ [p]"] adj_in [of u v "q # B"] by auto
      ultimately show ?thesis using uv lnk_upd by blast
    next
      assume "e \<in> {(p, x), (x, q)}"
      then show ?thesis using n xpq(1,2) by (auto simp: lnk_def nx_def pv_def relink_def)
    qed
  qed
  then have "dlist_at ?h s (as @ x # bs)" unfolding dlist_at_def new using d x(1) by auto
  moreover have "same_outside {p, q} h ?r" "same_outside {x} ?r ?h"
    using relink_same_outside n(1,2) x(2) by (auto simp: same_outside_upd relink_def)
  then have "same_outside (insert x (insert s (set (as @ bs)))) h ?h"
    using pq(1) by (elim same_outside_trans) auto
  moreover have "hd (bs @ [s]) = q" using B by simp
  ultimately show ?thesis using ins by auto
qed

section \<open>The contract\<close>

locale recency_list =
  fixes rep :: "'h \<Rightarrow> addr \<Rightarrow> addr list \<Rightarrow> bool"
    and detach :: "'h \<Rightarrow> ptr \<Rightarrow> 'h exec"
    and insert_before :: "'h \<Rightarrow> ptr \<Rightarrow> ptr \<Rightarrow> 'h exec"
    and allocated :: "'h \<Rightarrow> addr \<Rightarrow> bool"
  assumes rep_distinct: "rep h s xs \<Longrightarrow> distinct (s # xs)"
    and detach_law: "rep h s xs \<Longrightarrow> x \<in> set xs \<Longrightarrow>
      \<exists>h'. detach h (Some x) = ret h' \<and> rep h' s (remove1 x xs) \<and> (\<forall>y. allocated h' y = allocated h y)"
    and append_law: "rep h s xs \<Longrightarrow> x \<notin> insert s (set xs) \<Longrightarrow> allocated h x \<Longrightarrow>
      \<exists>h'. insert_before h (Some s) (Some x) = ret h' \<and> rep h' s (xs @ [x])"
    and rep_allocated: "rep h s xs \<Longrightarrow> x \<in> set xs \<Longrightarrow> allocated h x"
begin

text \<open>Detaching a member and inserting it before the head makes it the most recent one.\<close>

lemma touch_moves_to_end:
  assumes "rep h s xs" "x \<in> set xs"
  shows "\<exists>h'. bindE (detach h (Some x)) (\<lambda>h. insert_before h (Some s) (Some x)) = ret h' \<and> rep h' s (remove1 x xs @ [x])"
proof -
  obtain h1 where h1: "detach h (Some x) = ret h1" "rep h1 s (remove1 x xs)" "allocated h1 x"
    using detach_law [OF assms] rep_allocated [OF assms] by blast
  have "x \<notin> insert s (set (remove1 x xs))" using rep_distinct [OF assms(1)] assms(2) by auto
  from append_law [OF h1(2) this h1(3)] h1(1) show ?thesis by auto
qed

end

interpretation idle_list: recency_list dlist_at dlist_detach dlist_insert_before "\<lambda>h x. h x \<noteq> None"
proof unfold_locales
  fix h s xs x
  assume "dlist_at h s xs" "x \<in> set xs"
  then obtain h' where "dlist_detach h (Some x) = ret h'" "dlist_at h' s (remove1 x xs)" "same_outside (insert s (set xs)) h h'"
    using dlist_detach_at by blast
  moreover from this(3) have "\<forall>y. (h' y \<noteq> None) = (h y \<noteq> None)" unfolding same_outside_def by metis
  ultimately show "\<exists>h'. dlist_detach h (Some x) = ret h' \<and> dlist_at h' s (remove1 x xs) \<and> (\<forall>y. (h' y \<noteq> None) = (h y \<noteq> None))"
    by blast
next
  fix h s xs x
  assume "dlist_at h s xs" "x \<notin> insert s (set xs)" "h x \<noteq> None"
  then show "\<exists>h'. dlist_insert_before h (Some s) (Some x) = ret h' \<and> dlist_at h' s (xs @ [x])"
    using dlist_insert_at [of h s xs "[]" x] by fastforce
next
  fix h s xs x
  assume at: "dlist_at h s xs" and x: "x \<in> set xs"
  obtain as bs where xs: "xs = as @ x # bs" using x by (meson split_list)
  obtain q B where B: "bs @ [s] = q # B" by (cases bs) auto
  have "(x, q) \<in> set (adj (s # xs @ [s]))" using adj_join [of "s # as" x "q # B"] xs B by auto
  then have "lnk h (x, q)" using at by (simp add: dlist_at_def)
  then show "h x \<noteq> None" by (auto simp: lnk_def dest!: nx_pv_alloc(1))
qed (simp add: dlist_at_def)

end
