(* ===== verification/Connection.thy ===== *)
theory Connection
  imports Keyspace Request Idle_List
begin

text \<open>
  A client connection of \<open>server.cpp\<close>: its receive and send buffers, the state machine between reading
  requests and writing responses, and the non-blocking reads and writes that drive it. The \<open>read\<close> and
  \<open>write\<close> system calls act on the state \<open>k\<close> of the kernel and are parameters, as are the addresses that
  \<open>new\<close> and \<open>malloc\<close> return during a request. \<open>msg\<close> and \<open>printf\<close> only write diagnostics.
\<close>

section \<open>State\<close>

datatype conn_state = STATE_REQ | STATE_RES | STATE_END

record Conn =
  fd :: nat
  state :: conn_state
  rbuf_size :: nat
  rbuf :: bytes
  wbuf_size :: nat
  wbuf_sent :: nat
  wbuf :: bytes
  idle_start :: u64

text \<open>The result of a system call: a byte count, or \<open>-1\<close> with \<open>errno\<close>.\<close>

datatype io = Count nat | Eagain | Eintr | Eother

record 'k env =
  sys_write :: "'k \<Rightarrow> nat \<Rightarrow> bytes \<Rightarrow> io \<times> 'k"
  sys_read :: "'k \<Rightarrow> nat \<Rightarrow> nat \<Rightarrow> io \<times> bytes \<times> 'k"
  alloc :: "'k \<Rightarrow> server \<Rightarrow> addr \<times> ptr"

definition BUF_SIZE :: nat where "BUF_SIZE = 4 + K_MAX_MSG"

section \<open>Sending\<close>

partial_function (option) write_retry :: "'k env \<Rightarrow> 'k \<Rightarrow> nat \<Rightarrow> bytes \<Rightarrow> (io \<times> 'k) exec" where
  "write_retry env k f buf =
     (case sys_write env k f buf of (rv, k) \<Rightarrow> if rv = Eintr then write_retry env k f buf else ret (rv, k))"

definition try_flush_buffer :: "'k env \<Rightarrow> 'k \<Rightarrow> Conn \<Rightarrow> (bool \<times> 'k \<times> Conn) exec" where
  "try_flush_buffer env k conn =
     (let remaining = (wbuf_size conn + 2 ^ 64 - wbuf_sent conn) mod 2 ^ 64 in
      bindE (read_bytes (wbuf conn) (wbuf_sent conn) remaining) (\<lambda>buf.
      bindE (write_retry env k (fd conn) buf) (\<lambda>(rv, k).
      case rv of
        Eagain \<Rightarrow> ret (False, k, conn)
      | Count n \<Rightarrow>
          (let conn = conn\<lparr>wbuf_sent := wbuf_sent conn + n\<rparr> in
           bindE (assertE (wbuf_sent conn \<le> wbuf_size conn)) (\<lambda>_.
           if wbuf_sent conn = wbuf_size conn
           then ret (False, k, conn\<lparr>state := STATE_REQ, wbuf_size := 0, wbuf_sent := 0\<rparr>)
           else ret (True, k, conn)))
      | _ \<Rightarrow> ret (False, k, conn\<lparr>state := STATE_END\<rparr>))))"

partial_function (option) state_res :: "'k env \<Rightarrow> 'k \<Rightarrow> Conn \<Rightarrow> ('k \<times> Conn) exec" where
  "state_res env k conn =
     bindE (try_flush_buffer env k conn) (\<lambda>r.
     if fst r then state_res env (fst (snd r)) (snd (snd r)) else ret (snd r))"

section \<open>Handling a request\<close>

text \<open>\<open>memmove(rbuf, &rbuf[pos], n)\<close>\<close>

definition move_front :: "bytes \<Rightarrow> nat \<Rightarrow> nat \<Rightarrow> bytes exec" where
  "move_front buf pos n = bindE (read_bytes buf pos n) (\<lambda>bs. write_bytes buf 0 bs)"

text \<open>The response is replaced when it is too large for the send buffer.\<close>

definition limit_response :: "bytes \<Rightarrow> bytes" where
  "limit_response out = (if 4 + length out > K_MAX_MSG then out_err [] ERR_2BIG (lit ''response is too big'') else out)"

definition try_one_request :: "'k env \<Rightarrow> server \<Rightarrow> 'k \<Rightarrow> Conn \<Rightarrow> (bool \<times> server \<times> 'k \<times> Conn) exec" where
  "try_one_request env s k conn =
     (if rbuf_size conn < 4 then ret (False, s, k, conn)
      else
        bindE (read_u32 (rbuf conn) 0) (\<lambda>len.
        if unat len > K_MAX_MSG then ret (False, s, k, conn\<lparr>state := STATE_END\<rparr>)
        else if unat (4 + len) > rbuf_size conn then ret (False, s, k, conn)
        else
          bindE (parse_req (drop 4 (rbuf conn)) (unat len) []) (\<lambda>(err, cmd).
          if err \<noteq> 0 then ret (False, s, k, conn\<lparr>state := STATE_END\<rparr>)
          else
            bindE (do_request (fst (alloc env k s)) (snd (alloc env k s)) s cmd []) (\<lambda>(s, out).
            let out = limit_response out; wlen = of_nat (length out) :: u32 in
            bindE (write_bytes (wbuf conn) 0 (le32 wlen)) (\<lambda>w.
            bindE (write_bytes w 4 out) (\<lambda>w.
            let remaining = rbuf_size conn - 4 - unat len in
            bindE (if remaining \<noteq> 0 then move_front (rbuf conn) (4 + unat len) remaining else ret (rbuf conn)) (\<lambda>r.
            bindE (state_res env k (conn\<lparr>state := STATE_RES, rbuf_size := remaining, rbuf := r,
                wbuf_size := unat (4 + wlen), wbuf := w\<rparr>)) (\<lambda>(k, conn).
            ret (state conn = STATE_REQ, s, k, conn)))))))))"

partial_function (option) request_loop :: "'k env \<Rightarrow> server \<Rightarrow> 'k \<Rightarrow> Conn \<Rightarrow> (server \<times> 'k \<times> Conn) exec" where
  "request_loop env s k conn =
     bindE (try_one_request env s k conn) (\<lambda>r.
     if fst r then request_loop env (fst (snd r)) (fst (snd (snd r))) (snd (snd (snd r))) else ret (snd r))"

section \<open>Receiving\<close>

partial_function (option) read_retry :: "'k env \<Rightarrow> 'k \<Rightarrow> nat \<Rightarrow> nat \<Rightarrow> (io \<times> bytes \<times> 'k) exec" where
  "read_retry env k f cap =
     (case sys_read env k f cap of (rv, bs, k) \<Rightarrow> if rv = Eintr then read_retry env k f cap else ret (rv, bs, k))"

definition try_fill_buffer :: "'k env \<Rightarrow> server \<Rightarrow> 'k \<Rightarrow> Conn \<Rightarrow> (bool \<times> server \<times> 'k \<times> Conn) exec" where
  "try_fill_buffer env s k conn =
     bindE (assertE (rbuf_size conn < BUF_SIZE)) (\<lambda>_.
     bindE (read_retry env k (fd conn) (BUF_SIZE - rbuf_size conn)) (\<lambda>(rv, bs, k).
     case rv of
       Eagain \<Rightarrow> ret (False, s, k, conn)
     | Count n \<Rightarrow>
         (if n = 0 then ret (False, s, k, conn\<lparr>state := STATE_END\<rparr>)
          else
            bindE (write_bytes (rbuf conn) (rbuf_size conn) (take n bs)) (\<lambda>r.
            let conn = conn\<lparr>rbuf_size := rbuf_size conn + n, rbuf := r\<rparr> in
            bindE (assertE (rbuf_size conn \<le> BUF_SIZE)) (\<lambda>_.
            bindE (request_loop env s k conn) (\<lambda>(s, k, conn).
            ret (state conn = STATE_REQ, s, k, conn)))))
     | _ \<Rightarrow> ret (False, s, k, conn\<lparr>state := STATE_END\<rparr>)))"

partial_function (option) state_req :: "'k env \<Rightarrow> server \<Rightarrow> 'k \<Rightarrow> Conn \<Rightarrow> (server \<times> 'k \<times> Conn) exec" where
  "state_req env s k conn =
     bindE (try_fill_buffer env s k conn) (\<lambda>r.
     if fst r then state_req env (fst (snd r)) (fst (snd (snd r))) (snd (snd (snd r))) else ret (snd r))"

section \<open>One wake-up of a connection\<close>

text \<open>The state machine of \<open>connection_io\<close>.\<close>

definition conn_step :: "'k env \<Rightarrow> server \<Rightarrow> 'k \<Rightarrow> Conn \<Rightarrow> (server \<times> 'k \<times> Conn) exec" where
  "conn_step env s k conn =
     (case state conn of
        STATE_REQ \<Rightarrow> state_req env s k conn
      | STATE_RES \<Rightarrow> bindE (state_res env k conn) (\<lambda>(k, conn). ret (s, k, conn))
      | STATE_END \<Rightarrow> fault AssertFailed)"

end
