(* ===== verification/Connection_Frame.thy ===== *)
theory Connection_Frame
  imports Connection
begin

text \<open>
  What a connection can do to the kernel: it only reads and writes. So a reflexive and transitive relation
  between kernel states that every single \<open>read\<close> and \<open>write\<close> keeps (time does not run backwards,
  descriptors stay open) is kept by a whole wake-up, through all the loops of the state machine.
\<close>

definition framed :: "'k env \<Rightarrow> ('k \<Rightarrow> 'k \<Rightarrow> bool) \<Rightarrow> bool" where
  "framed env R \<longleftrightarrow> reflp R \<and> transp R \<and> (\<forall>k f buf. R k (snd (sys_write env k f buf))) \<and>
     (\<forall>k f cap. R k (snd (snd (sys_read env k f cap))))"

lemma framedD:
  assumes "framed env R"
  shows "R k k" "R k k1 \<Longrightarrow> R k1 k2 \<Longrightarrow> R k k2" "sys_write env k f buf = (rv, k') \<Longrightarrow> R k k'"
    "sys_read env k f cap = (rv, bs, k') \<Longrightarrow> R k k'"
  using assms unfolding framed_def by (auto dest: reflpD transpD) (metis snd_conv)+

section \<open>Calls that are repeated after an interruption\<close>

lemma write_retry_frame:
  assumes fr: "framed env R" and run: "write_retry env k f buf = ret (rv, k')"
  shows "R k k'"
proof -
  have "env = env \<longrightarrow> Inr (rv, k') = (Inr (rv, k') :: fault + io \<times> 'a) \<longrightarrow> R k k'"
  proof (rule write_retry.raw_induct [of "\<lambda>e k f b y. e = env \<longrightarrow> y = Inr (rv, k') \<longrightarrow> R k k'"])
    show "write_retry env k f buf = Some (Inr (rv, k'))" using run by (simp add: ret_def)
  next
    fix loop :: "'a env \<Rightarrow> 'a \<Rightarrow> nat \<Rightarrow> bytes \<Rightarrow> (io \<times> 'a) exec" and e k f buf y
    assume IH: "\<And>e k f buf y. loop e k f buf = Some y \<Longrightarrow> e = env \<longrightarrow> y = Inr (rv, k') \<longrightarrow> R k k'"
      and b: "(case sys_write e k f buf of (rv, k) \<Rightarrow> if rv = Eintr then loop e k f buf else ret (rv, k)) = Some y"
    obtain r k1 where c: "sys_write e k f buf = (r, k1)" by (cases "sys_write e k f buf")
    have "R k1 k'" if "e = env" "y = Inr (rv, k')"
      using IH [of e k1 f buf y] b c that framedD(1) [OF fr] by (auto simp: ret_def split: if_splits)
    then show "e = env \<longrightarrow> y = Inr (rv, k') \<longrightarrow> R k k'" using c framedD(2,3) [OF fr] by metis
  qed
  then show ?thesis by simp
qed

lemma read_retry_frame:
  assumes fr: "framed env R" and run: "read_retry env k f cap = ret (rv, bs, k')"
  shows "R k k'"
proof -
  have "env = env \<longrightarrow> Inr (rv, bs, k') = (Inr (rv, bs, k') :: fault + io \<times> bytes \<times> 'a) \<longrightarrow> R k k'"
  proof (rule read_retry.raw_induct [of "\<lambda>e k f n y. e = env \<longrightarrow> y = Inr (rv, bs, k') \<longrightarrow> R k k'"])
    show "read_retry env k f cap = Some (Inr (rv, bs, k'))" using run by (simp add: ret_def)
  next
    fix loop :: "'a env \<Rightarrow> 'a \<Rightarrow> nat \<Rightarrow> nat \<Rightarrow> (io \<times> bytes \<times> 'a) exec" and e k f cap y
    assume IH: "\<And>e k f cap y. loop e k f cap = Some y \<Longrightarrow> e = env \<longrightarrow> y = Inr (rv, bs, k') \<longrightarrow> R k k'"
      and b: "(case sys_read e k f cap of (rv, bs, k) \<Rightarrow> if rv = Eintr then loop e k f cap else ret (rv, bs, k)) = Some y"
    obtain r x k1 where c: "sys_read e k f cap = (r, x, k1)" by (cases "sys_read e k f cap")
    have "R k1 k'" if "e = env" "y = Inr (rv, bs, k')"
      using IH [of e k1 f cap y] b c that framedD(1) [OF fr] by (auto simp: ret_def split: if_splits)
    then show "e = env \<longrightarrow> y = Inr (rv, bs, k') \<longrightarrow> R k k'" using c framedD(2,4) [OF fr] by metis
  qed
  then show ?thesis by simp
qed

section \<open>The loops of the state machine\<close>

text \<open>One round of a loop that goes on as long as its body says so.\<close>

lemma round_cases:
  assumes "bindE m (\<lambda>r. if fst r then g (snd r) else ret (snd r)) = Some (Inr y)"
  obtains t x where "m = ret (t, x)" "t \<Longrightarrow> g x = ret y" "\<not> t \<Longrightarrow> x = y"
  using assms unfolding ret_def [symmetric] bindE_eq_ret_iff by (metis prod.collapse ret_inject)

lemma try_flush_frame:
  assumes fr: "framed env R" and run: "try_flush_buffer env k c = ret (b, k', c')"
  shows "R k k'"
proof -
  obtain buf rv k1 where w: "write_retry env k (fd c) buf = ret (rv, k1)"
    "(case rv of Eagain \<Rightarrow> ret (False, k1, c)
      | Count n \<Rightarrow> (let c = c\<lparr>wbuf_sent := wbuf_sent c + n\<rparr> in
          bindE (assertE (wbuf_sent c \<le> wbuf_size c)) (\<lambda>_. if wbuf_sent c = wbuf_size c
            then ret (False, k1, c\<lparr>state := STATE_REQ, wbuf_size := 0, wbuf_sent := 0\<rparr>) else ret (True, k1, c)))
      | _ \<Rightarrow> ret (False, k1, c\<lparr>state := STATE_END\<rparr>)) = ret (b, k', c')"
    using run unfolding try_flush_buffer_def Let_def bindE_eq_ret_iff by force
  then have "k1 = k'" by (cases rv) (auto simp: Let_def bindE_eq_ret_iff split: if_splits)
  then show ?thesis using write_retry_frame [OF fr w(1)] by simp
qed

lemma state_res_frame:
  assumes fr: "framed env R" and run: "state_res env k c = ret (k', c')"
  shows "R k k'"
proof -
  have "env = env \<longrightarrow> Inr (k', c') = (Inr (k', c') :: fault + 'a \<times> Conn) \<longrightarrow> R k k'"
  proof (rule state_res.raw_induct [of "\<lambda>e k c y. e = env \<longrightarrow> y = Inr (k', c') \<longrightarrow> R k k'"])
    show "state_res env k c = Some (Inr (k', c'))" using run by (simp add: ret_def)
  next
    fix loop :: "'a env \<Rightarrow> 'a \<Rightarrow> Conn \<Rightarrow> ('a \<times> Conn) exec" and e k c y
    assume IH: "\<And>e k c y. loop e k c = Some y \<Longrightarrow> e = env \<longrightarrow> y = Inr (k', c') \<longrightarrow> R k k'"
      and b: "bindE (try_flush_buffer e k c) (\<lambda>r. if fst r then loop e (fst (snd r)) (snd (snd r)) else ret (snd r)) = Some y"
    show "e = env \<longrightarrow> y = Inr (k', c') \<longrightarrow> R k k'"
    proof (intro impI)
      assume a: "e = env" "y = Inr (k', c')"
      obtain t x where t: "try_flush_buffer env k c = ret (t, x)" "t \<Longrightarrow> loop env (fst x) (snd x) = ret (k', c')" "\<not> t \<Longrightarrow> x = (k', c')"
        using round_cases [of _ "\<lambda>x. loop env (fst x) (snd x)", OF b [unfolded a]] by blast
      obtain k1 c1 where x: "x = (k1, c1)" by (cases x)
      have "R k1 k'" using t(2,3) x IH [of env k1 c1] framedD(1) [OF fr] by (cases t) (auto simp: ret_def)
      then show "R k k'" using try_flush_frame [OF fr t(1) [unfolded x]] framedD(2) [OF fr] by blast
    qed
  qed
  then show ?thesis by simp
qed

lemma try_one_request_frame:
  assumes "framed env R" and "try_one_request env s k c = ret (b, s', k', c')"
  shows "R k k'"
  using assms(2) state_res_frame [OF assms(1)] framedD(1) [OF assms(1)]
  by (fastforce simp: try_one_request_def Let_def bindE_eq_ret_iff split: if_splits)

lemma request_loop_frame:
  assumes fr: "framed env R" and run: "request_loop env s k c = ret (s', k', c')"
  shows "R k k'"
proof -
  have "env = env \<longrightarrow> Inr (s', k', c') = (Inr (s', k', c') :: fault + server \<times> 'a \<times> Conn) \<longrightarrow> R k k'"
  proof (rule request_loop.raw_induct [of "\<lambda>e s k c y. e = env \<longrightarrow> y = Inr (s', k', c') \<longrightarrow> R k k'"])
    show "request_loop env s k c = Some (Inr (s', k', c'))" using run by (simp add: ret_def)
  next
    fix loop :: "'a env \<Rightarrow> server \<Rightarrow> 'a \<Rightarrow> Conn \<Rightarrow> (server \<times> 'a \<times> Conn) exec" and e s k c y
    assume IH: "\<And>e s k c y. loop e s k c = Some y \<Longrightarrow> e = env \<longrightarrow> y = Inr (s', k', c') \<longrightarrow> R k k'"
      and b: "bindE (try_one_request e s k c) (\<lambda>r. if fst r then loop e (fst (snd r)) (fst (snd (snd r))) (snd (snd (snd r))) else ret (snd r)) = Some y"
    show "e = env \<longrightarrow> y = Inr (s', k', c') \<longrightarrow> R k k'"
    proof (intro impI)
      assume a: "e = env" "y = Inr (s', k', c')"
      obtain t x where t: "try_one_request env s k c = ret (t, x)"
        "t \<Longrightarrow> loop env (fst x) (fst (snd x)) (snd (snd x)) = ret (s', k', c')" "\<not> t \<Longrightarrow> x = (s', k', c')"
        using round_cases [of _ "\<lambda>x. loop env (fst x) (fst (snd x)) (snd (snd x))", OF b [unfolded a]] by blast
      obtain s1 k1 c1 where x: "x = (s1, k1, c1)" by (cases x)
      have "R k1 k'" using t(2,3) x IH [of env s1 k1 c1] framedD(1) [OF fr] by (cases t) (auto simp: ret_def)
      then show "R k k'" using try_one_request_frame [OF fr t(1) [unfolded x]] framedD(2) [OF fr] by blast
    qed
  qed
  then show ?thesis by simp
qed

lemma try_fill_frame:
  assumes fr: "framed env R" and run: "try_fill_buffer env s k c = ret (b, s', k', c')"
  shows "R k k'"
proof -
  obtain rv bs k1 where r: "read_retry env k (fd c) (BUF_SIZE - rbuf_size c) = ret (rv, bs, k1)"
    using run unfolding try_fill_buffer_def bindE_eq_ret_iff by force
  have "k' = k1 \<or> (\<exists>c1. request_loop env s k1 c1 = ret (s', k', c'))"
    using run r by (cases rv) (auto simp: try_fill_buffer_def Let_def bindE_eq_ret_iff split: if_splits)
  then show ?thesis using read_retry_frame [OF fr r] request_loop_frame [OF fr] framedD(2) [OF fr] by blast
qed

lemma state_req_frame:
  assumes fr: "framed env R" and run: "state_req env s k c = ret (s', k', c')"
  shows "R k k'"
proof -
  have "env = env \<longrightarrow> Inr (s', k', c') = (Inr (s', k', c') :: fault + server \<times> 'a \<times> Conn) \<longrightarrow> R k k'"
  proof (rule state_req.raw_induct [of "\<lambda>e s k c y. e = env \<longrightarrow> y = Inr (s', k', c') \<longrightarrow> R k k'"])
    show "state_req env s k c = Some (Inr (s', k', c'))" using run by (simp add: ret_def)
  next
    fix loop :: "'a env \<Rightarrow> server \<Rightarrow> 'a \<Rightarrow> Conn \<Rightarrow> (server \<times> 'a \<times> Conn) exec" and e s k c y
    assume IH: "\<And>e s k c y. loop e s k c = Some y \<Longrightarrow> e = env \<longrightarrow> y = Inr (s', k', c') \<longrightarrow> R k k'"
      and b: "bindE (try_fill_buffer e s k c) (\<lambda>r. if fst r then loop e (fst (snd r)) (fst (snd (snd r))) (snd (snd (snd r))) else ret (snd r)) = Some y"
    show "e = env \<longrightarrow> y = Inr (s', k', c') \<longrightarrow> R k k'"
    proof (intro impI)
      assume a: "e = env" "y = Inr (s', k', c')"
      obtain t x where t: "try_fill_buffer env s k c = ret (t, x)"
        "t \<Longrightarrow> loop env (fst x) (fst (snd x)) (snd (snd x)) = ret (s', k', c')" "\<not> t \<Longrightarrow> x = (s', k', c')"
        using round_cases [of _ "\<lambda>x. loop env (fst x) (fst (snd x)) (snd (snd x))", OF b [unfolded a]] by blast
      obtain s1 k1 c1 where x: "x = (s1, k1, c1)" by (cases x)
      have "R k1 k'" using t(2,3) x IH [of env s1 k1 c1] framedD(1) [OF fr] by (cases t) (auto simp: ret_def)
      then show "R k k'" using try_fill_frame [OF fr t(1) [unfolded x]] framedD(2) [OF fr] by blast
    qed
  qed
  then show ?thesis by simp
qed

lemma conn_step_frame:
  assumes "framed env R" and "conn_step env s k c = ret (s', k', c')"
  shows "R k k'"
  using assms(2) state_req_frame [OF assms(1)] state_res_frame [OF assms(1)]
  by (auto simp: conn_step_def bindE_eq_ret_iff split: conn_state.splits)

end
