(* ===== verification/System.thy ===== *)
theory System
  imports Connection_Frame "HOL-Library.Signed_Division"
begin

unbundle bit_operations_syntax

text \<open>
  The operating system as the server uses it. A record \<open>'k os\<close> holds one function per system call; each
  acts on the state \<open>'k\<close> of the kernel and returns what the call returns, with the value it leaves in
  \<open>errno\<close> where the code looks at it. Memory for connections comes from \<open>conn_alloc\<close>, which also says
  what the memory happens to contain. Below it are the helpers of \<open>utils.h\<close> and \<open>server.cpp\<close> that only
  wrap system calls: \<open>die\<close>, \<open>fd_set_nb\<close> and \<open>get_monotonic_usec\<close>.
\<close>

section \<open>System calls\<close>

type_synonym u16 = "16 word"

record timespec =
  tv_sec :: int
  tv_nsec :: int

datatype fcntl_cmd = F_GETFL | F_SETFL u32

record sockaddr_in =
  sin_port :: u16
  sin_addr :: u32

record pollfd =
  pfd :: int
  events :: u16

record 'k os =
  net :: "'k env"
  sys_socket :: "'k \<Rightarrow> int \<times> nat \<times> 'k"
  sys_setsockopt :: "'k \<Rightarrow> int \<Rightarrow> 'k"
  sys_bind :: "'k \<Rightarrow> int \<Rightarrow> sockaddr_in \<Rightarrow> int \<times> nat \<times> 'k"
  sys_listen :: "'k \<Rightarrow> int \<Rightarrow> int \<times> nat \<times> 'k"
  sys_accept :: "'k \<Rightarrow> int \<Rightarrow> int \<times> 'k"
  sys_fcntl :: "'k \<Rightarrow> int \<Rightarrow> fcntl_cmd \<Rightarrow> int \<times> nat \<times> 'k"
  sys_close :: "'k \<Rightarrow> int \<Rightarrow> 'k"
  sys_poll :: "'k \<Rightarrow> pollfd list \<Rightarrow> int \<Rightarrow> int \<times> nat \<times> (nat \<Rightarrow> u16) \<times> 'k"
  sys_clock :: "'k \<Rightarrow> timespec \<times> 'k"
  conn_alloc :: "'k \<Rightarrow> Conn store \<Rightarrow> dstore \<Rightarrow> ptr \<times> Conn \<times> DList"

definition O_NONBLOCK :: u32 where "O_NONBLOCK = 0x800"
definition POLLIN :: u16 where "POLLIN = 1"
definition POLLOUT :: u16 where "POLLOUT = 4"
definition POLLERR :: u16 where "POLLERR = 8"

text \<open>The byte order of addresses on the network: the bytes of a number are swapped.\<close>

definition ntohs :: "u16 \<Rightarrow> u16" where
  "ntohs w = push_bit 8 w OR drop_bit 8 w"

definition ntohl :: "u32 \<Rightarrow> u32" where
  "ntohl w = word_of_le (rev (le32 w))"

section \<open>Helpers\<close>

text \<open>\<open>die\<close> prints \<open>errno\<close> and the message and aborts the process.\<close>

definition die :: "nat \<Rightarrow> string \<Rightarrow> 'a exec" where
  "die err message = fault (Aborted err message)"

text \<open>\<open>errno\<close> is set to 0 before each call, so what a call leaves there is 0 unless it failed.\<close>

definition fd_set_nb :: "'k os \<Rightarrow> 'k \<Rightarrow> int \<Rightarrow> 'k exec" where
  "fd_set_nb os k f =
     (case sys_fcntl os k f F_GETFL of (flags, err, k) \<Rightarrow>
      if err \<noteq> 0 then die err ''fcntl error''
      else
        case sys_fcntl os k f (F_SETFL (word_of_int flags OR O_NONBLOCK)) of (_, err, k) \<Rightarrow>
        if err \<noteq> 0 then die err ''fcntl error'' else ret k)"

definition get_monotonic_usec :: "'k os \<Rightarrow> 'k \<Rightarrow> u64 \<times> 'k" where
  "get_monotonic_usec os k =
     (case sys_clock os k of (tv, k) \<Rightarrow>
      (word_of_int (tv_sec tv) * 1000000 + word_of_int (tv_nsec tv sdiv 1000), k))"

section \<open>What the server relies on\<close>

text \<open>
  \<open>sent\<close> and \<open>pending\<close> are the byte streams of the descriptors, as for \<open>net_ok\<close>; \<open>opened\<close> is the set of
  descriptors in use, and \<open>clk\<close> is the time in nanoseconds, of which every reading is a later value. A
  new descriptor is one that is not in use; closing one leaves the others alone; time does not run
  backwards, and stays below \<open>2 ^ 63\<close> microseconds, some 290000 years.
\<close>

definition nsecs :: "timespec \<Rightarrow> int" where
  "nsecs tv = tv_sec tv * 1000000000 + tv_nsec tv"

definition clock_ok :: "'k os \<Rightarrow> ('k \<Rightarrow> nat) \<Rightarrow> bool" where
  "clock_ok os clk \<longleftrightarrow> (\<forall>k. clk k div 1000 < 2 ^ 63) \<and>
     (\<forall>k tv k'. sys_clock os k = (tv, k') \<longrightarrow> 0 \<le> tv_sec tv \<and> 0 \<le> tv_nsec tv \<and> tv_nsec tv < 1000000000 \<and>
        nsecs tv = int (clk k') \<and> clk k \<le> clk k')"

definition same_streams :: "('k \<Rightarrow> nat \<Rightarrow> bytes) \<Rightarrow> ('k \<Rightarrow> nat \<Rightarrow> bytes) \<Rightarrow> nat set \<Rightarrow> 'k \<Rightarrow> 'k \<Rightarrow> bool" where
  "same_streams sent pending A k k' \<longleftrightarrow> (\<forall>g \<in> A. sent k' g = sent k g \<and> pending k' g = pending k g)"

definition calm ::
  "('k \<Rightarrow> nat \<Rightarrow> bytes) \<Rightarrow> ('k \<Rightarrow> nat \<Rightarrow> bytes) \<Rightarrow> ('k \<Rightarrow> nat) \<Rightarrow> ('k \<Rightarrow> nat set) \<Rightarrow> 'k \<Rightarrow> 'k \<Rightarrow> bool" where
  "calm sent pending clk opened k k' \<longleftrightarrow>
     opened k' = opened k \<and> clk k \<le> clk k' \<and> same_streams sent pending (opened k) k k'"

definition os_ok ::
  "'k os \<Rightarrow> ('k \<Rightarrow> nat \<Rightarrow> bytes) \<Rightarrow> ('k \<Rightarrow> nat \<Rightarrow> bytes) \<Rightarrow> ('k \<Rightarrow> nat) \<Rightarrow> ('k \<Rightarrow> nat set) \<Rightarrow> bool" where
  "os_ok os sent pending clk opened \<longleftrightarrow> clock_ok os clk \<and>
     (\<forall>k. calm sent pending clk opened k (snd (sys_clock os k))) \<and>
     (\<forall>k f cmd. calm sent pending clk opened k (snd (snd (sys_fcntl os k f cmd)))) \<and>
     (\<forall>k args tmo. calm sent pending clk opened k (snd (snd (snd (sys_poll os k args tmo))))) \<and>
     framed (net os) (\<lambda>k k'. opened k' = opened k \<and> clk k \<le> clk k') \<and>
     (\<forall>k f k'. sys_close os k f = k' \<longrightarrow>
        opened k' = opened k - {nat f} \<and> clk k \<le> clk k' \<and> same_streams sent pending (opened k - {nat f}) k k') \<and>
     (\<forall>k l f k'. sys_accept os k l = (f, k') \<longrightarrow> clk k \<le> clk k' \<and> same_streams sent pending (opened k) k k' \<and>
        (if f < 0 then opened k' = opened k else nat f \<notin> opened k \<and> opened k' = insert (nat f) (opened k)))"

text \<open>
  The calls that the server can not do without, none of which fails; and that an execution was ended by
  \<open>die\<close> because one of them did.
\<close>

definition obliging :: "'k os \<Rightarrow> bool" where
  "obliging os \<longleftrightarrow> (\<forall>k f a. fst (sys_bind os k f a) = 0) \<and> (\<forall>k f. fst (sys_listen os k f) = 0) \<and>
     (\<forall>k f cmd. fst (snd (sys_fcntl os k f cmd)) = 0) \<and> (\<forall>k args tmo. 0 \<le> fst (sys_poll os k args tmo))"

definition dies :: "'k os \<Rightarrow> 'a exec \<Rightarrow> string \<Rightarrow> bool" where
  "dies os r m \<longleftrightarrow> \<not> obliging os \<and> (\<exists>err. r = fault (Aborted err m))"

text \<open>\<open>malloc\<close> returns memory that is not in use, with room for the two buffers, or null.\<close>

definition fresh_conn :: "'k os \<Rightarrow> bool" where
  "fresh_conn os \<longleftrightarrow> (\<forall>k cs ds a raw node. conn_alloc os k cs ds = (Some a, raw, node) \<longrightarrow>
     cs a = None \<and> ds a = None \<and> length (rbuf raw) = BUF_SIZE \<and> length (wbuf raw) = BUF_SIZE)"

section \<open>The clock\<close>

definition usec :: "('k \<Rightarrow> nat) \<Rightarrow> 'k \<Rightarrow> u64" where
  "usec clk k = of_nat (clk k div 1000)"

lemma unat_usec: "clock_ok os clk \<Longrightarrow> unat (usec clk k) = clk k div 1000"
proof -
  assume "clock_ok os clk"
  then have "clk k div 1000 < 2 ^ 63" by (simp add: clock_ok_def)
  then show ?thesis by (simp add: usec_def unat_of_nat take_bit_nat_eq_self)
qed

lemma usec_small: "clock_ok os clk \<Longrightarrow> usec clk k < 2 ^ 63"
  using unat_usec [of os clk k] by (simp add: word_less_nat_alt clock_ok_def)

lemma usec_mono: "clock_ok os clk \<Longrightarrow> clk k \<le> clk k' \<Longrightarrow> usec clk k \<le> usec clk k'"
  using unat_usec [of os clk] by (simp add: word_le_nat_alt div_le_mono)

text \<open>A reading of the clock is its time in microseconds, rounded down.\<close>

lemma get_monotonic_usec_eq:
  assumes "clock_ok os clk" and "sys_clock os k = (tv, k')"
  shows "get_monotonic_usec os k = (usec clk k', k')"
proof -
  have tv: "0 \<le> tv_sec tv" "0 \<le> tv_nsec tv" "tv_nsec tv < 1000000000" "nsecs tv = int (clk k')"
    using assms unfolding clock_ok_def by blast+
  have "int (clk k' div 1000) = (tv_sec tv * 1000000000 + tv_nsec tv) div 1000"
    using tv(4) by (simp add: nsecs_def zdiv_int)
  also have "\<dots> = tv_sec tv * 1000000 + tv_nsec tv div 1000"
    using div_mult_self3 [of 1000 "tv_sec tv * 1000000" "tv_nsec tv"] by (simp add: algebra_simps)
  also have "\<dots> = tv_sec tv * 1000000 + tv_nsec tv sdiv 1000" using tv(2) by (cases "tv_nsec tv = 0") (simp_all add: signed_divide_int_def)
  finally have "usec clk k' = word_of_int (tv_sec tv * 1000000 + tv_nsec tv sdiv 1000)"
    unfolding usec_def by (metis of_int_of_nat_eq)
  then show ?thesis using assms(2) by (simp add: get_monotonic_usec_def)
qed

section \<open>Calls that change nothing the server can see\<close>

lemma calm_refl [simp]: "calm sent pending clk opened k k"
  by (simp add: calm_def same_streams_def)

lemma calm_trans: "calm sent pending clk opened k k1 \<Longrightarrow> calm sent pending clk opened k1 k2 \<Longrightarrow> calm sent pending clk opened k k2"
  by (auto simp: calm_def same_streams_def)

lemma calmD:
  assumes "calm sent pending clk opened k k'"
  shows "opened k' = opened k" "clk k \<le> clk k'" "f \<in> opened k \<Longrightarrow> sent k' f = sent k f" "f \<in> opened k \<Longrightarrow> pending k' f = pending k f"
  using assms by (simp_all add: calm_def same_streams_def)

lemma get_monotonic_calm:
  assumes "os_ok os sent pending clk opened" and "get_monotonic_usec os k = (t, k')"
  shows "t = usec clk k'" "calm sent pending clk opened k k'"
proof -
  obtain tv k1 where c: "sys_clock os k = (tv, k1)" by (cases "sys_clock os k")
  have "clock_ok os clk" "calm sent pending clk opened k (snd (sys_clock os k))" using assms(1) by (simp_all add: os_ok_def)
  then show "t = usec clk k'" "calm sent pending clk opened k k'"
    using get_monotonic_usec_eq [OF _ c] assms(2) c by simp_all
qed

lemma fd_set_nb_calm:
  assumes "os_ok os sent pending clk opened"
  shows "(\<exists>k'. fd_set_nb os k f = ret k' \<and> calm sent pending clk opened k k') \<or> dies os (fd_set_nb os k f) ''fcntl error''"
proof -
  have c: "calm sent pending clk opened k (snd (snd (sys_fcntl os k f cmd)))" for k cmd using assms by (simp add: os_ok_def)
  obtain flags e1 k1 where g: "sys_fcntl os k f F_GETFL = (flags, e1, k1)" by (cases "sys_fcntl os k f F_GETFL")
  obtain r e2 k2 where s: "sys_fcntl os k1 f (F_SETFL (word_of_int flags OR O_NONBLOCK)) = (r, e2, k2)"
    by (cases "sys_fcntl os k1 f (F_SETFL (word_of_int flags OR O_NONBLOCK))")
  have "calm sent pending clk opened k k2"
    using calm_trans c [of k F_GETFL] c [of k1 "F_SETFL (word_of_int flags OR O_NONBLOCK)"] g s by (metis snd_conv)
  moreover have "\<not> obliging os" if "e1 \<noteq> 0 \<or> e2 \<noteq> 0"
    using that g s unfolding obliging_def by (metis fst_conv snd_conv)
  ultimately show ?thesis using g s by (auto simp: fd_set_nb_def die_def dies_def)
qed

lemma dies_bindE: "dies os m x \<Longrightarrow> dies os (bindE m f) x"
  by (auto simp: dies_def)

lemma dies_die: "\<not> obliging os \<Longrightarrow> dies os (die err m) m"
  by (auto simp: dies_def die_def)

lemma os_okD:
  assumes "os_ok os sent pending clk opened"
  shows "clock_ok os clk" "framed (net os) (\<lambda>k k'. opened k' = opened k \<and> clk k \<le> clk k')"
    "sys_poll os k args tmo = (rv, err, revs, k') \<Longrightarrow> calm sent pending clk opened k k'"
    "sys_close os k g = k' \<Longrightarrow> opened k' = opened k - {nat g} \<and> clk k \<le> clk k' \<and> same_streams sent pending (opened k - {nat g}) k k'"
    "sys_accept os k l = (f, k') \<Longrightarrow> clk k \<le> clk k' \<and> same_streams sent pending (opened k) k k' \<and>
       (if f < 0 then opened k' = opened k else nat f \<notin> opened k \<and> opened k' = insert (nat f) (opened k))"
proof -
  show "clock_ok os clk" "framed (net os) (\<lambda>k k'. opened k' = opened k \<and> clk k \<le> clk k')"
    using assms by (simp_all add: os_ok_def)
  show "calm sent pending clk opened k k'" if "sys_poll os k args tmo = (rv, err, revs, k')"
  proof -
    have "calm sent pending clk opened k (snd (snd (snd (sys_poll os k args tmo))))" using assms by (simp add: os_ok_def)
    then show ?thesis using that by simp
  qed
  show "opened k' = opened k - {nat g} \<and> clk k \<le> clk k' \<and> same_streams sent pending (opened k - {nat g}) k k'" if "sys_close os k g = k'"
    using assms that by (auto simp: os_ok_def)
  show "clk k \<le> clk k' \<and> same_streams sent pending (opened k) k k' \<and>
      (if f < 0 then opened k' = opened k else nat f \<notin> opened k \<and> opened k' = insert (nat f) (opened k))" if "sys_accept os k l = (f, k')"
    using assms that by (simp add: os_ok_def)
qed

end
