(* ===== verification/Event_Loop.thy ===== *)
theory Event_Loop
  imports System
begin

unbundle bit_operations_syntax

text \<open>
  The event loop of \<open>server.cpp\<close>: the table of connections by descriptor, the idle list, the timers, and
  the loop in \<open>main\<close>. The state is the part of \<open>g_data\<close> that the loop uses together with the memory of
  the connections and the state of the kernel, which every system call advances.
\<close>

section \<open>State\<close>

definition K_IDLE_TIMEOUT_MS :: u64 where "K_IDLE_TIMEOUT_MS = 5 * 1000"

record 'k loop =
  srv :: server
  fd2conn :: "ptr list"
  idle_list :: addr
  conns :: "Conn store"
  dnodes :: dstore
  kern :: 'k

text \<open>The zero-initialised \<open>g_data\<close> after \<open>dlist_init\<close>; \<open>idle\<close> is the address of the list head.\<close>

definition loop_init :: "addr \<Rightarrow> DList \<Rightarrow> 'k \<Rightarrow> 'k loop exec" where
  "loop_init idle raw k =
     bindE (dlist_init [idle \<mapsto> raw] (Some idle)) (\<lambda>ds.
     ret \<lparr>srv = server_init, fd2conn = [], idle_list = idle, conns = Map.empty, dnodes = ds, kern = k\<rparr>)"

definition fd_get :: "ptr list \<Rightarrow> nat \<Rightarrow> ptr exec" where
  "fd_get tab f = (if f < length tab then ret (tab ! f) else fault OutOfBounds)"

definition fd_set :: "ptr list \<Rightarrow> nat \<Rightarrow> ptr \<Rightarrow> ptr list exec" where
  "fd_set tab f p = (if f < length tab then ret (tab[f := p]) else fault OutOfBounds)"

section \<open>Opening and closing connections\<close>

definition conn_put :: "ptr list \<Rightarrow> nat \<Rightarrow> addr \<Rightarrow> ptr list exec" where
  "conn_put tab f p =
     (let tab = (if length tab \<le> f then tab @ replicate (f + 1 - length tab) None else tab) in fd_set tab f (Some p))"

definition accept_new_conn :: "'k os \<Rightarrow> int \<Rightarrow> 'k loop \<Rightarrow> (int \<times> 'k loop) exec" where
  "accept_new_conn os lfd st =
     (case sys_accept os (kern st) lfd of (conn_fd, k) \<Rightarrow>
      if conn_fd < 0 then ret (-1, st\<lparr>kern := k\<rparr>)
      else
        bindE (fd_set_nb os k conn_fd) (\<lambda>k.
        case conn_alloc os k (conns st) (dnodes st) of (p, raw, node) \<Rightarrow>
        case p of
          None \<Rightarrow> ret (-1, st\<lparr>kern := sys_close os k conn_fd\<rparr>)
        | Some a \<Rightarrow>
            (case get_monotonic_usec os k of (now_us, k) \<Rightarrow>
             let conn = raw\<lparr>fd := nat conn_fd, state := STATE_REQ, rbuf_size := 0, wbuf_size := 0, wbuf_sent := 0, idle_start := now_us\<rparr> in
             bindE (dlist_insert_before ((dnodes st)(a \<mapsto> node)) (Some (idle_list st)) (Some a)) (\<lambda>ds.
             bindE (conn_put (fd2conn st) (fd conn) a) (\<lambda>tab.
             ret (0, st\<lparr>fd2conn := tab, conns := (conns st)(a \<mapsto> conn), dnodes := ds, kern := k\<rparr>))))))"

definition conn_done :: "'k os \<Rightarrow> 'k loop \<Rightarrow> addr \<Rightarrow> 'k loop exec" where
  "conn_done os st p =
     bindE (rd (conns st) (Some p)) (\<lambda>conn.
     bindE (fd_set (fd2conn st) (fd conn) None) (\<lambda>tab.
     let k = sys_close os (kern st) (int (fd conn)) in
     bindE (dlist_detach (dnodes st) (Some p)) (\<lambda>ds.
     ret (st\<lparr>fd2conn := tab, conns := (conns st)(p := None), dnodes := ds(p := None), kern := k\<rparr>))))"

section \<open>Activity on a connection\<close>

text \<open>
  The connection becomes the most recent one of the idle list, whose nodes are in \<open>ds\<close> with head \<open>idle\<close>,
  and its state machine runs. \<open>p\<close> is the address of the connection.
\<close>

definition connection_io ::
  "'k os \<Rightarrow> dstore \<Rightarrow> addr \<Rightarrow> server \<Rightarrow> 'k \<Rightarrow> addr \<Rightarrow> Conn \<Rightarrow> (dstore \<times> server \<times> 'k \<times> Conn) exec" where
  "connection_io os ds idle s k p conn =
     (case get_monotonic_usec os k of (now_us, k) \<Rightarrow>
      let conn = conn\<lparr>idle_start := now_us\<rparr> in
      bindE (dlist_detach ds (Some p)) (\<lambda>ds.
      bindE (dlist_insert_before ds (Some idle) (Some p)) (\<lambda>ds.
      bindE (conn_step (net os) s k conn) (\<lambda>(s, k, conn). ret (ds, s, k, conn)))))"

section \<open>Timers\<close>

text \<open>The first connection of the idle list, \<open>container_of(g_data.idle_list.next, Conn, idle_list)\<close>.\<close>

definition next_idle :: "'k loop \<Rightarrow> (addr \<times> Conn) exec" where
  "next_idle st =
     bindE (rd (dnodes st) (Some (idle_list st))) (\<lambda>n.
     bindE (rd (conns st) (nxt n)) (\<lambda>conn. ret (the (nxt n), conn)))"

definition next_timer_ms :: "'k os \<Rightarrow> 'k loop \<Rightarrow> (u32 \<times> 'k loop) exec" where
  "next_timer_ms os st =
     (case get_monotonic_usec os (kern st) of (now_us, k) \<Rightarrow>
      let st = st\<lparr>kern := k\<rparr> in
      bindE (dlist_is_empty (dnodes st) (Some (idle_list st))) (\<lambda>e.
      bindE (if \<not> e then bindE (next_idle st) (\<lambda>(_, conn). ret (idle_start conn + K_IDLE_TIMEOUT_MS * 1000))
             else ret (-1)) (\<lambda>next_us.
      let hp = heap (srv st);
          next_us = (if hp \<noteq> [] \<and> val (hp ! 0) < next_us then val (hp ! 0) else next_us) in
      if next_us = -1 then ret (10000, st)
      else if next_us \<le> now_us then ret (0, st)
      else ret (ucast ((next_us - now_us) div 1000), st))))"

partial_function (option) idle_loop :: "'k os \<Rightarrow> u64 \<Rightarrow> 'k loop \<Rightarrow> 'k loop exec" where
  "idle_loop os now_us st =
     bindE (dlist_is_empty (dnodes st) (Some (idle_list st))) (\<lambda>e.
     if e then ret st
     else
       bindE (next_idle st) (\<lambda>r.
       if idle_start (snd r) + K_IDLE_TIMEOUT_MS * 1000 \<ge> now_us then ret st
       else bindE (conn_done os st (fst r)) (\<lambda>st. idle_loop os now_us st)))"

definition process_timers :: "'k os \<Rightarrow> 'k loop \<Rightarrow> 'k loop exec" where
  "process_timers os st =
     (case get_monotonic_usec os (kern st) of (clock, k) \<Rightarrow>
      let now_us = clock + 1000 in
      bindE (idle_loop os now_us (st\<lparr>kern := k\<rparr>)) (\<lambda>st.
      bindE (expire_loop now_us (srv st) 0) (\<lambda>s. ret (st\<lparr>srv := s\<rparr>))))"

section \<open>The loop\<close>

text \<open>The connections among the arguments of \<open>poll\<close>.\<close>

fun poll_args :: "'k loop \<Rightarrow> ptr list \<Rightarrow> pollfd list exec" where
  "poll_args st [] = ret []"
| "poll_args st (None # tab) = poll_args st tab"
| "poll_args st (Some p # tab) =
     bindE (rd (conns st) (Some p)) (\<lambda>conn.
     bindE (poll_args st tab) (\<lambda>args.
     ret (\<lparr>pfd = int (fd conn), events = (if state conn = STATE_REQ then POLLIN else POLLOUT) OR POLLERR\<rparr> # args)))"

text \<open>A ready descriptor: its connection runs, and is destroyed when it ended.\<close>

definition io_step :: "'k os \<Rightarrow> nat \<Rightarrow> 'k loop \<Rightarrow> 'k loop exec" where
  "io_step os f st =
     bindE (fd_get (fd2conn st) f) (\<lambda>p.
     bindE (rd (conns st) p) (\<lambda>conn.
     bindE (connection_io os (dnodes st) (idle_list st) (srv st) (kern st) (the p) conn) (\<lambda>(ds, s, k, conn).
     let st = st\<lparr>srv := s, conns := (conns st)(the p \<mapsto> conn), dnodes := ds, kern := k\<rparr> in
     if state conn = STATE_END then conn_done os st (the p) else ret st)))"

text \<open>The loop over \<open>poll_args\<close> from index \<open>i\<close> on; \<open>revents\<close> are the events that \<open>poll\<close> reported, by index.\<close>

fun io_loop :: "'k os \<Rightarrow> (nat \<Rightarrow> u16) \<Rightarrow> nat \<Rightarrow> pollfd list \<Rightarrow> 'k loop \<Rightarrow> 'k loop exec" where
  "io_loop os revents i [] st = ret st"
| "io_loop os revents i (a # args) st =
     bindE (if revents i \<noteq> 0 then io_step os (nat (pfd a)) st else ret st) (\<lambda>st.
     io_loop os revents (Suc i) args st)"

text \<open>One iteration of the loop in \<open>main\<close>; \<open>lfd\<close> is the listening socket.\<close>

definition loop_body :: "'k os \<Rightarrow> int \<Rightarrow> 'k loop \<Rightarrow> 'k loop exec" where
  "loop_body os lfd st =
     bindE (poll_args st (fd2conn st)) (\<lambda>args.
     bindE (next_timer_ms os st) (\<lambda>(timeout_ms, st).
     case sys_poll os (kern st) (\<lparr>pfd = lfd, events = POLLIN\<rparr> # args) (sint timeout_ms) of (rv, err, revents, k) \<Rightarrow>
     if rv < 0 then die err ''poll''
     else
       bindE (io_loop os revents 1 args (st\<lparr>kern := k\<rparr>)) (\<lambda>st.
       bindE (process_timers os st) (\<lambda>st.
       if revents 0 \<noteq> 0 then bindE (accept_new_conn os lfd st) (\<lambda>(_, st). ret st) else ret st))))"

text \<open>The first \<open>n\<close> iterations.\<close>

primrec loop_run :: "'k os \<Rightarrow> int \<Rightarrow> nat \<Rightarrow> 'k loop \<Rightarrow> 'k loop exec" where
  "loop_run os lfd 0 st = ret st"
| "loop_run os lfd (Suc n) st = bindE (loop_run os lfd n st) (loop_body os lfd)"

end
