(* ===== verification/Avl_Insert.thy ===== *)
theory Avl_Insert
  imports Avl_Spec
begin

text \<open>
  Insertion into the AVL tree. \<open>avl.cpp\<close> leaves the descent to its clients, which know the order: both
  \<open>tree_add\<close> of \<open>zset.cpp\<close> and \<open>add\<close> of \<open>test_avl.cpp\<close> walk down from the root, go left or right by a
  comparison with the new node, and hang it into the empty link they reach. The locale \<open>leaf_insertion\<close>
  states what such a loop does at a node; the effect of the whole loop is proved once.
\<close>

section \<open>Search paths\<close>

fun path :: "('a \<Rightarrow> bool) \<Rightarrow> 'a tree \<Rightarrow> 'a crumb list \<Rightarrow> 'a crumb list" where
  "path lt \<langle>\<rangle> cs = cs"
| "path lt \<langle>l, b, r\<rangle> cs = (if lt b then path lt l (LeftOf b r # cs) else path lt r (RightOf l b # cs))"

lemma plug_path [simp]: "plug_all \<langle>\<rangle> (path lt t cs) = plug_all t cs"
  by (induction lt t cs rule: path.induct) auto

lemma path_Cons: "t \<noteq> \<langle>\<rangle> \<Longrightarrow> path lt t cs \<noteq> []"
proof -
  have "cs \<noteq> [] \<Longrightarrow> path lt t cs \<noteq> []" for lt and t :: "'a tree" and cs
    by (induction lt t cs rule: path.induct) auto
  then show "t \<noteq> \<langle>\<rangle> \<Longrightarrow> path lt t cs \<noteq> []" by (cases t) auto
qed

lemma path_split:
  assumes "sorted_wrt (\<lambda>x y. lt x \<longrightarrow> lt y) (inorder t)"
  shows "ctx_left (path lt t cs) = ctx_left cs @ filter (\<lambda>x. \<not> lt x) (inorder t)"
    "ctx_right (path lt t cs) = filter lt (inorder t) @ ctx_right cs"
proof -
  have none: "filter (\<lambda>x. \<not> lt x) xs = []" "filter lt xs = xs" if "\<forall>x \<in> set xs. lt x" for xs
    using that by (auto simp: filter_empty_conv)
  have all: "filter (\<lambda>x. \<not> lt x) xs = xs" "filter lt xs = []" if "\<forall>x \<in> set xs. \<not> lt x" for xs
    using that by (auto simp: filter_empty_conv)
  have "ctx_left (path lt t cs) = ctx_left cs @ filter (\<lambda>x. \<not> lt x) (inorder t) \<and>
      ctx_right (path lt t cs) = filter lt (inorder t) @ ctx_right cs"
    using assms
  proof (induction lt t cs rule: path.induct)
    case (2 lt l b r cs)
    show ?case
    proof (cases "lt b")
      case True
      then have "\<forall>x \<in> set (inorder r). lt x" using 2(3) by (auto simp: sorted_wrt_append)
      then show ?thesis using True 2 by (auto simp: sorted_wrt_append filter_empty_conv)
    next
      case False
      then have "\<forall>x \<in> set (inorder l). \<not> lt x" using 2(3) by (auto simp: sorted_wrt_append)
      then show ?thesis using False 2 by (auto simp: sorted_wrt_append filter_empty_conv)
    qed
  qed simp
  then show "ctx_left (path lt t cs) = ctx_left cs @ filter (\<lambda>x. \<not> lt x) (inorder t)"
    "ctx_right (path lt t cs) = filter lt (inorder t) @ ctx_right cs" by simp_all
qed

section \<open>The descent\<close>

locale leaf_insertion =
  fixes loop :: "avl_store \<Rightarrow> ptr \<Rightarrow> (avl_store \<times> ptr) exec" and node :: addr
    and before :: "addr \<Rightarrow> bool" and N :: "addr set"
  assumes loop_at: "b \<in> N \<Longrightarrow> ts b = Some n \<Longrightarrow> loop ts (Some b) =
    (if (if before b then left n else right n) = None
     then hang ts (if before b then LeftLink (Some b) else RightLink (Some b)) (Some b) (Some node)
     else loop ts (if before b then left n else right n))"
begin

lemma loop_path:
  "tree_at ts par p t \<Longrightarrow> t \<noteq> \<langle>\<rangle> \<Longrightarrow> set_tree t \<subseteq> N \<Longrightarrow>
   \<exists>c cs'. path before t cs = c # cs' \<and> loop ts p = hang ts (crumb_link c) (Some (crumb_label c)) (Some node)"
proof (induction t arbitrary: par p cs)
  case (Node l b r)
  from Node.prems(1) obtain n where n: "p = Some b" "ts b = Some n" "tree_at ts (Some b) (left n) l"
    "tree_at ts (Some b) (right n) r" by (rule tree_at_cases)
  have "b \<in> N" using Node.prems(3) by simp
  note at_b = loop_at [of b ts n, OF this n(2)]
  show ?case
  proof (cases "if before b then l = \<langle>\<rangle> else r = \<langle>\<rangle>")
    case True
    then show ?thesis using n at_b tree_at_null_iff [OF n(3)] tree_at_null_iff [OF n(4)]
      by (auto split: if_splits)
  next
    case False
    then show ?thesis
      using n at_b tree_at_null_iff [OF n(3)] tree_at_null_iff [OF n(4)] Node.IH(1) [OF n(3)] Node.IH(2) [OF n(4)]
        Node.prems(3) by (auto split: if_splits)
  qed
qed simp

text \<open>The new node ends up between the nodes it does not come before and those it comes before.\<close>

lemma loop_inserts:
  assumes rep: "avl_rep ts root t" and ne: "t \<noteq> \<langle>\<rangle>" and N: "set_tree t \<subseteq> N"
    and srt: "sorted_wrt (\<lambda>x y. before x \<longrightarrow> before y) (inorder t)"
    and leaf: "leaf_at ts node" and new: "node \<notin> set_tree t" and room: "avl_fits (Suc (size t))"
  shows "\<exists>ts' root' t'. loop ts root = ret (ts', root') \<and> avl_rep ts' root' t' \<and>
    inorder t' = filter (\<lambda>x. \<not> before x) (inorder t) @ node # filter before (inorder t) \<and>
    same_outside (insert node (set_tree t)) ts ts'"
proof -
  obtain c cs where c: "path before t [] = c # cs" and
    loop: "loop ts root = hang ts (crumb_link c) (Some (crumb_label c)) (Some node)"
    using loop_path [OF avl_repD(1) [OF rep] ne N, of "[]"] by blast
  have pl: "plug_all \<langle>\<rangle> (c # cs) = t" using plug_path [of before t "[]"] c by simp
  have set: "ctx_set (c # cs) = set_tree t" "ctx_size (c # cs) = size t"
    using set_plug_all [of "\<langle>\<rangle>" "c # cs"] size_plug_all [of "\<langle>\<rangle>" "c # cs"] pl by simp_all
  from path_split [OF srt, of "[]"]
  have lr: "ctx_left (c # cs) = filter (\<lambda>x. \<not> before x) (inorder t)" "ctx_right (c # cs) = filter before (inorder t)"
    by (simp_all add: c)
  show ?thesis using hang_rep [of ts root c cs node] rep leaf new room loop lr unfolding pl set by metis
qed

end

end
