(* ===== verification/Zset_Spec.thy ===== *)
theory Zset_Spec
  imports Zset Avl_Insert
begin

text \<open>
  Correctness of the sorted set. Its comparison is shown to be the lexicographic order on
  \<open>(score, name)\<close>; an invariant ties the two indices to the same set of nodes; and every operation
  is shown to return, to keep the invariant, and to act on the abstract state, which is the finite
  map from names to scores together with the sequence sorted by \<open>(score, name)\<close>.
\<close>

section \<open>The order is lexicographic\<close>

definition zkey :: "ZNode \<Rightarrow> int \<times> bytes" where
  "zkey z = (dbl_key (score z), name z)"

definition zvalid :: "ZNode \<Rightarrow> bool" where
  "zvalid z \<longleftrightarrow> \<not> dbl_nan (score z) \<and> length (name z) < 2 ^ 32"

lemma memcmp_eq: "length xs = length ys \<Longrightarrow> memcmp xs ys (length xs) = 0 \<longleftrightarrow> xs = ys"
  by (induction xs ys rule: list_induct2) auto

lemma memcmp_less:
  "(if memcmp xs ys (min (length xs) (length ys)) \<noteq> 0
    then memcmp xs ys (min (length xs) (length ys)) < 0 else length xs < length ys) \<longleftrightarrow> xs < ys"
proof (induction xs arbitrary: ys)
  case Nil
  then show ?case by (cases ys) simp_all
next
  case (Cons x xs)
  show ?case
  proof (cases ys)
    case (Cons y ys')
    then show ?thesis using Cons.IH [of ys'] by (auto simp: less_imp_neq)
  qed simp
qed

lemma min_u32_eq: "m < 2 ^ 32 \<Longrightarrow> n < 2 ^ 32 \<Longrightarrow> min_u32 m n = min m n"
  by (auto simp: min_u32_def unat_of_nat_u32 min_def)

lemma zless_key:
  assumes "zs a = Some z" "zvalid z" "\<not> dbl_nan sc" "length nm < 2 ^ 32"
  shows "zless zs (Some a) sc nm = ret (zkey z < (dbl_key sc, nm))"
proof -
  have "dbl_eq (score z) sc \<longleftrightarrow> dbl_key (score z) = dbl_key sc" "dbl_lt (score z) sc \<longleftrightarrow> dbl_key (score z) < dbl_key sc"
    using assms(2,3) by (simp_all add: dbl_eq_def dbl_lt_def zvalid_def)
  moreover have "min_u32 (length (name z)) (length nm) = min (length (name z)) (length nm)"
    using assms(2,4) by (simp add: min_u32_eq zvalid_def)
  ultimately show ?thesis
    using assms(1) memcmp_less [of "name z" nm] by (auto simp: zless_def Let_def zkey_def less_prod_def)
qed

lemma zless_node_key:
  assumes "zs a = Some z" "zvalid z" "zs b = Some y" "zvalid y"
  shows "zless_node zs (Some a) (Some b) = ret (zkey z < zkey y)"
  using assms zless_key [of zs a z "score y" "name y"] by (simp add: zless_node_def zkey_def zvalid_def)

section \<open>The loops on the tree\<close>

interpretation zset_insertion:
  leaf_insertion "\<lambda>ts. tree_add_loop ts zs (Some a)" a before "{b. zless_node zs (Some a) (Some b) = ret (before b)}"
  for zs a before
  by unfold_locales (simp add: tree_add_loop.simps [of _ zs "Some a" "Some b" for b] hang_def Let_def)

lemma lower_loop_split:
  assumes "tree_at ts par p t" "\<And>b. b \<in> set_tree t \<Longrightarrow> zless zs (Some b) sc nm = ret (lt b)"
    and "sorted_wrt (\<lambda>x y. lt y \<longrightarrow> lt x) (inorder t)"
  shows "lower_loop ts zs sc nm p found =
    ret (case filter (\<lambda>x. \<not> lt x) (inorder t) of [] \<Rightarrow> found | b # _ \<Rightarrow> Some b)"
  using assms
proof (induction t arbitrary: par p found)
  case Leaf
  then show ?case by (simp add: lower_loop.simps)
next
  case (Node l b r)
  from Node.prems(1) obtain n where n: "p = Some b" "ts b = Some n" "tree_at ts (Some b) (left n) l"
    "tree_at ts (Some b) (right n) r" by (rule tree_at_cases)
  have z: "zless zs (Some b) sc nm = ret (lt b)" using Node.prems(2) by simp
  note IHl = Node.IH(1) [OF n(3)] and IHr = Node.IH(2) [OF n(4)]
  show ?case
  proof (cases "lt b")
    case True
    then have "\<forall>x \<in> set (inorder l). lt x" using Node.prems(3) by (auto simp: sorted_wrt_append)
    then have "filter (\<lambda>x. \<not> lt x) (inorder l) = []" by (auto simp: filter_empty_conv)
    then show ?thesis using True n z IHr [of found] Node.prems(2,3)
      by (simp add: lower_loop.simps [of ts zs sc nm "Some b"] sorted_wrt_append)
  next
    case False
    then show ?thesis using n z IHl [of "Some b"] Node.prems(2,3)
      by (simp add: lower_loop.simps [of ts zs sc nm "Some b"] sorted_wrt_append split: list.splits)
  qed
qed

section \<open>The invariant\<close>

definition zkey_of :: "ZNode store \<Rightarrow> addr \<Rightarrow> int \<times> bytes" where
  "zkey_of zs a = zkey (the (zs a))"

definition zname :: "ZNode store \<Rightarrow> addr \<Rightarrow> bytes" where
  "zname zs a = name (the (zs a))"

definition nodes_ok :: "ZNode store \<Rightarrow> addr set \<Rightarrow> bool" where
  "nodes_ok zs N \<longleftrightarrow> (\<forall>a \<in> N. \<exists>z. zs a = Some z \<and> zvalid z)"

definition zsorted :: "ZNode store \<Rightarrow> addr list \<Rightarrow> bool" where
  "zsorted zs xs \<longleftrightarrow> sorted_wrt (\<lambda>a b. zkey_of zs a < zkey_of zs b) xs"

definition zset_ok :: "zmem \<Rightarrow> ZSet \<Rightarrow> addr tree \<Rightarrow> bool" where
  "zset_ok m zset t \<longleftrightarrow> avl_rep (tnodes m) (tree zset) t \<and>
     hm_small (hnodes m) (hmap zset) (set_tree t) \<and>
     keyed (hnodes m) (set_tree t) (zname (znodes m)) str_hash \<and>
     nodes_ok (znodes m) (set_tree t) \<and> zsorted (znodes m) (inorder t)"

text \<open>The abstract state: names and scores in the order of the tree, and the map they form.\<close>

definition zview :: "zmem \<Rightarrow> addr tree \<Rightarrow> (bytes \<times> u64) list" where
  "zview m t = map (\<lambda>a. (name (the (znodes m a)), score (the (znodes m a)))) (inorder t)"

definition zscores :: "zmem \<Rightarrow> addr tree \<Rightarrow> bytes \<Rightarrow> u64 option" where
  "zscores m t = map_of (zview m t)"

lemma zset_okD:
  assumes "zset_ok m zset t"
  shows "avl_rep (tnodes m) (tree zset) t" "hm_small (hnodes m) (hmap zset) (set_tree t)"
    "keyed (hnodes m) (set_tree t) (zname (znodes m)) str_hash" "nodes_ok (znodes m) (set_tree t)"
    "zsorted (znodes m) (inorder t)"
  using assms by (simp_all add: zset_ok_def)

lemma nodes_okE:
  assumes "nodes_ok zs N" "a \<in> N"
  obtains z where "zs a = Some z" "zvalid z"
  using assms by (auto simp: nodes_ok_def)

lemma zset_ok_empty: "zset_ok m ZSet_default \<langle>\<rangle>"
  by (simp add: zset_ok_def ZSet_default_def hm_small_empty keyed_def nodes_ok_def zsorted_def)

lemma zname_inj: "zset_ok m zset t \<Longrightarrow> inj_on (zname (znodes m)) (set_tree t)"
  by (simp add: zset_ok_def keyed_def)

lemma zview_names: "map fst (zview m t) = map (zname (znodes m)) (inorder t)"
  by (simp add: zview_def zname_def)

lemma zview_distinct: "zset_ok m zset t \<Longrightarrow> distinct (map fst (zview m t))"
  unfolding zview_names using zname_inj [of m zset t] avl_repD(2) [of "tnodes m" "tree zset" t]
  by (simp add: distinct_map zset_ok_def)

lemma zscores_iff:
  assumes "zset_ok m zset t"
  shows "zscores m t nm = Some sc \<longleftrightarrow> (\<exists>a \<in> set_tree t. znodes m a = Some \<lparr>score = sc, name = nm\<rparr>)"
proof -
  have "zscores m t nm = Some sc \<longleftrightarrow> (nm, sc) \<in> set (zview m t)"
    unfolding zscores_def using zview_distinct [OF assms] by (simp add: map_of_eq_Some_iff)
  also have "\<dots> \<longleftrightarrow> (\<exists>a \<in> set_tree t. znodes m a = Some \<lparr>score = sc, name = nm\<rparr>)"
  proof -
    have "(name (the (znodes m a)) = nm \<and> score (the (znodes m a)) = sc) \<longleftrightarrow> znodes m a = Some \<lparr>score = sc, name = nm\<rparr>"
      if "a \<in> set_tree t" for a
      using zset_okD(4) [OF assms] that by (elim nodes_okE) (auto intro: ZNode.equality)
    then show ?thesis by (auto simp: zview_def image_iff)
  qed
  finally show ?thesis .
qed

lemma zscores_at:
  assumes "zset_ok m zset t" "a \<in> set_tree t"
  shows "zscores m t (zname (znodes m) a) = Some (score (the (znodes m a)))"
proof -
  obtain z where z: "znodes m a = Some z" using zset_okD(4) [OF assms(1)] assms(2) by (rule nodes_okE)
  then have "znodes m a = Some \<lparr>score = score z, name = name z\<rparr>" by (simp add: ZNode.equality)
  then have "zscores m t (name z) = Some (score z)"
    unfolding zscores_iff [OF assms(1)] using assms(2) by blast
  then show ?thesis by (simp add: z zname_def)
qed

lemma zscores_None:
  assumes "zset_ok m zset t"
  shows "zscores m t nm = None \<longleftrightarrow> nm \<notin> zname (znodes m) ` set_tree t"
proof
  assume none: "zscores m t nm = None"
  show "nm \<notin> zname (znodes m) ` set_tree t" using zscores_at [OF assms] none by auto
next
  assume no: "nm \<notin> zname (znodes m) ` set_tree t"
  show "zscores m t nm = None"
  proof (rule ccontr)
    assume "zscores m t nm \<noteq> None"
    then obtain sc where "zscores m t nm = Some sc" by blast
    then show False using zscores_iff [OF assms] no by (force simp: zname_def)
  qed
qed

section \<open>Finding a node by name\<close>

lemma hcmp_name:
  assumes "nodes_ok (znodes m) N" "keyed (hnodes m) N (zname (znodes m)) str_hash" "a \<in> N"
  shows "hcmp m (str_hash nm) nm a = ret (zname (znodes m) a = nm)"
proof -
  obtain z where z: "znodes m a = Some z" using assms(1,3) by (rule nodes_okE)
  have "code_of (hnodes m) a = Some (str_hash (zname (znodes m) a))" using assms(2,3) by (simp add: keyed_def)
  then obtain n where n: "hnodes m a = Some n" "hcode n = str_hash (name z)"
    using z by (auto simp: code_of_def zname_def)
  then show ?thesis using z memcmp_eq [of "name z" nm] by (auto simp: hcmp_def zname_def)
qed

lemma zset_lookup_ok:
  assumes ok: "zset_ok m zset t"
  shows "\<exists>p. zset_lookup m zset nm = ret (m, zset, p) \<and> at_key (set_tree t) (zname (znodes m)) nm p"
proof (cases "tree zset = None")
  case True
  then have "t = \<langle>\<rangle>" using avl_rep_null zset_okD(1) [OF ok] by blast
  then show ?thesis using True by (simp add: zset_lookup_def at_key_def)
next
  case False
  note z = zset_okD [OF ok]
  obtain p where "hm_lookup (hnodes m) (hmap zset) (str_hash nm) (hcmp m (str_hash nm) nm) = ret (hnodes m, hmap zset, p)"
    "at_key (set_tree t) (zname (znodes m)) nm p"
    using first_table.lookup_key [OF z(2,3) hcmp_name [OF z(4,3)]] by blast
  then show ?thesis using False by (auto simp: zset_lookup_def Let_def)
qed

lemma at_key_payload:
  assumes "zset_ok m zset t" "at_key (set_tree t) (zname (znodes m)) nm p"
  shows "case p of Some a \<Rightarrow> a \<in> set_tree t \<and> (\<exists>sc. znodes m a = Some \<lparr>score = sc, name = nm\<rparr>)
    | None \<Rightarrow> zscores m t nm = None"
proof (cases p)
  case None
  then show ?thesis using assms zscores_None by (simp add: at_key_def)
next
  case (Some a)
  then have a: "a \<in> set_tree t" "zname (znodes m) a = nm" using assms(2) by (simp_all add: at_key_def)
  then obtain z where "znodes m a = Some z" using zset_okD(4) [OF assms(1)] by (auto elim: nodes_okE)
  moreover have "z = \<lparr>score = score z, name = nm\<rparr>" using a(2) calculation by (simp add: zname_def ZNode.equality)
  ultimately show ?thesis using a(1) Some by auto
qed

section \<open>Inserting into the tree\<close>

lemma zsorted_insert:
  assumes "zsorted zs xs" "\<And>b. b \<in> set xs \<Longrightarrow> zkey_of zs b \<noteq> zkey_of zs a"
  shows "zsorted zs (filter (\<lambda>b. \<not> zkey_of zs a < zkey_of zs b) xs @ a # filter (\<lambda>b. zkey_of zs a < zkey_of zs b) xs)"
proof -
  let ?lt = "\<lambda>b. zkey_of zs a < zkey_of zs b"
  have "sorted_wrt (\<lambda>x y. zkey_of zs x < zkey_of zs y) (filter P xs)" for P
    using assms(1) unfolding zsorted_def by (rule sorted_wrt_filter)
  moreover have "zkey_of zs x < zkey_of zs a" if "x \<in> set xs" "\<not> ?lt x" for x
    using that assms(2) by (meson linorder_neqE)
  ultimately show ?thesis unfolding zsorted_def by (auto simp: sorted_wrt_append intro: less_trans)
qed

lemma tree_add_ok:
  assumes rep: "avl_rep (tnodes m) (tree zset) t" and sorted: "zsorted (znodes m) (inorder t)"
    and valid: "nodes_ok (znodes m) (insert a (set_tree t))" and new: "a \<notin> set_tree t"
    and keys: "\<And>b. b \<in> set_tree t \<Longrightarrow> zkey_of (znodes m) b \<noteq> zkey_of (znodes m) a"
    and leaf: "leaf_at (tnodes m) a" and room: "avl_fits (Suc (size t))"
  obtains ts' root' t' where "tree_add m zset (Some a) = ret (m\<lparr>tnodes := ts'\<rparr>, zset\<lparr>tree := root'\<rparr>)"
    "avl_rep ts' root' t'" "set_tree t' = insert a (set_tree t)" "zsorted (znodes m) (inorder t')"
    "same_outside (insert a (set_tree t)) (tnodes m) ts'"
proof (cases "t = \<langle>\<rangle>")
  case True
  then have "tree zset = None" using rep by simp
  then show thesis using that [of "tnodes m" "Some a" "\<langle>\<langle>\<rangle>, a, \<langle>\<rangle>\<rangle>"] leaf_single [OF leaf] True
    by (simp add: tree_add_def zsorted_def)
next
  case False
  let ?zs = "znodes m" and ?lt = "\<lambda>b. zkey_of (znodes m) a < zkey_of (znodes m) b"
  have zl: "zless_node ?zs (Some a) (Some b) = ret (?lt b)" if "b \<in> set_tree t" for b
    using valid that zless_node_key [of ?zs a] by (auto simp: nodes_ok_def zkey_of_def)
  have "sorted_wrt (\<lambda>x y. ?lt x \<longrightarrow> ?lt y) (inorder t)"
    using sorted unfolding zsorted_def by (rule sorted_wrt_mono_rel [rotated]) (auto intro: less_trans)
  with zl obtain ts' root' t' where h: "tree_add_loop (tnodes m) ?zs (Some a) (tree zset) = ret (ts', root')"
    "avl_rep ts' root' t'" "inorder t' = filter (\<lambda>b. \<not> ?lt b) (inorder t) @ a # filter ?lt (inorder t)"
    "same_outside (insert a (set_tree t)) (tnodes m) ts'"
    using zset_insertion.loop_inserts [where before = ?lt and zs = ?zs, OF rep False _ _ leaf new room] by blast
  have "zsorted ?zs (inorder t')"
    unfolding h(3) using sorted keys by (intro zsorted_insert) auto
  moreover have "set_tree t' = insert a (set_tree t)"
    using arg_cong [OF h(3), of set] by auto
  moreover have "tree zset \<noteq> None" using False avl_rep_null [OF rep] by blast
  then have "tree_add m zset (Some a) = ret (m\<lparr>tnodes := ts'\<rparr>, zset\<lparr>tree := root'\<rparr>)"
    using h(1) by (auto simp: tree_add_def)
  ultimately show thesis using that h(2,4) by simp
qed

section \<open>Adding and updating\<close>

definition zframe :: "addr set \<Rightarrow> zmem \<Rightarrow> zmem \<Rightarrow> bool" where
  "zframe A m m' \<longleftrightarrow> (\<forall>x. x \<notin> A \<longrightarrow>
     tnodes m' x = tnodes m x \<and> hnodes m' x = hnodes m x \<and> znodes m' x = znodes m x)"

lemma zname_upd: "x \<noteq> a \<Longrightarrow> zname (zs(a \<mapsto> z)) x = zname zs x" "zname (zs(a \<mapsto> z)) a = name z"
  by (simp_all add: zname_def)

lemma zkey_upd: "x \<noteq> a \<Longrightarrow> zkey_of (zs(a \<mapsto> z)) x = zkey_of zs x"
  by (simp add: zkey_of_def)

lemma zkey_name: "zname zs x \<noteq> zname zs y \<Longrightarrow> zkey_of zs x \<noteq> zkey_of zs y"
  by (auto simp: zname_def zkey_of_def zkey_def)

lemma zsorted_cong: "(\<And>x. x \<in> set xs \<Longrightarrow> zkey_of zs' x = zkey_of zs x) \<Longrightarrow> zsorted zs' xs = zsorted zs xs"
  unfolding zsorted_def by (induction xs) auto

lemma keyed_cong: "(\<And>a. a \<in> N \<Longrightarrow> key' a = key a) \<Longrightarrow> keyed hs N key' code = keyed hs N key code"
  unfolding keyed_def by (simp add: inj_on_def)

lemma zset_update_ok:
  assumes ok: "zset_ok m zset t" and a: "a \<in> set_tree t" "znodes m a = Some z" and sc: "\<not> dbl_nan sc"
    and ne: "\<not> dbl_eq (score z) sc"
  obtains m' zset' t' where "zset_update m zset (Some a) sc = ret (m', zset')" "zset_ok m' zset' t'"
    "set_tree t' = set_tree t" "znodes m' = (znodes m)(a \<mapsto> z\<lparr>score := sc\<rparr>)" "zframe (set_tree t) m m'"
proof -
  note k = zset_okD [OF ok]
  obtain ts1 root1 t1 where d: "avl_delete (tnodes m) (Some a) = ret (ts1, root1)" "avl_rep ts1 root1 t1"
    "inorder t1 = remove1 a (inorder t)" "same_outside (set_tree t) (tnodes m) ts1"
    using avl_rep_delete [OF k(1) a(1)] .
  have set1: "set_tree t1 = set_tree t - {a}"
    using arg_cong [OF d(3), of set] avl_repD(2) [OF k(1)] by (simp add: set_remove1_eq)
  obtain n where "ts1 a = Some n" using same_outside_alloc [OF d(4)] avl_rep_alloc [OF k(1) a(1)] by metis
  then obtain ts2 where i: "avl_init ts1 (Some a) = ret ts2" "leaf_at ts2 a" "same_outside {a} ts1 ts2"
    using avl_init_leaf by metis
  let ?zs = "(znodes m)(a \<mapsto> z\<lparr>score := sc\<rparr>)" and ?z1 = "zset\<lparr>tree := root1\<rparr>"
  let ?m1 = "m\<lparr>tnodes := ts2, znodes := ?zs\<rparr>"
  have "avl_rep ts2 root1 t1" using d(2) avl_rep_cong [of t1 ts2 ts1] same_outsideD [OF i(3)] set1 by simp
  moreover have names: "zname ?zs x = zname (znodes m) x" for x
    using a(2) by (cases "x = a") (simp_all add: zname_def)
  have "zsorted (znodes m) (inorder t1)"
    using k(5) unfolding d(3) zsorted_def by (rule sorted_wrt_remove1')
  then have "zsorted ?zs (inorder t1)"
    by (subst zsorted_cong) (use set1 zkey_upd in \<open>auto simp flip: set_inorder\<close>)
  moreover have valid: "nodes_ok ?zs (set_tree t)"
    using k(4) a sc by (auto simp: nodes_ok_def zvalid_def)
  moreover have ins: "insert a (set_tree t1) = set_tree t" using set1 a(1) by auto
  moreover have "zkey_of ?zs b \<noteq> zkey_of ?zs a" if "b \<in> set_tree t1" for b
    using zname_inj [OF ok] that set1 a(1) by (intro zkey_name) (auto simp: names inj_on_def)
  moreover have "0 < size t" using a(1) by (cases t) auto
  then have "size t1 < size t" using arg_cong [OF d(3), of length] a(1) by (simp add: length_remove1 del: eq_size_0)
  then have "avl_fits (Suc (size t1))" using avl_repD(4) [OF k(1)] avl_fits_mono Suc_leI by blast
  ultimately obtain ts' root' t' where r: "tree_add ?m1 ?z1 (Some a) = ret (?m1\<lparr>tnodes := ts'\<rparr>, ?z1\<lparr>tree := root'\<rparr>)"
    "avl_rep ts' root' t'" "set_tree t' = set_tree t" "zsorted ?zs (inorder t')" "same_outside (set_tree t) ts2 ts'"
    using i(2) set1 by (rule_tac tree_add_ok [of ?m1 ?z1 t1 a]) (simp_all add: ins)
  let ?m' = "?m1\<lparr>tnodes := ts'\<rparr>"
  have "zset_ok ?m' (?z1\<lparr>tree := root'\<rparr>) t'"
    using r k(2,3) valid keyed_cong [of "set_tree t" "zname ?zs" "zname (znodes m)"] names
    by (simp add: zset_ok_def)
  moreover have "zset_update m zset (Some a) sc = ret (?m', ?z1\<lparr>tree := root'\<rparr>)"
    using a(2) ne d(1) i(1) r(1) by (simp add: zset_update_def)
  moreover have "zframe (set_tree t) m ?m'"
    using same_outsideD [OF d(4)] same_outsideD [OF i(3)] same_outsideD [OF r(5)] a(1)
    by (auto simp: zframe_def)
  ultimately show thesis using that r(3) by simp
qed

lemma zscores_eqI:
  assumes "zset_ok m zset t"
    and "\<And>nm sc. (\<exists>a \<in> set_tree t. znodes m a = Some \<lparr>score = sc, name = nm\<rparr>) \<longleftrightarrow> f nm = Some sc"
  shows "zscores m t = f"
proof
  fix nm
  show "zscores m t nm = f nm"
    using zscores_iff [OF assms(1), of nm] assms(2) [of _ nm] by (cases "f nm") (simp_all, metis not_Some_eq)
qed

lemma zscores_upd:
  assumes ok: "zset_ok m zset t" and ok': "zset_ok m' zset' t'" and set: "set_tree t' = insert a (set_tree t)"
    and zs: "znodes m' = (znodes m)(a \<mapsto> \<lparr>score = sc, name = nm\<rparr>)"
    and other: "\<And>b. b \<in> set_tree t \<Longrightarrow> b \<noteq> a \<Longrightarrow> zname (znodes m) b \<noteq> nm"
    and old: "a \<in> set_tree t \<Longrightarrow> zname (znodes m) a = nm"
  shows "zscores m' t' = (zscores m t)(nm \<mapsto> sc)"
proof (rule zscores_eqI [OF ok'])
  fix nm' sc'
  have "(\<exists>b \<in> set_tree t'. znodes m' b = Some \<lparr>score = sc', name = nm'\<rparr>) \<longleftrightarrow>
      (sc' = sc \<and> nm' = nm \<or> (\<exists>b \<in> set_tree t. b \<noteq> a \<and> znodes m b = Some \<lparr>score = sc', name = nm'\<rparr>))"
    unfolding set zs by auto
  also have "\<dots> \<longleftrightarrow> ((zscores m t)(nm \<mapsto> sc)) nm' = Some sc'"
  proof (cases "nm' = nm")
    case True
    then have "\<not> (b \<noteq> a \<and> znodes m b = Some \<lparr>score = sc', name = nm'\<rparr>)" if "b \<in> set_tree t" for b
      using other [OF that] by (auto simp: zname_def)
    then show ?thesis using True by auto
  next
    case False
    then have "b \<noteq> a" if "b \<in> set_tree t" "znodes m b = Some \<lparr>score = sc', name = nm'\<rparr>" for b
      using old that by (auto simp: zname_def)
    then show ?thesis using zscores_iff [OF ok, of nm' sc'] False by auto
  qed
  finally show "(\<exists>b \<in> set_tree t'. znodes m' b = Some \<lparr>score = sc', name = nm'\<rparr>) \<longleftrightarrow>
      ((zscores m t)(nm \<mapsto> sc)) nm' = Some sc'" .
qed

text \<open>What \<open>zset_add\<close> leaves for a name: an equal score (\<open>-0.0\<close> against \<open>0.0\<close>) is not written.\<close>

definition new_score :: "u64 option \<Rightarrow> u64 \<Rightarrow> u64" where
  "new_score old sc = (case old of None \<Rightarrow> sc | Some s \<Rightarrow> if dbl_eq s sc then s else sc)"

lemma zset_add_existing:
  assumes ok: "zset_ok m zset t" and old: "zscores m t nm = Some s" and sc: "\<not> dbl_nan sc"
  obtains m' zset' t' where "zset_add m zset fresh nm sc = ret (m', zset', False)" "zset_ok m' zset' t'"
    "set_tree t' = set_tree t" "zscores m' t' = (zscores m t)(nm \<mapsto> new_score (Some s) sc)" "zframe (set_tree t) m m'"
proof -
  obtain a where a: "a \<in> set_tree t" "znodes m a = Some \<lparr>score = s, name = nm\<rparr>"
    using old zscores_iff [OF ok] by blast
  then have nm: "zname (znodes m) a = nm" by (simp add: zname_def)
  have lk: "zset_lookup m zset nm = ret (m, zset, Some a)"
    using zset_lookup_ok [OF ok, of nm] at_key_Some_unique [OF zset_okD(3) [OF ok] a(1) nm] by auto
  have other: "zname (znodes m) b \<noteq> nm" if "b \<in> set_tree t" "b \<noteq> a" for b
    using zname_inj [OF ok] that a(1) nm by (auto simp: inj_on_def)
  show thesis
  proof (cases "dbl_eq s sc")
    case True
    then have "zset_update m zset (Some a) sc = ret (m, zset)" using a(2) by (simp add: zset_update_def)
    then show thesis
      using that [of m zset t] lk ok True old by (simp add: zset_add_def new_score_def zframe_def fun_upd_idem)
  next
    case False
    obtain m' zset' t' where u: "zset_update m zset (Some a) sc = ret (m', zset')" "zset_ok m' zset' t'"
      "set_tree t' = set_tree t" "znodes m' = (znodes m)(a \<mapsto> \<lparr>score = sc, name = nm\<rparr>)" "zframe (set_tree t) m m'"
      using zset_update_ok [OF ok a sc] False by auto
    have "zscores m' t' = (zscores m t)(nm \<mapsto> sc)"
      using zscores_upd [OF ok u(2) _ u(4) other] u(3) a(1) nm by (simp add: insert_absorb)
    then show thesis using that [OF _ u(2,3)] u(1,5) lk False by (simp add: zset_add_def new_score_def)
  qed
qed

text \<open>A new node \<open>a\<close> with a name that no member has, in the hash map.\<close>

lemma hash_new:
  assumes ok: "zset_ok m zset t" and absent: "nm \<notin> zname (znodes m) ` set_tree t" and room: "size t + 1 < 32"
    and new: "a \<notin> set_tree t" and z: "name z = nm"
  obtains hs hm where "hm_insert ((hnodes m)(a \<mapsto> \<lparr>hnext = None, hcode = str_hash nm\<rparr>)) (hmap zset) (Some a) = ret (hs, hm)"
    "hm_small hs hm (insert a (set_tree t))" "keyed hs (insert a (set_tree t)) (zname ((znodes m)(a \<mapsto> z))) str_hash"
    "same_outside {a} ((hnodes m)(a \<mapsto> \<lparr>hnext = None, hcode = str_hash nm\<rparr>)) hs"
    "zname ((znodes m)(a \<mapsto> z)) a \<notin> zname ((znodes m)(a \<mapsto> z)) ` set_tree t"
proof -
  note k = zset_okD [OF ok]
  let ?N = "set_tree t" and ?hs = "(hnodes m)(a \<mapsto> \<lparr>hnext = None, hcode = str_hash nm\<rparr>)" and ?zs = "(znodes m)(a \<mapsto> z)"
  have small: "hm_small ?hs (hmap zset) ?N" by (rule hm_small_cong [OF k(2)]) (use new in auto)
  have names: "zname ?zs x = zname (znodes m) x" if "x \<in> ?N" for x using that new by (auto simp: zname_def)
  have "keyed ?hs ?N (zname ?zs) str_hash" using k(3) new names by (auto simp: keyed_def code_of_def inj_on_def)
  moreover have "card ?N = size t" using avl_repD(2) [OF k(1)] by (metis distinct_card length_inorder set_inorder)
  moreover have na: "zname ?zs a \<notin> zname ?zs ` ?N" using absent names z by (auto simp: zname_def image_iff)
  ultimately obtain hs hm where "hm_insert ?hs (hmap zset) (Some a) = ret (hs, hm)"
    "hm_small hs hm (insert a ?N)" "keyed hs (insert a ?N) (zname ?zs) str_hash" "same_outside {a} ?hs hs"
    using first_table.insert_key [OF small, of "zname ?zs" str_hash a "\<lparr>hnext = None, hcode = str_hash nm\<rparr>"] room z
    by (auto simp: zname_def)
  then show thesis using that na by blast
qed

lemma zset_add_new:
  assumes ok: "zset_ok m zset t" and none: "zscores m t nm = None" and sc: "\<not> dbl_nan sc"
    and nm: "length nm < 2 ^ 32" and room: "size t + 1 < 32"
    and fresh: "tnodes m a = None" "hnodes m a = None" "znodes m a = None"
  obtains m' zset' t' where "zset_add m zset (Some a) nm sc = ret (m', zset', True)" "zset_ok m' zset' t'"
    "set_tree t' = insert a (set_tree t)" "zscores m' t' = (zscores m t)(nm \<mapsto> sc)"
    "zframe (insert a (set_tree t)) m m'"
proof -
  note k = zset_okD [OF ok]
  let ?N = "set_tree t" and ?z = "\<lparr>score = sc, name = nm\<rparr>"
  have new: "a \<notin> ?N" using k(4) fresh(3) by (auto simp: nodes_ok_def)
  have absent: "nm \<notin> zname (znodes m) ` ?N" using none zscores_None [OF ok] by blast
  obtain p where p: "zset_lookup m zset nm = ret (m, zset, p)" "at_key ?N (zname (znodes m)) nm p"
    using zset_lookup_ok [OF ok, of nm] by blast
  then have "p = None" using absent by (cases p) (auto simp: at_key_def)
  with p(1) have lk: "zset_lookup m zset nm = ret (m, zset, None)" by simp
  let ?ts0 = "(tnodes m)(a \<mapsto> \<lparr>depth = 0, cnt = 0, left = None, right = None, parent = None\<rparr>)"
  obtain ts1 where i: "leaf_at ts1 a" "same_outside {a} ?ts0 ts1" "avl_init ?ts0 (Some a) = ret ts1"
    using avl_init_leaf [of ?ts0 a] by auto
  define hs1 where "hs1 = (hnodes m)(a \<mapsto> \<lparr>hnext = None, hcode = str_hash nm\<rparr>)"
  define zs1 where "zs1 = (znodes m)(a \<mapsto> ?z)"
  have ts1: "ts1 x = tnodes m x" if "x \<noteq> a" for x using same_outsideD [OF i(2), of x] that by simp
  obtain hs2 hm2 where h: "hm_insert hs1 (hmap zset) (Some a) = ret (hs2, hm2)"
    "hm_small hs2 hm2 (insert a ?N)" "keyed hs2 (insert a ?N) (zname zs1) str_hash" "same_outside {a} hs1 hs2"
    "zname zs1 a \<notin> zname zs1 ` ?N"
    unfolding hs1_def zs1_def by (rule hash_new [OF ok absent room new, of ?z]) simp_all
  let ?m1 = "m\<lparr>tnodes := ts1, znodes := zs1, hnodes := hs2\<rparr>" and ?z1 = "zset\<lparr>hmap := hm2\<rparr>"
  have "avl_rep ts1 (tree zset) t" using k(1) avl_rep_cong [of t ts1 "tnodes m"] ts1 new by metis
  moreover have "zkey_of zs1 x = zkey_of (znodes m) x" if "x \<in> ?N" for x
    using that new by (auto simp: zs1_def zkey_of_def)
  then have "zsorted zs1 (inorder t)" using k(5) zsorted_cong [of "inorder t" zs1 "znodes m"] by simp
  moreover have valid: "nodes_ok zs1 (insert a ?N)"
    using k(4) sc nm by (auto simp: nodes_ok_def zs1_def zvalid_def)
  moreover have "zkey_of zs1 b \<noteq> zkey_of zs1 a" if "b \<in> ?N" for b using h(5) that by (intro zkey_name) (metis imageI)
  moreover have "avl_fits (Suc (size t))" using room by (simp add: avl_fits_def)
  ultimately obtain ts' root' t' where r: "tree_add ?m1 ?z1 (Some a) = ret (?m1\<lparr>tnodes := ts'\<rparr>, ?z1\<lparr>tree := root'\<rparr>)"
    "avl_rep ts' root' t'" "set_tree t' = insert a ?N" "zsorted zs1 (inorder t')" "same_outside (insert a ?N) ts1 ts'"
    using i(1) new by (rule_tac tree_add_ok [of ?m1 ?z1 t a]) simp_all
  let ?m' = "?m1\<lparr>tnodes := ts'\<rparr>" and ?z' = "?z1\<lparr>tree := root'\<rparr>"
  have ok': "zset_ok ?m' ?z' t'" using r h valid by (simp add: zset_ok_def)
  moreover have "zset_add m zset (Some a) nm sc = ret (?m', ?z', True)"
    using lk i(3) h(1) r(1) by (simp add: zset_add_def znode_new_def hs1_def zs1_def)
  moreover have "zscores ?m' t' = (zscores m t)(nm \<mapsto> sc)"
    using zscores_upd [OF ok ok' r(3), of sc nm] absent new by (auto simp: zs1_def)
  moreover have "zframe (insert a ?N) m ?m'"
    using ts1 same_outsideD [OF r(5)] same_outsideD [OF h(4)] by (auto simp: zframe_def hs1_def zs1_def)
  ultimately show thesis using that r(3) by blast
qed

section \<open>Removal by name\<close>

lemma zset_pop_ok:
  assumes ok: "zset_ok m zset t"
  obtains m' zset' p t' where "zset_pop m zset nm = ret (m', zset', p)" "at_key (set_tree t) (zname (znodes m)) nm p"
    "zset_ok m' zset' t'" "set_tree t' = set_tree t - set_option p" "znodes m' = znodes m"
    "zframe (set_tree t) m m'"
proof (cases "tree zset = None")
  case True
  then have "t = \<langle>\<rangle>" using avl_rep_null zset_okD(1) [OF ok] by blast
  then show thesis using that [of m zset None t] True ok by (simp add: zset_pop_def at_key_def zframe_def)
next
  case False
  note k = zset_okD [OF ok]
  let ?N = "set_tree t"
  obtain hs' hm' p where p: "hm_pop (hnodes m) (hmap zset) (str_hash nm) (hcmp m (str_hash nm) nm) = ret (hs', hm', p)"
    "at_key ?N (zname (znodes m)) nm p" "hm_small hs' hm' (?N - set_option p)"
    "keyed hs' (?N - set_option p) (zname (znodes m)) str_hash" "same_outside ?N (hnodes m) hs'"
    using first_table.pop_key [OF k(2,3) hcmp_name [OF k(4,3)]] by blast
  show thesis
  proof (cases p)
    case None
    then have "zset_pop m zset nm = ret (m\<lparr>hnodes := hs'\<rparr>, zset\<lparr>hmap := hm'\<rparr>, None)"
      using False p(1) by (auto simp: zset_pop_def Let_def)
    moreover have "zset_ok (m\<lparr>hnodes := hs'\<rparr>) (zset\<lparr>hmap := hm'\<rparr>) t"
      using k p None by (simp add: zset_ok_def)
    moreover have "zframe ?N m (m\<lparr>hnodes := hs'\<rparr>)" using same_outsideD [OF p(5)] by (simp add: zframe_def)
    ultimately show thesis using that p(2) None by simp
  next
    case (Some a)
    then have a: "a \<in> ?N" using p(2) by (simp add: at_key_def)
    obtain ts1 root1 t1 where d: "avl_delete (tnodes m) (Some a) = ret (ts1, root1)" "avl_rep ts1 root1 t1"
      "inorder t1 = remove1 a (inorder t)" "same_outside ?N (tnodes m) ts1" using avl_rep_delete [OF k(1) a] .
    have set1: "set_tree t1 = ?N - {a}"
      using arg_cong [OF d(3), of set] avl_repD(2) [OF k(1)] by (simp add: set_remove1_eq)
    let ?m = "m\<lparr>hnodes := hs', tnodes := ts1\<rparr>" and ?z = "zset\<lparr>hmap := hm', tree := root1\<rparr>"
    have "zset_pop m zset nm = ret (?m, ?z, Some a)" using False p(1) Some d(1) by (auto simp: zset_pop_def Let_def)
    moreover have "nodes_ok (znodes m) (set_tree t1)" using k(4) set1 by (simp add: nodes_ok_def)
    then have "zset_ok ?m ?z t1"
      using d(2,3) p Some set1 sorted_wrt_remove1' k(5) by (simp add: zset_ok_def zsorted_def)
    moreover have "zframe ?N m ?m"
      using same_outsideD [OF p(5)] same_outsideD [OF d(4)] by (simp add: zframe_def)
    ultimately show thesis using that [of ?m ?z "Some a" t1] p(2) Some set1 by simp
  qed
qed

lemma zscores_removed:
  assumes ok: "zset_ok m zset t" and ok': "zset_ok m' zset' t'" and p: "at_key (set_tree t) (zname (znodes m)) nm p"
    and set: "set_tree t' = set_tree t - set_option p" and zs: "znodes m' = znodes m"
  shows "zscores m' t' = (zscores m t)(nm := None)"
proof (rule zscores_eqI [OF ok'])
  fix nm' sc'
  have iff: "b \<in> set_tree t' \<longleftrightarrow> nm' \<noteq> nm" if b: "b \<in> set_tree t" "znodes m b = Some \<lparr>score = sc', name = nm'\<rparr>" for b
  proof -
    have nm': "zname (znodes m) b = nm'" using b(2) by (simp add: zname_def)
    show ?thesis
    proof (cases p)
      case None
      then show ?thesis using p b(1) set nm' by (auto simp: at_key_def)
    next
      case (Some a)
      then have "a \<in> set_tree t" "zname (znodes m) a = nm" using p by (simp_all add: at_key_def)
      then have "b = a \<longleftrightarrow> nm' = nm" using inj_onD [OF zname_inj [OF ok], of b a] b(1) nm' by auto
      then show ?thesis using Some set b(1) by simp
    qed
  qed
  have "set_tree t' \<subseteq> set_tree t" using set by auto
  then show "(\<exists>b \<in> set_tree t'. znodes m' b = Some \<lparr>score = sc', name = nm'\<rparr>) \<longleftrightarrow>
      ((zscores m t)(nm := None)) nm' = Some sc'"
    unfolding zs using zscores_iff [OF ok, of nm' sc'] iff by auto
qed

section \<open>Range query\<close>

definition zrank :: "ZNode store \<Rightarrow> addr list \<Rightarrow> int \<times> bytes \<Rightarrow> nat" where
  "zrank zs xs k = length (filter (\<lambda>a. zkey_of zs a < k) xs)"

lemma sorted_split:
  "sorted_wrt (\<lambda>x y. P y \<longrightarrow> P x) xs \<Longrightarrow> xs = filter P xs @ filter (\<lambda>x. \<not> P x) xs"
proof (induction xs)
  case (Cons x xs)
  show ?case
  proof (cases "P x")
    case False
    then have "filter P xs = []" using Cons.prems by (auto simp: filter_empty_conv)
    then show ?thesis using Cons False by simp
  qed (use Cons in simp)
qed simp

lemma zset_query_ok:
  assumes ok: "zset_ok m zset t" and sc: "\<not> dbl_nan sc" and nm: "length nm < 2 ^ 32"
  shows "zset_query m zset sc nm off =
    (let xs = inorder t; i = zrank (znodes m) xs (dbl_key sc, nm) in
     ret (if i < length xs then nth_opt xs (int i + off) else None))"
proof -
  note k = zset_okD [OF ok]
  let ?lt = "\<lambda>b. zkey_of (znodes m) b < (dbl_key sc, nm)" and ?xs = "inorder t"
  have zl: "zless (znodes m) (Some b) sc nm = ret (?lt b)" if "b \<in> set_tree t" for b
    using k(4) that zless_key [of "znodes m" b] sc nm by (auto simp: nodes_ok_def zkey_of_def)
  have mono: "sorted_wrt (\<lambda>x y. ?lt y \<longrightarrow> ?lt x) ?xs"
    using k(5) unfolding zsorted_def by (rule sorted_wrt_mono_rel [rotated]) (auto intro: less_trans)
  have loop: "lower_loop (tnodes m) (znodes m) sc nm (tree zset) None =
      ret (case filter (\<lambda>x. \<not> ?lt x) ?xs of [] \<Rightarrow> None | b # _ \<Rightarrow> Some b)"
    by (rule lower_loop_split [OF avl_repD(1) [OF k(1)] zl mono])
  have split: "?xs = filter ?lt ?xs @ filter (\<lambda>x. \<not> ?lt x) ?xs" using sorted_split [OF mono] .
  let ?i = "zrank (znodes m) ?xs (dbl_key sc, nm)"
  show ?thesis
  proof (cases "filter (\<lambda>x. \<not> ?lt x) ?xs")
    case Nil
    then have "\<not> ?i < length ?xs" using arg_cong [OF split, of length] by (simp add: zrank_def)
    then show ?thesis using loop Nil by (simp add: zset_query_def Let_def)
  next
    case (Cons b bs)
    then have i: "?i < length ?xs" "?xs ! ?i = b"
      using arg_cong [OF split, of length] arg_cong [OF split, of "\<lambda>ys. ys ! ?i"] by (auto simp: zrank_def nth_append)
    then show ?thesis using loop Cons avl_rep_offset [OF k(1) i] by (simp add: zset_query_def Let_def)
  qed
qed

section \<open>Disposal\<close>

definition zfree :: "addr set \<Rightarrow> zmem \<Rightarrow> zmem" where
  "zfree A m = m\<lparr>tnodes := (\<lambda>x. if x \<in> A then None else tnodes m x),
     hnodes := (\<lambda>x. if x \<in> A then None else hnodes m x), znodes := (\<lambda>x. if x \<in> A then None else znodes m x)\<rparr>"

lemma zfree_simps [simp]:
  "tnodes (zfree A m) x = (if x \<in> A then None else tnodes m x)"
  "znodes (zfree A m) x = (if x \<in> A then None else znodes m x)"
  by (simp_all add: zfree_def)

lemma zfree_Un: "zfree A (zfree B m) = zfree (A \<union> B) m"
  by (rule zmem.equality) (auto simp: zfree_def)

lemma tree_dispose_frees:
  assumes "tree_at (tnodes m) par p t" "distinct (inorder t)" "\<And>a. a \<in> set_tree t \<Longrightarrow> \<exists>z. znodes m a = Some z"
  shows "tree_dispose m p = ret (zfree (set_tree t) m)"
  using assms
proof (induction t arbitrary: m par p)
  case Leaf
  then show ?case by (simp add: tree_dispose.simps zfree_def)
next
  case (Node l a r)
  from Node.prems(1) obtain n where n: "p = Some a" "tnodes m a = Some n" "tree_at (tnodes m) (Some a) (left n) l"
    "tree_at (tnodes m) (Some a) (right n) r" by (rule tree_at_cases)
  have d: "a \<notin> set_tree l" "a \<notin> set_tree r" "set_tree l \<inter> set_tree r = {}" "distinct (inorder l)" "distinct (inorder r)"
    using Node.prems(2) by auto
  let ?ml = "zfree (set_tree l) m" and ?mr = "zfree (set_tree r) (zfree (set_tree l) m)"
  have l: "tree_dispose m (left n) = ret ?ml" using Node.IH(1) [OF n(3) d(4)] Node.prems(3) by simp
  have "tnodes ?ml x = tnodes m x" if "x \<in> set_tree r" for x using d(3) that by auto
  then have "tree_at (tnodes ?ml) (Some a) (right n) r" using n(4) tree_at_cong by metis
  then have r: "tree_dispose ?ml (right n) = ret ?mr"
    by (rule Node.IH(2) [OF _ d(5)]) (use d(3) Node.prems(3) in auto)
  obtain z where z: "znodes m a = Some z" using Node.prems(3) [of a] by auto
  have "znode_del ?mr (Some a) = ret (zfree {a} ?mr)"
    using z d by (auto simp: znode_del_def zfree_def fun_eq_iff intro!: zmem.equality)
  then show ?case
    using n(1,2) l r d by (simp add: tree_dispose.simps [of m "Some a"] zfree_Un Un_commute)
qed

lemma zset_dispose_ok:
  assumes "zset_ok m zset t"
  shows "zset_dispose m zset = ret (zfree (set_tree t) m, zset\<lparr>hmap := HMap_default\<rparr>)"
proof -
  note k = zset_okD [OF assms]
  have "tree_dispose m (tree zset) = ret (zfree (set_tree t) m)"
    using k(4) by (intro tree_dispose_frees [OF avl_repD(1,2) [OF k(1)]]) (auto simp: nodes_ok_def)
  then show ?thesis by (simp add: zset_dispose_def hm_destroy_def)
qed

end
