(* ===== verification/Client.thy ===== *)
theory Client
  imports Request
begin

text \<open>
  The response side of \<open>client.cpp\<close>: \<open>on_response\<close> decodes and prints a serialised value,
  \<open>read_res\<close> receives one framed response, \<open>query\<close> is the plain-text exchange and \<open>client_run\<close> the
  body of \<open>main\<close> once the socket is connected. Standard output is returned as a list of items;
  the diagnostics on standard error are not modelled.
\<close>

section \<open>Decoding and printing a response\<close>

datatype printed =
    PNil
  | PErr u32 bytes
  | PStr bytes
  | PInt u64
  | PDbl u64
  | PArr u32
  | PArrEnd
  | PSays bytes

text \<open>
  \<open>printf("%.*s", len, p)\<close>: the precision is read as an \<open>int\<close>, and a negative one counts as absent.
  Bytes are read up to a NUL or up to the precision, and the NUL is not printed. \<open>data\<close> is the memory
  from the pointer to the end of the array that it points into: memory past the array must not be read.
\<close>

definition print_prec :: "bytes \<Rightarrow> nat \<Rightarrow> u32 \<Rightarrow> bytes exec" where
  "print_prec data pos len = (let s = drop pos data in
     if sint len < 0 then (if 0 \<in> set s then ret (c_string s) else fault OutOfBounds)
     else if unat len \<le> length s \<or> 0 \<in> set s then ret (c_string (take (unat len) s))
     else fault OutOfBounds)"

definition read_u8 :: "bytes \<Rightarrow> nat \<Rightarrow> u8 exec" where
  "read_u8 buf pos = (if pos < length buf then ret (buf ! pos) else fault OutOfBounds)"

text \<open>
  \<open>on_elems\<close> is the element loop of an array: \<open>n\<close> elements are still to come, and the bytes before
  \<open>arr_bytes\<close> have been dealt with. The decoder of the elements is \<open>on_response\<close> itself, which the
  definition below passes as \<open>resp\<close>. \<open>sz - arr_bytes\<close> is a \<open>size_t\<close> difference and wraps.
\<close>

primrec on_elems ::
  "(bytes \<Rightarrow> u64 \<Rightarrow> (u32 \<times> printed list) exec) \<Rightarrow> bytes \<Rightarrow> u64 \<Rightarrow> nat \<Rightarrow> u64 \<Rightarrow> printed list
   \<Rightarrow> (u32 \<times> printed list) exec" where
  "on_elems resp data sz 0 arr_bytes printed = ret (ucast arr_bytes, printed @ [PArrEnd])"
| "on_elems resp data sz (Suc n) arr_bytes printed =
     bindE (resp (drop (unat arr_bytes) data) (sz - arr_bytes)) (\<lambda>(rv, p).
       if sint rv < 0 then ret (rv, printed @ p)
       else on_elems resp data sz n (arr_bytes + ucast rv) (printed @ p))"

lemma on_elems_mono [partial_function_mono]:
  assumes "\<And>d s. mono_option (\<lambda>f. B d s f)"
  shows "mono_option (\<lambda>f. on_elems (\<lambda>d s. B d s f) data sz n arr_bytes printed)"
proof (induction n arbitrary: arr_bytes printed)
  case (Suc n)
  show ?case unfolding on_elems.simps
    by (intro bindE_mono assms) (auto intro!: Suc.IH partial_function_mono split: prod.split)
qed (simp add: monotone_def option.leq_refl)

text \<open>
  \<open>sz\<close> is the number of bytes that were received and \<open>data\<close> the memory up to the end of the array
  they are in, which may be longer. The result is the returned \<open>int32_t\<close>. The sums \<open>1 + 8 + len\<close> and
  \<open>1 + 4 + len\<close> are \<open>uint32_t\<close> sums.
\<close>

partial_function (option) on_response :: "bytes \<Rightarrow> u64 \<Rightarrow> (u32 \<times> printed list) exec" where
  "on_response data sz =
     (if sz < 1 then ret (-1, [])
      else bindE (read_u8 data 0) (\<lambda>tag.
        if tag = SER_NIL then ret (1, [PNil])
        else if tag = SER_ERR then
          if sz < 1 + 8 then ret (-1, [])
          else bindE (read_u32 data 1) (\<lambda>code. bindE (read_u32 data (1 + 4)) (\<lambda>len.
            if sz < ucast (1 + 8 + len) then ret (-1, [])
            else bindE (print_prec data (1 + 8) len) (\<lambda>s. ret (1 + 8 + len, [PErr code s]))))
        else if tag = SER_STR then
          if sz < 1 + 4 then ret (-1, [])
          else bindE (read_u32 data 1) (\<lambda>len.
            if sz < ucast (1 + 4 + len) then ret (-1, [])
            else bindE (print_prec data (1 + 4) len) (\<lambda>s. ret (1 + 4 + len, [PStr s])))
        else if tag = SER_INT then
          if sz < 1 + 8 then ret (-1, [])
          else bindE (read_u64 data 1) (\<lambda>val. ret (1 + 8, [PInt val]))
        else if tag = SER_DBL then
          if sz < 1 + 8 then ret (-1, [])
          else bindE (read_u64 data 1) (\<lambda>val. ret (1 + 8, [PDbl val]))
        else if tag = SER_ARR then
          if sz < 1 + 4 then ret (-1, [])
          else bindE (read_u32 data 1) (\<lambda>len.
            on_elems (\<lambda>d s. on_response d s) data sz (unat len) (1 + 4) [PArr len])
        else ret (-1, [])))"

section \<open>Receiving a response\<close>

text \<open>
  The receive buffer \<open>read_buf\<close> has \<open>4 + K_MAX_MSG + 1\<close> bytes and is not initialised: \<open>raw i\<close> is what its
  byte \<open>i\<close> holds before the call, so behind a body of \<open>len\<close> bytes lie the bytes \<open>raw (4 + len)\<close> onwards.
  A body of at most \<open>K_MAX_MSG\<close> bytes and the terminator written by \<open>query\<close> fit.
\<close>

definition read_buf_from :: "(nat \<Rightarrow> u8) \<Rightarrow> nat \<Rightarrow> bytes" where
  "read_buf_from raw i = map raw [i ..< 4 + K_MAX_MSG + 1]"

definition read_res ::
  "(nat \<Rightarrow> u8) \<Rightarrow> ('k \<Rightarrow> nat \<Rightarrow> int \<times> bytes \<times> 'k) \<Rightarrow> 'k \<Rightarrow> (int \<times> printed list \<times> 'k) exec" where
  "read_res raw sys_read k =
     bindE (read_full sys_read k 4 []) (\<lambda>(err, read_buf, k).
     if err \<noteq> 0 then ret (err, [], k)
     else bindE (read_u32 read_buf 0) (\<lambda>len.
       if unat len > K_MAX_MSG then ret (-1, [], k)
       else bindE (read_full sys_read k (unat len) []) (\<lambda>(err, body, k).
         if err \<noteq> 0 then ret (err, [], k)
         else bindE (on_response (body @ read_buf_from raw (4 + unat len)) (ucast len)) (\<lambda>(rv, printed).
           ret (if sint rv > 0 \<and> rv \<noteq> len then -1 else sint rv, printed, k)))))"

definition client_run ::
  "(nat \<Rightarrow> u8) \<Rightarrow> ('k \<Rightarrow> bytes \<Rightarrow> int \<times> 'k) \<Rightarrow> ('k \<Rightarrow> nat \<Rightarrow> int \<times> bytes \<times> 'k) \<Rightarrow> 'k \<Rightarrow> bytes list
   \<Rightarrow> (printed list \<times> 'k) exec" where
  "client_run raw sys_write sys_read k argv =
     bindE (send_req sys_write k (map c_string (tl argv))) (\<lambda>(err, k).
     if err \<noteq> 0 then ret ([], k)
     else bindE (read_res raw sys_read k) (\<lambda>(err, printed, k). ret (printed, k)))"

definition query ::
  "('k \<Rightarrow> bytes \<Rightarrow> int \<times> 'k) \<Rightarrow> ('k \<Rightarrow> nat \<Rightarrow> int \<times> bytes \<times> 'k) \<Rightarrow> 'k \<Rightarrow> bytes
   \<Rightarrow> (int \<times> printed list \<times> 'k) exec" where
  "query sys_write sys_read k text = (let len = of_nat (length (c_string text)) :: u32 in
     if unat len > K_MAX_MSG then ret (-1, [], k)
     else
       bindE (write_bytes (replicate (4 + K_MAX_MSG) 0) 0 (le32 len)) (\<lambda>write_buf.
       bindE (write_bytes write_buf 4 (take (unat len) (c_string text))) (\<lambda>write_buf.
       bindE (write_all sys_write k (take (4 + unat len) write_buf)) (\<lambda>(err, k).
       if err \<noteq> 0 then ret (err, [], k)
       else bindE (read_full sys_read k 4 []) (\<lambda>(err, read_buf, k).
         if err \<noteq> 0 then ret (err, [], k)
         else bindE (read_u32 read_buf 0) (\<lambda>len.
           if unat len > K_MAX_MSG then ret (-1, [], k)
           else bindE (read_full sys_read k (unat len) []) (\<lambda>(err, body, k).
             if err \<noteq> 0 then ret (err, [], k)
             else ret (0, [PSays (c_string (body @ [0]))], k))))))))"

section \<open>Serialised values\<close>

datatype val = VNil | VErr u32 bytes | VStr bytes | VInt u64 | VDbl u64 | VArr "val list"

text \<open>
  The bytes that the \<open>out_\<close> functions append for a value, and the lines the client prints for it: as
  \<open>printf("%.*s")\<close> does, a string or an error message is shown up to its first NUL byte only.
\<close>

fun encode :: "val \<Rightarrow> bytes" where
  "encode VNil = out_nil []"
| "encode (VErr code m) = out_err [] code m"
| "encode (VStr s) = out_str [] s"
| "encode (VInt v) = out_int [] v"
| "encode (VDbl v) = out_double [] v"
| "encode (VArr vs) = out_arr [] (of_nat (length vs)) @ concat (map encode vs)"

fun shown :: "val \<Rightarrow> printed list" where
  "shown VNil = [PNil]"
| "shown (VErr code m) = [PErr code (c_string m)]"
| "shown (VStr s) = [PStr (c_string s)]"
| "shown (VInt v) = [PInt v]"
| "shown (VDbl v) = [PDbl v]"
| "shown (VArr vs) = PArr (of_nat (length vs)) # concat (map shown vs) @ [PArrEnd]"

text \<open>The number of bytes a value takes, with the string lengths not yet cut to 32 bits.\<close>

fun val_size :: "val \<Rightarrow> nat" where
  "val_size VNil = 1"
| "val_size (VErr code m) = 9 + length m"
| "val_size (VStr s) = 5 + length s"
| "val_size (VInt v) = 9"
| "val_size (VDbl v) = 9"
| "val_size (VArr vs) = 5 + sum_list (map val_size vs)"

lemmas out_defs = out_nil_def out_err_def out_str_def out_int_def out_double_def out_arr_def

lemma val_size_pos: "0 < val_size v"
  by (cases v) simp_all

lemma length_le_val_size: "length vs \<le> sum_list (map val_size vs)"
proof (induction vs)
  case (Cons v vs)
  then show ?case using val_size_pos [of v] by simp
qed simp

lemma val_size_elem: "v \<in> set vs \<Longrightarrow> val_size v \<le> sum_list (map val_size vs)"
  by (simp add: member_le_sum_list)

lemma length_encode: "val_size v < 2 ^ 32 \<Longrightarrow> length (encode v) = val_size v"
proof (induction v)
  case (VArr vs)
  have "length (encode v) = val_size v" if "v \<in> set vs" for v
    using VArr that val_size_elem [OF that] by simp
  then have "map (\<lambda>v. length (encode v)) vs = map val_size vs" by simp
  then show ?case by (simp add: out_arr_def length_concat comp_def del: map_eq_conv)
qed (simp_all add: out_defs Let_def unat_of_nat_u32)

lemma sint_of_nat_u32: "n < 2 ^ 31 \<Longrightarrow> sint (of_nat n :: u32) = int n"
  by (simp add: signed_of_nat signed_take_bit_int_eq_self)

lemma print_prec_at:
  assumes "length s < 2 ^ 31" and "data = pre @ s @ rest" and "pos = length pre"
  shows "print_prec data pos (of_nat (length s)) = ret (c_string s)"
  using assms by (simp add: print_prec_def Let_def sint_of_nat_u32 unat_of_nat_u32)

text \<open>
  What \<open>on_response\<close> does with each kind of value, given the fields behind the tag. \<open>in_size n sz\<close>
  says that \<open>n\<close> bytes, fewer than \<open>2 ^ 31\<close>, are within the \<open>sz\<close> received ones.
\<close>

definition in_size :: "nat \<Rightarrow> u64 \<Rightarrow> bool" where
  "in_size n sz \<longleftrightarrow> n < 2 ^ 31 \<and> n \<le> unat sz"

lemma unat_ucast_u64 [simp]: "unat (ucast w :: u64) = unat w" for w :: u32
proof -
  have "unat w < 2 ^ LENGTH(32)" by (rule unsigned_less)
  then have "unat w < 2 ^ 64" by simp
  then show ?thesis by (simp add: unsigned_ucast_eq take_bit_nat_eq_self)
qed

lemma size_less: "sz < ucast w \<longleftrightarrow> unat sz < unat w" for sz :: u64 and w :: u32
  by (simp add: word_less_nat_alt)

lemma in_sizeD:
  assumes "in_size (n + k) sz"
  shows "unat (of_nat (n + k) :: u32) = n + k" "unat (of_nat n :: u32) = n" "\<not> sz < ucast (of_nat (n + k) :: u32)"
proof -
  show 1: "unat (of_nat (n + k) :: u32) = n + k" "unat (of_nat n :: u32) = n"
    using assms by (simp_all add: in_size_def unat_of_nat_u32 del: of_nat_add)
  show "\<not> sz < ucast (of_nat (n + k) :: u32)" using assms 1(1) by (simp add: size_less in_size_def del: of_nat_add)
qed

lemma size_at_least: "k < 2 ^ 64 \<Longrightarrow> sz < of_nat k \<longleftrightarrow> unat sz < k" for sz :: u64
  by (simp add: word_less_nat_alt unat_of_nat take_bit_nat_eq_self)

lemma on_response_str:
  assumes "in_size (length s + 5) sz"
  shows "on_response (SER_STR # le32 (of_nat (length s)) @ s @ rest) sz = ret (of_nat (length s + 5), [PStr (c_string s)])"
proof -
  let ?w = "of_nat (length s) :: u32" and ?d = "SER_STR # le32 (of_nat (length s)) @ s @ rest"
  have n: "length s < 2 ^ 31" "\<not> sz < 1" "\<not> sz < 1 + 4" using assms size_at_least [of 1 sz] size_at_least [of 5 sz] by (simp_all add: in_size_def)
  have w: "of_nat (length s + 5) = 1 + 4 + ?w" by simp
  have "read_u32 ?d 1 = ret ?w" by (rule read_u32_at [of _ "[SER_STR]" _ "s @ rest"]) simp_all
  moreover have "print_prec ?d (1 + 4) ?w = ret (c_string s)"
    using n(1) by (intro print_prec_at [of _ _ "SER_STR # le32 ?w" rest]) simp_all
  ultimately show ?thesis using n in_sizeD(3) [OF assms] unfolding w
    by (subst on_response.simps) (simp add: read_u8_def ser_defs)
qed

lemma on_response_err:
  assumes "in_size (length m + 9) sz"
  shows "on_response (SER_ERR # le32 code @ le32 (of_nat (length m)) @ m @ rest) sz
    = ret (of_nat (length m + 9), [PErr code (c_string m)])"
proof -
  let ?w = "of_nat (length m) :: u32" and ?d = "SER_ERR # le32 code @ le32 (of_nat (length m)) @ m @ rest"
  have n: "length m < 2 ^ 31" "\<not> sz < 1" "\<not> sz < 1 + 8" using assms size_at_least [of 1 sz] size_at_least [of 9 sz] by (simp_all add: in_size_def)
  have w: "of_nat (length m + 9) = 1 + 8 + ?w" by simp
  have "read_u32 ?d 1 = ret code"
    by (rule read_u32_at [of _ "[SER_ERR]" _ "le32 ?w @ m @ rest"]) simp_all
  moreover have "read_u32 ?d (1 + 4) = ret ?w"
    by (rule read_u32_at [of _ "SER_ERR # le32 code" _ "m @ rest"]) simp_all
  moreover have "print_prec ?d (1 + 8) ?w = ret (c_string m)"
    using n(1) by (intro print_prec_at [of _ _ "SER_ERR # le32 code @ le32 ?w" rest]) simp_all
  ultimately show ?thesis using n in_sizeD(3) [OF assms] unfolding w
    by (subst on_response.simps) (simp add: read_u8_def ser_defs)
qed

lemma on_response_nil: "in_size 1 sz \<Longrightarrow> on_response (SER_NIL # rest) sz = ret (1, [PNil])"
  using size_at_least [of 1 sz] by (subst on_response.simps) (simp add: in_size_def read_u8_def)

lemma on_response_num:
  assumes "in_size 9 sz"
  shows "on_response (SER_INT # le64 v @ rest) sz = ret (9, [PInt v])"
    "on_response (SER_DBL # le64 v @ rest) sz = ret (9, [PDbl v])"
proof -
  have n: "\<not> sz < 1" "\<not> sz < 1 + 8" using assms size_at_least [of 1 sz] size_at_least [of 9 sz] by (simp_all add: in_size_def)
  have "read_u64 (tag # le64 v @ rest) 1 = ret v" for tag
    by (rule read_u64_at [of _ "[tag]" _ rest]) simp_all
  with n show "on_response (SER_INT # le64 v @ rest) sz = ret (9, [PInt v])"
    "on_response (SER_DBL # le64 v @ rest) sz = ret (9, [PDbl v])"
    by (subst on_response.simps; simp add: read_u8_def ser_defs)+
qed

lemma on_response_arr:
  assumes "in_size 5 sz"
  shows "on_response (SER_ARR # le32 n @ body) sz = on_elems on_response (SER_ARR # le32 n @ body) sz (unat n) 5 [PArr n]"
proof -
  have n: "\<not> sz < 1" "\<not> sz < 1 + 4" using assms size_at_least [of 1 sz] size_at_least [of 5 sz] by (simp_all add: in_size_def)
  have "read_u32 (SER_ARR # le32 n @ body) 1 = ret n"
    by (rule read_u32_at [of _ "[SER_ARR]" _ body]) simp_all
  with n show ?thesis by (subst on_response.simps) (simp add: read_u8_def ser_defs)
qed

lemma on_elems_encode:
  assumes "\<And>v rest sz. v \<in> set vs \<Longrightarrow> val_size v \<le> unat sz \<Longrightarrow>
      on_response (encode v @ rest) sz = ret (of_nat (val_size v), shown v)"
    and "length pre + sum_list (map val_size vs) < 2 ^ 31" and "length pre + sum_list (map val_size vs) \<le> unat sz"
  shows "on_elems on_response (pre @ concat (map encode vs) @ rest) sz (length vs) (of_nat (length pre)) p
    = ret (of_nat (length pre + sum_list (map val_size vs)), p @ concat (map shown vs) @ [PArrEnd])"
  using assms
proof (induction vs arbitrary: pre p)
  case Nil
  then show ?case by (simp add: unsigned_of_nat take_bit_nat_eq_self)
next
  case (Cons v vs)
  let ?w = "of_nat (val_size v) :: u32" and ?b = "of_nat (length pre) :: u64"
  have w: "unat ?w = val_size v" "\<not> sint ?w < 0" "length (encode v) = val_size v"
    using Cons.prems(2) by (simp_all add: unat_of_nat_u32 sint_of_nat_u32 length_encode)
  have b: "unat ?b = length pre" using Cons.prems(2) by (simp add: unat_of_nat take_bit_nat_eq_self)
  then have "unat (sz - ?b) = unat sz - length pre" using Cons.prems(3) by (subst unat_sub) (simp_all add: word_le_nat_alt)
  then have r: "on_response (encode v @ concat (map encode vs) @ rest) (sz - ?b) = ret (?w, shown v)"
    using Cons.prems(1,3) by simp
  have c: "ucast ?w = (of_nat (val_size v) :: u64)" using Cons.prems(2) by (simp add: unsigned_of_nat take_bit_nat_eq_self)
  have "on_elems on_response ((pre @ encode v) @ concat (map encode vs) @ rest) sz (length vs) (of_nat (length (pre @ encode v))) (p @ shown v)
    = ret (of_nat (length (pre @ encode v) + sum_list (map val_size vs)), (p @ shown v) @ concat (map shown vs) @ [PArrEnd])"
    using Cons.prems w(3) by (intro Cons.IH) (simp_all add: add.assoc)
  then show ?case using r w b c by (simp add: add.assoc)
qed

lemma encode_simps:
  "encode VNil = [SER_NIL]" "encode (VErr code m) = SER_ERR # le32 code @ le32 (of_nat (length m)) @ m"
  "length s < 2 ^ 32 \<Longrightarrow> encode (VStr s) = SER_STR # le32 (of_nat (length s)) @ s"
  "encode (VInt v) = SER_INT # le64 v" "encode (VDbl v) = SER_DBL # le64 v"
  "encode (VArr vs) = SER_ARR # le32 (of_nat (length vs)) @ concat (map encode vs)"
  by (simp_all add: out_defs Let_def unat_of_nat_u32)

lemma on_response_encode:
  "val_size v < 2 ^ 31 \<Longrightarrow> val_size v \<le> unat sz \<Longrightarrow> on_response (encode v @ rest) sz = ret (of_nat (val_size v), shown v)"
proof (induction v arbitrary: rest sz)
  case (VArr vs)
  let ?n = "of_nat (length vs) :: u32" and ?pre = "SER_ARR # le32 (of_nat (length vs))"
  have elems: "on_response (encode v @ rest) sz = ret (of_nat (val_size v), shown v)"
    if "v \<in> set vs" "val_size v \<le> unat sz" for v rest sz
    using VArr.IH that VArr.prems(1) val_size_elem [OF that(1)] by simp
  have "unat ?n = length vs" using VArr.prems(1) length_le_val_size [of vs] by (intro unat_of_nat_u32) simp
  moreover have "in_size 5 sz" using VArr.prems by (simp add: in_size_def)
  ultimately show ?case
    using on_elems_encode [OF elems, of vs ?pre sz rest "[PArr ?n]"] on_response_arr [of sz ?n "concat (map encode vs) @ rest"] VArr.prems
    by (simp add: encode_simps del: encode.simps)
next
  case (VErr code m)
  then show ?case using on_response_err [of m sz code rest] by (simp add: encode_simps in_size_def ac_simps del: encode.simps)
next
  case (VStr s)
  then show ?case using on_response_str [of s sz rest] by (simp add: encode_simps in_size_def ac_simps del: encode.simps)
qed (simp_all add: encode_simps on_response_nil on_response_num in_size_def del: encode.simps)

text \<open>
  For values whose strings hold no NUL byte the printed lines determine the value: nothing is lost and
  nested arrays are delimited by their last line.
\<close>

fun no_nul :: "val \<Rightarrow> bool" where
  "no_nul (VErr code m) = (0 \<notin> set m)"
| "no_nul (VStr s) = (0 \<notin> set s)"
| "no_nul (VArr vs) = list_all no_nul vs"
| "no_nul _ = True"

lemma c_string_id: "0 \<notin> set s \<Longrightarrow> c_string s = s"
  by (auto simp: c_string_def takeWhile_eq_all_conv)

lemma c_string_append: "0 \<notin> set s \<Longrightarrow> c_string (s @ r) = s @ c_string r"
  by (induction s) (simp_all add: c_string_def)

lemma shown_Cons:
  obtains x xs where "shown v = x # xs" "x \<noteq> PArrEnd"
  by (cases v) auto

lemma shown_list_unique:
  assumes "\<And>v w r q. v \<in> set vs \<Longrightarrow> no_nul w \<Longrightarrow> shown v @ r = shown w @ q \<Longrightarrow> v = w \<and> r = q"
    and "list_all no_nul ws" and "concat (map shown vs) @ PArrEnd # r = concat (map shown ws) @ PArrEnd # q"
  shows "vs = ws \<and> r = q"
  using assms
proof (induction vs arbitrary: ws)
  case Nil
  show ?case
  proof (cases ws)
    case (Cons w ws')
    obtain x xs where "shown w = x # xs" "x \<noteq> PArrEnd" by (rule shown_Cons)
    then show ?thesis using Nil.prems(3) Cons by simp
  qed (use Nil in simp)
next
  case (Cons v vs)
  show ?case
  proof (cases ws)
    case Nil
    obtain x xs where "shown v = x # xs" "x \<noteq> PArrEnd" by (rule shown_Cons)
    then show ?thesis using Cons.prems(3) Nil by simp
  next
    case ws: (Cons w ws')
    then have e: "v = w" "concat (map shown vs) @ PArrEnd # r = concat (map shown ws') @ PArrEnd # q"
      using Cons.prems(1) [of v w] Cons.prems(2,3) by simp_all
    have "vs = ws' \<and> r = q" using Cons.prems(2) ws by (intro Cons.IH [OF _ _ e(2)] Cons.prems(1)) simp_all
    then show ?thesis using e(1) ws by simp
  qed
qed

lemma shown_unique: "no_nul v \<Longrightarrow> no_nul w \<Longrightarrow> shown v @ r = shown w @ q \<Longrightarrow> v = w \<and> r = q"
proof (induction v arbitrary: w r q)
  case (VArr vs)
  then obtain ws where w: "w = VArr ws" by (cases w) simp_all
  have "vs = ws \<and> r = q"
  proof (rule shown_list_unique)
    show "v = u \<and> r' = q'" if "v \<in> set vs" "no_nul u" "shown v @ r' = shown u @ q'" for v u r' q'
      using VArr.IH [OF that(1) _ that(2,3)] VArr.prems(1) that(1) by (simp add: list_all_iff)
  qed (use VArr.prems w in simp_all)
  then show ?case using w by simp
next
  case (VErr code m)
  then show ?case by (cases w) (simp_all add: c_string_id)
next
  case (VStr s)
  then show ?case by (cases w) (simp_all add: c_string_id)
next
  case VNil
  then show ?case by (cases w) simp_all
next
  case (VInt i)
  then show ?case by (cases w) simp_all
next
  case (VDbl d)
  then show ?case by (cases w) simp_all
qed

section \<open>Malformed responses\<close>

text \<open>
  On arbitrary bytes the decoder always comes to an end, and a non-negative result is a number of
  bytes that were there; in particular the remaining size of an array never becomes negative.
\<close>

definition within :: "nat \<Rightarrow> (u32 \<times> printed list) exec \<Rightarrow> bool" where
  "within n r \<longleftrightarrow> r \<noteq> None \<and> (\<forall>rv p. r = ret (rv, p) \<longrightarrow> sint rv < 0 \<or> unat rv \<le> n)"

lemma within_simps [simp]:
  "within n (ret (rv, p)) \<longleftrightarrow> sint rv < 0 \<or> unat rv \<le> n" "within n (fault f)"
  by (auto simp: within_def)

lemma not_within_None: "\<not> within n None"
  by (simp add: within_def)

lemma within_print:
  "unat w \<le> n \<Longrightarrow> within n (bindE (print_prec d pos len) (\<lambda>s. ret (w, f s)))"
  by (simp add: print_prec_def Let_def)

lemma within_read:
  "(\<And>w. within n (k w)) \<Longrightarrow> within n (bindE (read_u32 d pos) k)"
  "(\<And>w. within n (k' w)) \<Longrightarrow> within n (bindE (read_u64 d pos) k')"
  "(\<And>w. within n (k'' w)) \<Longrightarrow> within n (bindE (read_u8 d pos) k'')"
  by (simp_all add: read_u32_def read_u64_def read_u8_def read_bytes_def)

lemma on_elems_within:
  assumes resp: "\<And>d s. unat s < unat sz \<Longrightarrow> within (unat s) (resp d s)"
  shows "0 < unat b \<Longrightarrow> unat b \<le> unat sz \<Longrightarrow> within (unat sz) (on_elems resp data sz n b p)"
proof (induction n arbitrary: b p)
  case 0
  have "unat (ucast b :: u32) \<le> unat b" by (simp add: unsigned_ucast_eq take_bit_nat_less_eq_self)
  then show ?case using 0 by simp
next
  case (Suc n)
  let ?r = "resp (drop (unat b) data) (sz - b)"
  have d: "unat (sz - b) = unat sz - unat b" using Suc.prems by (intro unat_sub) (simp add: word_le_nat_alt)
  have w: "within (unat sz - unat b) ?r" using resp [of "sz - b"] d Suc.prems by simp
  show ?case
  proof (cases ?r rule: exec_cases)
    case (ret x)
    obtain rv q where x: "x = (rv, q)" by fastforce
    show ?thesis
    proof (cases "sint rv < 0")
      case False
      then have le: "unat rv \<le> unat sz - unat b" using w ret x by simp
      have "unat sz < 2 ^ LENGTH(64)" by (rule unsigned_less)
      then have "unat b + unat (ucast rv :: u64) < 2 ^ LENGTH(64)" using le Suc.prems by simp
      then have "unat (b + ucast rv) = unat b + unat rv" by (simp add: unat_add_lem [THEN iffD1])
      then show ?thesis using Suc.IH [of "b + ucast rv"] le Suc.prems ret x False by simp
    qed (use ret x in simp)
  qed (use w in \<open>simp_all add: not_within_None\<close>)
qed

lemma on_response_within: "within (unat sz) (on_response data sz)"
proof (induction "unat sz" arbitrary: data sz rule: less_induct)
  case less
  have ge: "\<not> sz < 1 \<Longrightarrow> 1 \<le> unat sz" "\<not> sz < 1 + 8 \<Longrightarrow> 9 \<le> unat sz" "\<not> sz < 1 + 4 \<Longrightarrow> 5 \<le> unat sz"
    using size_at_least [of 1 sz] size_at_least [of 9 sz] size_at_least [of 5 sz] by auto
  have "within (unat sz) (on_elems (\<lambda>d s. on_response d s) data sz n (1 + 4) p)" if "\<not> sz < 1 + 4" for n p
    using less ge(3) [OF that] by (intro on_elems_within) simp_all
  then show ?case using ge
    by (subst on_response.simps) (auto intro!: within_read within_print simp: size_less)
qed

text \<open>
  The size check of a string is passed by every length from \<open>2 ^ 32 - 5\<close> on, because the sum wraps. The
  precision is then negative, so \<open>printf\<close> reads on to the next NUL byte, wherever the response ends.
\<close>

lemma on_response_wraps:
  assumes len: "2 ^ 32 - 5 \<le> unat len" and sz: "5 \<le> unat sz"
  shows "on_response (SER_STR # le32 len @ body) sz =
    (if 0 \<in> set body then ret (len + 5, [PStr (c_string body)]) else fault OutOfBounds)"
proof -
  have n: "\<not> sz < 1" "\<not> sz < 1 + 4" using sz size_at_least [of 1 sz] size_at_least [of 5 sz] by simp_all
  have lt: "unat len < 2 ^ LENGTH(32)" by (rule unsigned_less)
  define n where "n = unat len"
  have "uint len = int n" by (simp add: n_def)
  moreover have "int n div 2 ^ 31 = 1" using len lt unfolding n_def [symmetric] by simp
  ultimately have neg: "sint len < 0" by (simp add: sint_uint signed_take_bit_negative_iff bit_iff_odd)
  have "unat (1 + 4 + len) = (5 + unat len) mod 2 ^ 32" by (simp add: unat_word_ariths)
  also have "\<dots> = unat len - (2 ^ 32 - 5)" using len lt by (simp add: le_mod_geq)
  finally have w: "\<not> sz < ucast (1 + 4 + len)" using sz lt by (simp add: size_less)
  have "read_u32 (SER_STR # le32 len @ body) 1 = ret len"
    by (rule read_u32_at [of _ "[SER_STR]" _ body]) simp_all
  moreover have "print_prec (SER_STR # le32 len @ body) (1 + 4) len = (if 0 \<in> set body then ret (c_string body) else fault OutOfBounds)"
    using neg by (simp add: print_prec_def)
  ultimately show ?thesis using n w by (subst on_response.simps) (simp add: read_u8_def ser_defs add.commute)
qed

section \<open>A framed response\<close>

definition res_image :: "val \<Rightarrow> bytes" where
  "res_image v = le32 (of_nat (length (encode v))) @ encode v"

text \<open>A frame whose reads have succeeded.\<close>

lemma read_res_frame:
  assumes "read_full sys_read k 4 [] = ret (0, le32 len, k1)" and "unat len \<le> K_MAX_MSG"
    and "read_full sys_read k1 (unat len) [] = ret (0, body, k2)"
  shows "read_res raw sys_read k = bindE (on_response (body @ read_buf_from raw (4 + unat len)) (ucast len)) (\<lambda>(rv, printed).
    ret (if sint rv > 0 \<and> rv \<noteq> len then -1 else sint rv, printed, k2))"
proof -
  have "read_u32 (le32 len) 0 = ret len" using read_u32_at [of "le32 len" "[]" len "[]" 0] by simp
  then show ?thesis using assms by (simp add: read_res_def)
qed

lemma read_res_encoded:
  assumes "read_full sys_read k 4 [] = ret (0, le32 (of_nat (val_size v)), k1)" and "val_size v \<le> K_MAX_MSG"
    and "read_full sys_read k1 (val_size v) [] = ret (0, encode v, k2)"
  shows "read_res raw sys_read k = ret (int (val_size v), shown v, k2)"
proof -
  let ?w = "of_nat (val_size v) :: u32"
  have w: "unat ?w = val_size v" "sint ?w = int (val_size v)"
    using assms(2) by (simp_all add: unat_of_nat_u32 sint_of_nat_u32 K_MAX_MSG_def)
  then have "on_response (encode v @ read_buf_from raw (4 + unat ?w)) (ucast ?w) = ret (?w, shown v)"
    using assms(2) by (intro on_response_encode) (simp_all add: K_MAX_MSG_def)
  then show ?thesis using read_res_frame [OF assms(1), of "encode v" k2 raw] assms(2,3) w by simp
qed

lemma read_res_image:
  assumes rp: "reads_prefix sys_read pending"
    and pend: "pending k = res_image v @ rest" and size: "val_size v \<le> K_MAX_MSG"
  shows "\<exists>rv p k'. read_res raw sys_read k = ret (rv, p, k') \<and>
    (rv = int (val_size v) \<and> p = shown v \<and> pending k' = rest \<or> rv = -1 \<and> p = [])"
proof -
  let ?w = "of_nat (val_size v) :: u32"
  have w: "unat ?w = val_size v" and len: "length (encode v) = val_size v"
    using size by (simp_all add: unat_of_nat_u32 length_encode K_MAX_MSG_def)
  from read_full_prefix [OF rp, of k 4 "[]"] obtain rv1 bs1 k1 where
    h: "read_full sys_read k 4 [] = ret (rv1, bs1, k1)" "pending k = bs1 @ pending k1"
      "rv1 = 0 \<and> length bs1 = 4 \<or> rv1 = -1" by auto
  show ?thesis
  proof (cases "rv1 = 0")
    case True
    then have hd: "bs1 = le32 ?w" "pending k1 = encode v @ rest"
      using h(2,3) pend len by (auto simp: res_image_def append_eq_append_conv)
    from read_full_prefix [OF rp, of k1 "val_size v" "[]"] obtain rv2 bs2 k2 where
      b: "read_full sys_read k1 (val_size v) [] = ret (rv2, bs2, k2)" "pending k1 = bs2 @ pending k2"
        "rv2 = 0 \<and> length bs2 = val_size v \<or> rv2 = -1" by auto
    show ?thesis
    proof (cases "rv2 = 0")
      case ok: True
      then have "bs2 = encode v" "pending k2 = rest"
        using b(2,3) hd(2) len by (auto simp: append_eq_append_conv)
      then show ?thesis using read_res_encoded [OF _ size, where raw = raw and k = k and sys_read = sys_read and ?k1.0 = k1 and ?k2.0 = k2] h(1) b(1) True ok hd(1) by simp
    next
      case False
      have "read_u32 bs1 0 = ret ?w" using read_u32_at [of bs1 "[]" ?w "[]" 0] hd by simp
      then show ?thesis using False True h(1) b w size by (auto simp: read_res_def)
    qed
  qed (use h in \<open>auto simp: read_res_def\<close>)
qed

text \<open>
  The wrapping length in a frame of the peer: what \<open>read_res\<close> prints goes beyond the body into the bytes
  that were in the buffer before, up to a NUL byte, and past the end of the array when there is none.
\<close>

lemma read_res_wraps:
  assumes "read_full sys_read k 4 [] = ret (0, le32 n, k1)" and "unat n \<le> K_MAX_MSG"
    and "read_full sys_read k1 (unat n) [] = ret (0, SER_STR # le32 len @ body, k2)"
    and "unat n = 5 + length body" and "2 ^ 32 - 5 \<le> unat len" and "0 \<notin> set body"
  shows "read_res raw sys_read k = (let old = read_buf_from raw (4 + unat n) in
    if 0 \<in> set old then ret (if len + 5 = 0 then 0 else -1, [PStr (body @ c_string old)], k2) else fault OutOfBounds)"
proof -
  let ?old = "read_buf_from raw (4 + unat n)"
  have r: "on_response ((SER_STR # le32 len @ body) @ ?old) (ucast n) =
    (if 0 \<in> set ?old then ret (len + 5, [PStr (body @ c_string ?old)]) else fault OutOfBounds)"
    using on_response_wraps [OF assms(5), of "ucast n" "body @ ?old"] assms(4,6) by (simp add: c_string_append)
  have lt: "unat len < 2 ^ LENGTH(32)" by (rule unsigned_less)
  have "unat (len + 5) = (unat len + 5) mod 2 ^ 32" by (simp add: unat_word_ariths)
  also have "\<dots> = unat len - (2 ^ 32 - 5)" using assms(5) lt by (simp add: le_mod_geq)
  finally have u: "unat (len + 5) \<le> 4" using lt by simp
  then have "sint (of_nat (unat (len + 5)) :: u32) = int (unat (len + 5))" by (intro sint_of_nat_u32) simp
  then have "sint (len + 5) = uint (len + 5)" by simp
  moreover have "0 < uint (len + 5) \<longleftrightarrow> len + 5 \<noteq> 0" by (simp add: less_le uint_0_iff)
  moreover have "len + 5 \<noteq> n" using u assms(4) by auto
  ultimately show ?thesis using read_res_frame [OF assms(1-3), of raw] r by (auto simp: Let_def unat_eq_0 unat_gt_0)
qed

end
