(* ===== verification/Keyspace_Spec.thy ===== *)
theory Keyspace_Spec
  imports Keyspace Zset_Spec Client
begin

unbundle bit_operations_syntax

text \<open>
  The key space as an abstract map. An invariant ties the hash map of entries, the sorted sets they
  own and the timer heap together; \<open>server_at s M\<close> says that the state \<open>s\<close> satisfies it and stands for
  the map \<open>M\<close> from keys to items. Every command handler is shown to return on such a state, to answer
  as its abstract meaning on \<open>M\<close> says, and to leave a state for the new map.
\<close>

section \<open>The invariant and the abstract state\<close>

record item =
  it_val :: bytes
  it_set :: "(bytes \<Rightarrow> u64 option) option"
  it_ttl :: "u64 option"

type_synonym keyspace = "bytes \<Rightarrow> item option"

definition ekey :: "server \<Rightarrow> addr \<Rightarrow> bytes" where
  "ekey s a = ent_key (the (entries s a))"

definition item_of :: "server \<Rightarrow> (addr \<Rightarrow> addr tree) \<Rightarrow> addr \<Rightarrow> item" where
  "item_of s T a = (let e = the (entries s a) in
     \<lparr>it_val = ent_val e, it_set = (if ent_type e = T_ZSET then Some (zscores (zheap s) (T a)) else None),
      it_ttl = deadline (heap s) (heap_idx s) a\<rparr>)"

definition entry_ok :: "server \<Rightarrow> (addr \<Rightarrow> addr tree) \<Rightarrow> addr \<Rightarrow> bool" where
  "entry_ok s T a \<longleftrightarrow> (\<exists>e i. entries s a = Some e \<and> heap_idx s a = Some i \<and> length (ent_val e) \<le> K_MAX_MSG \<and>
     (if ent_type e = T_ZSET then \<exists>z. ent_zset e = Some z \<and> zset_ok (zheap s) z (T a) else T a = \<langle>\<rangle>))"

text \<open>Only finitely many objects are allocated.\<close>

definition mem_finite :: "server \<Rightarrow> bool" where
  "mem_finite s \<longleftrightarrow> finite (dom (entries s)) \<and> finite (dom (enodes s)) \<and> finite (dom (heap_idx s)) \<and>
     finite (dom (tnodes (zheap s))) \<and> finite (dom (hnodes (zheap s))) \<and> finite (dom (znodes (zheap s)))"

definition server_ok :: "server \<Rightarrow> addr set \<Rightarrow> (addr \<Rightarrow> addr tree) \<Rightarrow> bool" where
  "server_ok s N T \<longleftrightarrow> hm_small (enodes s) (db s) N \<and> keyed (enodes s) N (ekey s) str_hash \<and>
     (\<forall>a \<in> N. entry_ok s T a) \<and> (\<forall>a \<in> N. \<forall>b \<in> N. a \<noteq> b \<longrightarrow> set_tree (T a) \<inter> set_tree (T b) = {}) \<and>
     ttl_inv (heap s) (heap_idx s) \<and> refs (heap s) \<subseteq> N \<and> mem_finite s"

definition represents :: "server \<Rightarrow> addr set \<Rightarrow> (addr \<Rightarrow> addr tree) \<Rightarrow> keyspace \<Rightarrow> bool" where
  "represents s N T M \<longleftrightarrow> dom M = ekey s ` N \<and> (\<forall>a \<in> N. M (ekey s a) = Some (item_of s T a))"

definition server_at :: "server \<Rightarrow> keyspace \<Rightarrow> bool" where
  "server_at s M \<longleftrightarrow> (\<exists>N T. server_ok s N T \<and> represents s N T M)"

lemma server_okD:
  assumes "server_ok s N T"
  shows "hm_small (enodes s) (db s) N" "keyed (enodes s) N (ekey s) str_hash" "\<And>a. a \<in> N \<Longrightarrow> entry_ok s T a"
    "\<And>a b. a \<in> N \<Longrightarrow> b \<in> N \<Longrightarrow> a \<noteq> b \<Longrightarrow> set_tree (T a) \<inter> set_tree (T b) = {}"
    "ttl_inv (heap s) (heap_idx s)" "refs (heap s) \<subseteq> N" "mem_finite s"
  using assms unfolding server_ok_def by blast+

lemma ekey_inj: "server_ok s N T \<Longrightarrow> inj_on (ekey s) N"
  by (simp add: server_ok_def keyed_def)

lemma at_key_item:
  "represents s N T M \<Longrightarrow> at_key N (ekey s) k p \<Longrightarrow> M k = map_option (item_of s T) p"
  by (cases p) (auto simp: represents_def at_key_def dom_def)

lemma card_keys: "server_ok s N T \<Longrightarrow> represents s N T M \<Longrightarrow> card (dom M) = card N"
  using card_image [OF ekey_inj] by (simp add: represents_def)

section \<open>Changing one entry\<close>

lemma zframe_finite:
  assumes "zframe A m m'" "finite A"
  shows "finite (dom (tnodes m)) \<Longrightarrow> finite (dom (tnodes m'))" "finite (dom (hnodes m)) \<Longrightarrow> finite (dom (hnodes m'))"
    "finite (dom (znodes m)) \<Longrightarrow> finite (dom (znodes m'))"
proof -
  have "dom (tnodes m') \<subseteq> dom (tnodes m) \<union> A" "dom (hnodes m') \<subseteq> dom (hnodes m) \<union> A" "dom (znodes m') \<subseteq> dom (znodes m) \<union> A"
    using assms(1) by (auto simp: zframe_def dom_def)
  then show "finite (dom (tnodes m)) \<Longrightarrow> finite (dom (tnodes m'))" "finite (dom (hnodes m)) \<Longrightarrow> finite (dom (hnodes m'))"
    "finite (dom (znodes m)) \<Longrightarrow> finite (dom (znodes m'))" using assms(2) finite_subset by blast+
qed

lemma zset_ok_cong:
  assumes "zset_ok m z t" "\<And>x. x \<in> set_tree t \<Longrightarrow> tnodes m' x = tnodes m x \<and> hnodes m' x = hnodes m x \<and> znodes m' x = znodes m x"
  shows "zset_ok m' z t" "zview m' t = zview m t" "zscores m' t = zscores m t"
proof -
  note k = zset_okD [OF assms(1)]
  have "avl_rep (tnodes m') (tree z) t" using k(1) avl_rep_cong [of t "tnodes m'" "tnodes m"] assms(2) by blast
  moreover have "hm_small (hnodes m') (hmap z) (set_tree t)" using hm_small_cong [OF k(2)] assms(2) by blast
  moreover have "keyed (hnodes m') (set_tree t) (zname (znodes m')) str_hash"
    using k(3) assms(2) by (simp add: keyed_def code_of_def zname_def inj_on_def)
  moreover have "nodes_ok (znodes m') (set_tree t)" using k(4) assms(2) by (simp add: nodes_ok_def)
  moreover have "zsorted (znodes m') (inorder t)"
    using k(5) assms(2) zsorted_cong [of "inorder t" "znodes m'" "znodes m"] by (simp add: zkey_of_def)
  ultimately show "zset_ok m' z t" by (simp add: zset_ok_def)
  show "zview m' t = zview m t" using assms(2) by (simp add: zview_def)
  then show "zscores m' t = zscores m t" by (simp add: zscores_def)
qed

definition same_entry :: "server \<Rightarrow> (addr \<Rightarrow> addr tree) \<Rightarrow> server \<Rightarrow> (addr \<Rightarrow> addr tree) \<Rightarrow> addr \<Rightarrow> bool" where
  "same_entry s T s' T' b \<longleftrightarrow> entries s' b = entries s b \<and> T' b = T b \<and>
     (heap_idx s' b = None \<longleftrightarrow> heap_idx s b = None) \<and>
     deadline (heap s') (heap_idx s') b = deadline (heap s) (heap_idx s) b \<and>
     (\<forall>x \<in> set_tree (T b). tnodes (zheap s') x = tnodes (zheap s) x \<and> hnodes (zheap s') x = hnodes (zheap s) x \<and>
        znodes (zheap s') x = znodes (zheap s) x)"

lemma same_entry_ok:
  assumes same: "same_entry s T s' T' b" and ok: "entry_ok s T b"
  shows "entry_ok s' T' b" "item_of s' T' b = item_of s T b" "ekey s' b = ekey s b"
proof -
  obtain e i where e: "entries s b = Some e" "heap_idx s b = Some i" "length (ent_val e) \<le> K_MAX_MSG"
    and z: "if ent_type e = T_ZSET then \<exists>z. ent_zset e = Some z \<and> zset_ok (zheap s) z (T b) else T b = \<langle>\<rangle>"
    using ok unfolding entry_ok_def by blast
  have same': "entries s' b = Some e" "T' b = T b" "\<exists>i. heap_idx s' b = Some i"
    "deadline (heap s') (heap_idx s') b = deadline (heap s) (heap_idx s) b"
    using same e by (auto simp: same_entry_def)
  have mem: "tnodes (zheap s') x = tnodes (zheap s) x \<and> hnodes (zheap s') x = hnodes (zheap s) x \<and>
      znodes (zheap s') x = znodes (zheap s) x" if "x \<in> set_tree (T b)" for x
    using same that by (simp add: same_entry_def)
  have zs: "zset_ok (zheap s') z (T b)" "zscores (zheap s') (T b) = zscores (zheap s) (T b)"
    if "zset_ok (zheap s) z (T b)" for z using zset_ok_cong [OF that mem] by simp_all
  have "if ent_type e = T_ZSET then \<exists>z. ent_zset e = Some z \<and> zset_ok (zheap s') z (T' b) else T' b = \<langle>\<rangle>"
    using z zs(1) same'(2) by (auto split: if_splits)
  then show "entry_ok s' T' b" using same' e(3) unfolding entry_ok_def by blast
  show "item_of s' T' b = item_of s T b"
    using same' e(1) z zs(2) by (auto simp: item_of_def Let_def split: if_splits)
  show "ekey s' b = ekey s b" using same' e(1) by (simp add: ekey_def)
qed

text \<open>
  The map of a state after one entry \<open>a\<close> with the key \<open>k\<close> was added, changed or removed, while the other
  entries kept their keys and items.
\<close>

lemma represents_change:
  assumes rep: "represents s N T M" and N': "N' - {a} = N - {a}"
    and ent: "\<And>b. b \<in> N' \<Longrightarrow> b \<noteq> a \<Longrightarrow> item_of s' T' b = item_of s T b \<and> ekey s' b = ekey s b"
    and key: "k \<notin> ekey s ` (N - {a})" "a \<in> N \<Longrightarrow> ekey s a = k" "a \<in> N' \<Longrightarrow> ekey s' a = k"
  shows "represents s' N' T' (M(k := if a \<in> N' then Some (item_of s' T' a) else None))"
proof -
  let ?M = "M(k := if a \<in> N' then Some (item_of s' T' a) else None)"
  have old: "b \<in> N - {a}" if "b \<in> N'" "b \<noteq> a" for b using N' that by blast
  have "ekey s' ` (N' - {a}) = ekey s ` (N - {a})" unfolding N' [symmetric] using ent by auto
  moreover have "dom M - {k} = ekey s ` (N - {a})" using rep key(1,2) by (auto simp: represents_def)
  ultimately have d: "dom M - {k} = ekey s' ` (N' - {a})" by simp
  have "dom ?M = ekey s' ` N'"
  proof (cases "a \<in> N'")
    case True
    then have "ekey s' ` N' = insert k (ekey s' ` (N' - {a}))" using key(3) by blast
    with True d show ?thesis by auto
  qed (use d in simp)
  moreover have "?M (ekey s' b) = Some (item_of s' T' b)" if "b \<in> N'" for b
  proof (cases "b = a")
    case False
    then have "ekey s b \<noteq> k" "M (ekey s b) = Some (item_of s T b)"
      using key(1) old [OF that] rep by (auto simp: represents_def)
    then show ?thesis using ent [OF that False] by simp
  qed (use that key(3) in simp)
  ultimately show ?thesis by (simp add: represents_def)
qed

lemma server_change:
  assumes ok: "server_ok s N T" and rep: "represents s N T M" and N': "N' - {a} = N - {a}"
    and same: "\<And>b. b \<in> N - {a} \<Longrightarrow> same_entry s T s' T' b"
    and hm: "hm_small (enodes s') (db s') N'" and kd: "keyed (enodes s') N' (ekey s') str_hash"
    and new: "a \<in> N' \<Longrightarrow> entry_ok s' T' a"
    and disj: "\<And>b. a \<in> N' \<Longrightarrow> b \<in> N - {a} \<Longrightarrow> set_tree (T' a) \<inter> set_tree (T b) = {}"
    and ttl: "ttl_inv (heap s') (heap_idx s')" "refs (heap s') \<subseteq> N'" and fin: "mem_finite s'"
    and key: "k \<notin> ekey s ` (N - {a})" "a \<in> N \<Longrightarrow> ekey s a = k" "a \<in> N' \<Longrightarrow> ekey s' a = k"
  shows "server_ok s' N' T' \<and> represents s' N' T' (M(k := if a \<in> N' then Some (item_of s' T' a) else None))"
proof
  note k = server_okD [OF ok]
  have old: "b \<in> N - {a}" if "b \<in> N'" "b \<noteq> a" for b using N' that by blast
  have ent: "entry_ok s' T' b" "item_of s' T' b = item_of s T b" "ekey s' b = ekey s b" "T' b = T b"
    if "b \<in> N'" "b \<noteq> a" for b
    using same_entry_ok [OF same k(3)] same old [OF that] by (auto simp: same_entry_def)
  have "set_tree (T' b) \<inter> set_tree (T' c) = {}" if bc: "b \<in> N'" "c \<in> N'" "b \<noteq> c" for b c
  proof -
    consider "b = a" "c \<noteq> a" | "c = a" "b \<noteq> a" | "b \<noteq> a" "c \<noteq> a" using bc(3) by blast
    then show ?thesis
    proof cases
      case 1
      then show ?thesis using disj [of c] bc old [of c] ent(4) [of c] by simp
    next
      case 2
      then show ?thesis using disj [of b] bc old [of b] ent(4) [of b] by (simp add: Int_commute)
    next
      case 3
      then show ?thesis using ent(4) [of b] ent(4) [of c] bc k(4) [of b c] old [of b] old [of c] by simp
    qed
  qed
  then show "server_ok s' N' T'" unfolding server_ok_def using hm kd new ent(1) ttl fin by blast
  show "represents s' N' T' (M(k := if a \<in> N' then Some (item_of s' T' a) else None))"
    by (rule represents_change [OF rep N' _ key]) (use ent(2,3) in auto)
qed

lemma server_at_change:
  assumes "server_ok s N T" "represents s N T M" "N' - {a} = N - {a}"
    and "\<And>b. b \<in> N - {a} \<Longrightarrow> same_entry s T s' T' b"
    and "hm_small (enodes s') (db s') N'" "keyed (enodes s') N' (ekey s') str_hash"
    and "a \<in> N' \<Longrightarrow> entry_ok s' T' a"
    and "\<And>b. a \<in> N' \<Longrightarrow> b \<in> N - {a} \<Longrightarrow> set_tree (T' a) \<inter> set_tree (T b) = {}"
    and "ttl_inv (heap s') (heap_idx s')" "refs (heap s') \<subseteq> N'" and "mem_finite s'"
    and "k \<notin> ekey s ` (N - {a})" "a \<in> N \<Longrightarrow> ekey s a = k" "a \<in> N' \<Longrightarrow> ekey s' a = k"
  shows "server_at s' (M(k := if a \<in> N' then Some (item_of s' T' a) else None))"
  unfolding server_at_def using server_change [OF assms] by blast

section \<open>The key map\<close>

lemma entry_eq_key:
  assumes "server_ok s N T" "a \<in> N"
  shows "entry_eq s (str_hash k) k a = ret (ekey s a = k)"
proof -
  obtain e where e: "entries s a = Some e" using server_okD(3) [OF assms] by (auto simp: entry_ok_def)
  have "code_of (enodes s) a = Some (str_hash (ekey s a))" using server_okD(2) [OF assms(1)] assms(2) by (simp add: keyed_def)
  then obtain n where "enodes s a = Some n" "hcode n = str_hash (ent_key e)"
    using e by (auto simp: code_of_def ekey_def)
  then show ?thesis using e by (auto simp: entry_eq_def ekey_def)
qed

lemma db_lookup_ok:
  assumes "server_ok s N T"
  obtains p where "db_lookup s k = ret (s, p)" "at_key N (ekey s) k p"
proof -
  note o = server_okD [OF assms]
  obtain p where "hm_lookup (enodes s) (db s) (str_hash k) (entry_eq s (str_hash k) k) = ret (enodes s, db s, p)"
    "at_key N (ekey s) k p"
    using first_table.lookup_key [OF o(1,2) entry_eq_key [OF assms]] by blast
  then show thesis using that by (simp add: db_lookup_def Let_def)
qed

text \<open>A lookup with its abstract result: the entry, its item, and its content.\<close>

lemma db_lookup_at:
  assumes ok: "server_ok s N T" and rep: "represents s N T M"
  shows "M k = None \<Longrightarrow> db_lookup s k = ret (s, None) \<and> k \<notin> ekey s ` N"
    and "M k = Some it \<Longrightarrow> \<exists>a e. db_lookup s k = ret (s, Some a) \<and> a \<in> N \<and> ekey s a = k \<and> entries s a = Some e \<and>
      ent_key e = k \<and> it = item_of s T a \<and> it_val it = ent_val e \<and> length (ent_val e) \<le> K_MAX_MSG \<and>
      (it_set it = None \<longleftrightarrow> ent_type e \<noteq> T_ZSET)"
proof -
  obtain p where p: "db_lookup s k = ret (s, p)" "at_key N (ekey s) k p" using db_lookup_ok [OF ok] .
  note it = at_key_item [OF rep p(2)]
  show "db_lookup s k = ret (s, None) \<and> k \<notin> ekey s ` N" if "M k = None"
    using it that p by (auto simp: at_key_def)
  assume "M k = Some it"
  then obtain a where a: "p = Some a" "a \<in> N" "ekey s a = k" "it = item_of s T a"
    using it p(2) by (cases p) (auto simp: at_key_def)
  then obtain e where "entries s a = Some e" "length (ent_val e) \<le> K_MAX_MSG"
    using server_okD(3) [OF ok a(2)] by (auto simp: entry_ok_def)
  then show "\<exists>a e. db_lookup s k = ret (s, Some a) \<and> a \<in> N \<and> ekey s a = k \<and> entries s a = Some e \<and>
      ent_key e = k \<and> it = item_of s T a \<and> it_val it = ent_val e \<and> length (ent_val e) \<le> K_MAX_MSG \<and>
      (it_set it = None \<longleftrightarrow> ent_type e \<noteq> T_ZSET)"
    using p(1) a by (auto simp: item_of_def Let_def ekey_def)
qed

definition unused :: "server \<Rightarrow> addr \<Rightarrow> bool" where
  "unused s a \<longleftrightarrow> entries s a = None \<and> enodes s a = None \<and> heap_idx s a = None"

lemma ttl_inv_new:
  assumes inv: "ttl_inv hp ix" and "ix a = None"
  shows "ttl_inv hp (ix(a \<mapsto> SIZE_MAX))" "b \<noteq> a \<Longrightarrow> deadline hp (ix(a \<mapsto> SIZE_MAX)) b = deadline hp ix b"
    "deadline hp (ix(a \<mapsto> SIZE_MAX)) a = None"
proof -
  have "linked (ix(a \<mapsto> SIZE_MAX)) hp"
    using inv assms(2) unfolding ttl_inv_def linked_def linked_at_def by (metis fun_upd_other option.distinct(1))
  then show "ttl_inv hp (ix(a \<mapsto> SIZE_MAX))" using inv by (auto simp: ttl_inv_def)
qed (simp_all add: deadline_def)

text \<open>Inserting a new entry, with an empty sorted set when it has one.\<close>

lemma db_insert_new:
  assumes ok: "server_ok s N T" and rep: "represents s N T M" and new: "M k = None"
    and u: "unused s a" and room: "card (dom M) + 1 < 32"
    and e: "ent_key e = k" "length (ent_val e) \<le> K_MAX_MSG" "ent_type e = T_ZSET \<Longrightarrow> ent_zset e = Some ZSet_default"
  shows "\<exists>s' T'. db_insert (entry_new s a e (str_hash k)) a = ret s' \<and> server_ok s' (insert a N) T' \<and>
    represents s' (insert a N) T' (M(k \<mapsto> \<lparr>it_val = ent_val e,
       it_set = (if ent_type e = T_ZSET then Some Map.empty else None), it_ttl = None\<rparr>)) \<and>
    zheap s' = zheap s \<and> entries s' = (entries s)(a \<mapsto> e)"
proof -
  note o = server_okD [OF ok]
  let ?n = "\<lparr>hnext = None, hcode = str_hash k\<rparr>" and ?s1 = "entry_new s a e (str_hash k)"
  have an: "a \<notin> N" using o(3) [of a] u by (auto simp: entry_ok_def unused_def)
  have hs1: "enodes ?s1 = (enodes s)(a \<mapsto> ?n)" "db ?s1 = db s" by (simp_all add: entry_new_def)
  have key1: "ekey ?s1 b = (if b = a then k else ekey s b)" for b using e(1) by (simp add: ekey_def entry_new_def)
  have kn: "k \<notin> ekey s ` N" using db_lookup_at(1) [OF ok rep new] by blast
  have small: "hm_small (enodes ?s1) (db s) N"
    unfolding hs1 by (rule hm_small_cong [OF o(1)]) (use an in auto)
  have "keyed (enodes ?s1) N (ekey ?s1) str_hash"
    using o(2) an by (auto simp: keyed_def hs1 key1 code_of_def inj_on_def)
  moreover have "card N + 1 < 32" using room card_keys [OF ok rep] by simp
  moreover have "ekey ?s1 a \<notin> ekey ?s1 ` N" using kn an by (auto simp: key1 image_iff)
  ultimately obtain hs2 hm2 where h: "hm_insert (enodes ?s1) (db s) (Some a) = ret (hs2, hm2)"
    "hm_small hs2 hm2 (insert a N)" "keyed hs2 (insert a N) (ekey ?s1) str_hash" "same_outside {a} (enodes ?s1) hs2"
    using first_table.insert_key [OF small, of "ekey ?s1" str_hash a ?n] by (auto simp: hs1 key1)
  let ?s' = "?s1\<lparr>db := hm2, enodes := hs2\<rparr>" and ?T' = "T(a := \<langle>\<rangle>)"
  note ttl = ttl_inv_new [OF o(5), of a]
  have same: "same_entry s T ?s' ?T' b" if "b \<in> N - {a}" for b
    using that ttl(2) u by (auto simp: same_entry_def entry_new_def unused_def)
  have "entry_ok ?s' ?T' a"
    using e zset_ok_empty by (simp add: entry_ok_def entry_new_def)
  moreover have "keyed hs2 (insert a N) (ekey ?s') str_hash"
    using h(3) by (simp add: ekey_def [abs_def])
  moreover have "ekey ?s' a = k" using key1 [of a] by (simp add: ekey_def)
  moreover have "ttl_inv (heap ?s') (heap_idx ?s')" "refs (heap ?s') \<subseteq> insert a N"
    using ttl(1) u o(6) by (auto simp: entry_new_def unused_def)
  moreover have "mem_finite ?s'"
    using o(7) same_outside_dom [OF h(4)] by (simp add: mem_finite_def entry_new_def)
  ultimately have ch: "server_ok ?s' (insert a N) ?T' \<and>
      represents ?s' (insert a N) ?T' (M(k := if a \<in> insert a N then Some (item_of ?s' ?T' a) else None))"
    using h(2) kn an same by (intro server_change [OF ok rep]) simp_all
  have "item_of ?s' ?T' a = \<lparr>it_val = ent_val e, it_set = (if ent_type e = T_ZSET then Some Map.empty else None), it_ttl = None\<rparr>"
    using ttl(3) u by (simp add: item_of_def Let_def entry_new_def unused_def zscores_def zview_def)
  then have "represents ?s' (insert a N) ?T' (M(k \<mapsto> \<lparr>it_val = ent_val e,
       it_set = (if ent_type e = T_ZSET then Some Map.empty else None), it_ttl = None\<rparr>))" using ch by simp
  moreover have "db_insert ?s1 a = ret ?s'" using h(1) by (simp add: db_insert_def hs1(2))
  moreover have "zheap ?s' = zheap s" "entries ?s' = (entries s)(a \<mapsto> e)" by (simp_all add: entry_new_def)
  ultimately show ?thesis using ch by blast
qed

section \<open>Strings\<close>

lemma do_get_ok:
  assumes "server_at s M"
  shows "do_get s [c, k] [] = ret (s, encode (case M k of None \<Rightarrow> VNil | Some it \<Rightarrow> VStr (it_val it)))"
proof -
  obtain N T where ok: "server_ok s N T" "represents s N T M" using assms unfolding server_at_def by blast
  show ?thesis
  proof (cases "M k")
    case None
    then show ?thesis using db_lookup_at(1) [OF ok None] by (simp add: do_get_def arg_def)
  next
    case (Some it)
    then show ?thesis using db_lookup_at(2) [OF ok Some] by (auto simp: do_get_def arg_def)
  qed
qed

text \<open>The new item of a key that is set: the string is replaced, a sorted set and a deadline stay.\<close>

definition set_item :: "item option \<Rightarrow> bytes \<Rightarrow> item" where
  "set_item old v = (case old of None \<Rightarrow> \<lparr>it_val = v, it_set = None, it_ttl = None\<rparr> | Some it \<Rightarrow> it\<lparr>it_val := v\<rparr>)"

lemma do_set_ok:
  assumes at: "server_at s M" and v: "length v \<le> K_MAX_MSG"
    and new: "M k = None \<Longrightarrow> unused s a \<and> card (dom M) + 1 < 32"
  shows "\<exists>s'. do_set a s [c, k, v] [] = ret (s', encode VNil) \<and> server_at s' (M(k \<mapsto> set_item (M k) v))"
proof -
  obtain N T where ok: "server_ok s N T" "represents s N T M" using at unfolding server_at_def by blast
  show ?thesis
  proof (cases "M k")
    case None
    define e where "e = Entry_default\<lparr>ent_key := k, ent_val := v\<rparr>"
    have e: "ent_key e = k" "length (ent_val e) \<le> K_MAX_MSG" "ent_type e = T_ZSET \<Longrightarrow> ent_zset e = Some ZSet_default"
      and t: "ent_type e \<noteq> T_ZSET" "ent_val e = v" using v by (simp_all add: e_def Entry_default_def T_ZSET_def)
    from new [OF None] have u: "unused s a" "card (dom M) + 1 < 32" by simp_all
    obtain s' T' where i: "db_insert (entry_new s a e (str_hash k)) a = ret s'" "server_ok s' (insert a N) T'"
      "represents s' (insert a N) T' (M(k \<mapsto> \<lparr>it_val = v, it_set = None, it_ttl = None\<rparr>))"
      using db_insert_new [OF ok None u e] t by auto
    have "do_set a s [c, k, v] [] = ret (s', encode VNil)"
      using db_lookup_at(1) [OF ok None] i(1) by (simp add: do_set_def arg_def e_def)
    then show ?thesis using i(2,3) None unfolding server_at_def by (auto simp: set_item_def)
  next
    case (Some it)
    obtain b e where b: "db_lookup s k = ret (s, Some b)" "b \<in> N" "ekey s b = k" "entries s b = Some e" "ent_key e = k"
      "it = item_of s T b" using db_lookup_at(2) [OF ok Some] by blast
    let ?s' = "s\<lparr>entries := (entries s)(b \<mapsto> e\<lparr>ent_val := v\<rparr>)\<rparr>"
    note o = server_okD [OF ok(1)]
    have keys: "ekey ?s' = ekey s" using b(4) by (auto simp: ekey_def fun_eq_iff)
    have "server_at ?s' (M(k := if b \<in> N then Some (item_of ?s' T b) else None))"
    proof (rule server_at_change [OF ok, where a = b and T' = T])
      show "entry_ok ?s' T b" using o(3) [OF b(2)] b(4) v by (auto simp: entry_ok_def)
      show "k \<notin> ekey s ` (N - {b})" using ekey_inj [OF ok(1)] b(2,3) by (auto simp: inj_on_def)
      show "mem_finite ?s'" using o(7) by (simp add: mem_finite_def)
    qed (use o b keys in \<open>auto simp: same_entry_def\<close>)
    moreover have "item_of ?s' T b = set_item (M k) v" using b(4,6) Some by (simp add: item_of_def set_item_def Let_def)
    ultimately show ?thesis using b by (auto simp: do_set_def arg_def)
  qed
qed

section \<open>Enumeration\<close>

lemma cb_scan_fold:
  "set xs \<subseteq> N \<Longrightarrow> server_ok s N T \<Longrightarrow>
   foldE (cb_scan s) xs out = ret (out @ concat (map encode (map (\<lambda>a. VStr (ekey s a)) xs)))"
proof (induction xs arbitrary: out)
  case (Cons a xs)
  then obtain e where "entries s a = Some e" using server_okD(3) [OF Cons.prems(2), of a] by (auto simp: entry_ok_def)
  then have "cb_scan s a out = ret (out @ encode (VStr (ekey s a)))"
    by (simp add: cb_scan_def ekey_def out_str_def Let_def)
  then show ?case using Cons by simp
qed simp

lemma do_keys_ok:
  assumes "server_at s M"
  shows "\<exists>ks. do_keys s [c] [] = ret (s, encode (VArr (map VStr ks))) \<and> distinct ks \<and> set ks = dom M"
proof -
  obtain N T where ok: "server_ok s N T" "represents s N T M" using assms unfolding server_at_def by blast
  note o = server_okD [OF ok(1)]
  obtain xs where xs: "distinct xs" "set xs = N" and
    scan: "\<And>f (st :: bytes). h_scan (enodes s) (ht_to (db s)) f st = foldE f xs st"
    using hm_small_scan [OF o(1)] by blast
  obtain bt where "hm_at (enodes s) (db s) bt []" using o(1) by (auto simp: hm_small_def)
  then have "hsize (ht_from (db s)) = 0" using hm_at_sizes(1) by fastforce
  then have from_table: "h_scan (enodes s) (ht_from (db s)) f st = ret st" for f and st :: bytes by (simp add: h_scan_def)
  have len: "length xs = card N" using distinct_card [OF xs(1)] xs(2) by simp
  have "hm_size (db s) = of_nat (unat (hm_size (db s)))" by simp
  then have "hm_size (db s) = of_nat (card N)" using hm_size_card [OF hm_small_inv [OF o(1)]] by simp
  moreover have "card N < 2 ^ 64" using o(1) by (simp add: hm_small_def)
  ultimately have sz: "ucast (hm_size (db s)) = (of_nat (length xs) :: u32)"
    by (simp add: len unsigned_of_nat take_bit_nat_eq_self)
  have "do_keys s [c] [] = ret (s, encode (VArr (map VStr (map (ekey s) xs))))"
    by (simp add: do_keys_def scan from_table sz cb_scan_fold [OF _ ok(1), of xs] xs(2) comp_def)
  moreover have "distinct (map (ekey s) xs)" using xs ekey_inj [OF ok(1)] by (simp add: distinct_map)
  moreover have "set (map (ekey s) xs) = dom M" using ok(2) xs(2) by (simp add: represents_def)
  ultimately show ?thesis by blast
qed

section \<open>The capacity limit\<close>

text \<open>Creating the 32nd key starts a resize of the key map that never ends, unless all keys hash to bucket 0.\<close>

lemma set_32_diverges:
  assumes at: "server_at s M" and new: "M k = None" "card (dom M) = 31" "unused s a"
    and b: "k' \<in> insert k (dom M)" "str_hash k' AND 3 \<noteq> 0"
  shows "do_set a s [c, k, v] [] = None"
proof -
  obtain N T where ok: "server_ok s N T" "represents s N T M" using at unfolding server_at_def by blast
  note o = server_okD [OF ok(1)]
  let ?e = "Entry_default\<lparr>ent_key := k, ent_val := v\<rparr>" and ?n = "\<lparr>hnext = None, hcode = str_hash k\<rparr>"
  let ?hs = "(enodes s)(a \<mapsto> ?n)"
  have an: "a \<notin> N" using o(3) [of a] new(3) by (auto simp: entry_ok_def unused_def)
  have small: "hm_small ?hs (db s) N" by (rule hm_small_cong [OF o(1)]) (use an in auto)
  obtain x where x: "x \<in> insert a N" "code_of ?hs x = Some (str_hash k')"
  proof (cases "k' = k")
    case True
    then show thesis using that [of a] by (simp add: code_of_def)
  next
    case False
    then obtain x where "x \<in> N" "ekey s x = k'" using b(1) ok(2) by (auto simp: represents_def)
    moreover from this have "code_of (enodes s) x = Some (str_hash k')" "x \<noteq> a" using an o(2) by (auto simp: keyed_def)
    ultimately show thesis using that [of x] by (simp add: code_of_def)
  qed
  have "card N = 31" using card_keys [OF ok] new(2) by simp
  from hm_small_insert_32 [OF small _ an this x b(2)] have "hm_insert ?hs (db s) (Some a) = None" by simp
  then have "db_insert (entry_new s a ?e (str_hash k)) a = None" by (simp add: db_insert_def entry_new_def)
  then show ?thesis using db_lookup_at(1) [OF ok new(1)] by (simp add: do_set_def arg_def)
qed

end
