(* ===== verification/Keyspace_Zset.thy ===== *)
theory Keyspace_Zset
  imports Keyspace_Spec
begin

text \<open>
  The commands on sorted sets against the abstract key space: \<open>zadd\<close>, \<open>zrem\<close>, \<open>zscore\<close> and \<open>zquery\<close>. A
  command changes one entry and the nodes of its set; the sets of the other entries are disjoint
  from it, so their part of the invariant is kept by framing.
\<close>

section \<open>Changing one sorted set\<close>

lemma zset_entry:
  assumes ok: "server_ok s N T" and rep: "represents s N T M" and it: "M k = Some it" "it_set it = Some Z"
  obtains a e z where "db_lookup s k = ret (s, Some a)" "a \<in> N" "ekey s a = k" "entries s a = Some e"
    "ent_type e = T_ZSET" "ent_zset e = Some z" "zset_ok (zheap s) z (T a)" "Z = zscores (zheap s) (T a)"
    "it = item_of s T a"
proof -
  obtain a e where a: "db_lookup s k = ret (s, Some a)" "a \<in> N" "ekey s a = k" "entries s a = Some e"
    "it = item_of s T a" "it_set it = None \<longleftrightarrow> ent_type e \<noteq> T_ZSET" using db_lookup_at(2) [OF ok rep it(1)] by metis
  then have "ent_type e = T_ZSET" using it(2) by simp
  moreover obtain z where "ent_zset e = Some z" "zset_ok (zheap s) z (T a)"
    using server_okD(3) [OF ok a(2)] a(4) \<open>ent_type e = T_ZSET\<close> by (auto simp: entry_ok_def)
  moreover have "Z = zscores (zheap s) (T a)" using a(4,5) it(2) \<open>ent_type e = T_ZSET\<close> by (simp add: item_of_def Let_def)
  ultimately show thesis using that a by blast
qed

lemma zset_change:
  assumes ok: "server_ok s N T" and rep: "represents s N T M"
    and a: "a \<in> N" "ekey s a = k" "entries s a = Some e" "ent_type e = T_ZSET"
    and z: "zset_ok m' z' t'" "zframe A (zheap s) m'" "set_tree t' \<subseteq> A" and fin: "finite A"
    and disj: "\<And>b. b \<in> N \<Longrightarrow> b \<noteq> a \<Longrightarrow> A \<inter> set_tree (T b) = {}"
  shows "server_at (s\<lparr>entries := (entries s)(a \<mapsto> e\<lparr>ent_zset := Some z'\<rparr>), zheap := m'\<rparr>)
    (M(k \<mapsto> (item_of s T a)\<lparr>it_set := Some (zscores m' t')\<rparr>))"
proof -
  let ?s' = "s\<lparr>entries := (entries s)(a \<mapsto> e\<lparr>ent_zset := Some z'\<rparr>), zheap := m'\<rparr>" and ?T' = "T(a := t')"
  note o = server_okD [OF ok]
  have keys: "ekey ?s' = ekey s" using a(3) by (auto simp: ekey_def fun_eq_iff)
  have same: "same_entry s T ?s' ?T' b" if "b \<in> N - {a}" for b
    using z(2) disj [of b] that by (auto simp: same_entry_def zframe_def)
  have "server_at ?s' (M(k := if a \<in> N then Some (item_of ?s' ?T' a) else None))"
  proof (rule server_at_change [OF ok rep, where a = a and T' = ?T'])
    show "entry_ok ?s' ?T' a" using o(3) [OF a(1)] a(3,4) z(1) by (auto simp: entry_ok_def)
    show "k \<notin> ekey s ` (N - {a})" using ekey_inj [OF ok] a(1,2) by (auto simp: inj_on_def)
    show "set_tree (?T' a) \<inter> set_tree (T b) = {}" if "b \<in> N - {a}" for b using z(3) disj [of b] that by auto
    show "mem_finite ?s'" using o(7) zframe_finite [OF z(2) fin] by (simp add: mem_finite_def)
  qed (use o a keys same in auto)
  moreover have "item_of ?s' ?T' a = (item_of s T a)\<lparr>it_set := Some (zscores m' t')\<rparr>"
    using a(3,4) by (simp add: item_of_def Let_def)
  ultimately show ?thesis using a(1) by simp
qed

lemma zset_size: "zset_ok m z t \<Longrightarrow> size t = card (dom (zscores m t))"
proof -
  assume ok: "zset_ok m z t"
  have "dom (zscores m t) = fst ` set (zview m t)" by (simp add: zscores_def dom_map_of_conv_image_fst)
  then have "card (dom (zscores m t)) = length (map fst (zview m t))"
    using distinct_card [OF zview_distinct [OF ok]] by simp
  then show ?thesis by (simp add: zview_def)
qed

lemma tree_nodes_used: "zset_ok m z t \<Longrightarrow> znodes m x = None \<Longrightarrow> x \<notin> set_tree t"
  by (auto simp: zset_ok_def nodes_ok_def)

definition unused_node :: "zmem \<Rightarrow> addr \<Rightarrow> bool" where
  "unused_node m x \<longleftrightarrow> tnodes m x = None \<and> hnodes m x = None \<and> znodes m x = None"

lemma entry_tree_unused:
  assumes "entry_ok s T b" "unused_node (zheap s) x"
  shows "x \<notin> set_tree (T b)"
proof -
  obtain e :: Entry where e: "if ent_type e = T_ZSET then \<exists>z. ent_zset e = Some z \<and> zset_ok (zheap s) z (T b) else T b = \<langle>\<rangle>"
    using assms(1) unfolding entry_ok_def by blast
  show ?thesis
  proof (cases "ent_type e = T_ZSET")
    case True
    then obtain z where "zset_ok (zheap s) z (T b)" using e by auto
    then show ?thesis using assms(2) tree_nodes_used by (simp add: unused_node_def)
  qed (use e in simp)
qed

lemma expect_zset_at:
  assumes "server_ok s N T" "represents s N T M"
  shows "M k = None \<Longrightarrow> expect_zset s out k = ret (s, out_nil out, False, None)"
    and "M k = Some it \<Longrightarrow> it_set it = None \<Longrightarrow>
      expect_zset s out k = ret (s, out_err out ERR_TYPE (lit ''expecting zset''), False, None)"
    and "db_lookup s k = ret (s, Some a) \<Longrightarrow> entries s a = Some e \<Longrightarrow> ent_type e = T_ZSET \<Longrightarrow>
      expect_zset s out k = ret (s, out, True, Some a)"
proof -
  show "expect_zset s out k = ret (s, out_nil out, False, None)" if "M k = None"
    using db_lookup_at(1) [OF assms that] by (simp add: expect_zset_def)
  show "expect_zset s out k = ret (s, out_err out ERR_TYPE (lit ''expecting zset''), False, None)"
    if "M k = Some it" "it_set it = None"
    using db_lookup_at(2) [OF assms that(1)] that(2) by (auto simp: expect_zset_def)
qed (simp add: expect_zset_def)

subsection \<open>\<open>zadd\<close>\<close>

lemma zset_add_ok:
  assumes ok: "zset_ok m z t" and "\<not> dbl_nan sc" "length nm < 2 ^ 32"
    and room: "zscores m t nm = None \<Longrightarrow> unused_node m x \<and> card (dom (zscores m t)) + 1 < 32"
  shows "\<exists>m' z' t' A. zset_add m z (Some x) nm sc = ret (m', z', zscores m t nm = None) \<and> zset_ok m' z' t' \<and>
    set_tree t' \<subseteq> A \<and> A = set_tree t \<union> (if zscores m t nm = None then {x} else {}) \<and>
    zscores m' t' = (zscores m t)(nm \<mapsto> new_score (zscores m t nm) sc) \<and> zframe A m m'"
proof (cases "zscores m t nm")
  case None
  have room': "size t + 1 < 32" and u: "tnodes m x = None" "hnodes m x = None" "znodes m x = None"
    using room [OF None] zset_size [OF ok] by (simp_all add: unused_node_def)
  obtain m' z' t' where "zset_add m z (Some x) nm sc = ret (m', z', True)" "zset_ok m' z' t'"
    "set_tree t' = insert x (set_tree t)" "zscores m' t' = (zscores m t)(nm \<mapsto> sc)" "zframe (insert x (set_tree t)) m m'"
    using zset_add_new [OF ok None assms(2,3) room' u] by metis
  then show ?thesis using None by (auto simp: new_score_def)
next
  case (Some sc0)
  obtain m' z' t' where "zset_add m z (Some x) nm sc = ret (m', z', False)" "zset_ok m' z' t'"
    "set_tree t' = set_tree t" "zscores m' t' = (zscores m t)(nm \<mapsto> new_score (Some sc0) sc)" "zframe (set_tree t) m m'"
    using zset_add_existing [OF ok Some assms(2)] by metis
  then show ?thesis using Some by auto
qed

text \<open>The item of a key after a member is added: a missing key becomes an empty sorted set first.\<close>

definition zadd_base :: "item option \<Rightarrow> item" where
  "zadd_base old = (case old of None \<Rightarrow> \<lparr>it_val = [], it_set = Some Map.empty, it_ttl = None\<rparr> | Some it \<Rightarrow> it)"

definition zadd_spec :: "keyspace \<Rightarrow> bytes \<Rightarrow> bytes \<Rightarrow> bytes \<Rightarrow> val \<times> keyspace" where
  "zadd_spec M k sc nm =
     (case str2double sc of (ok, d) \<Rightarrow>
      if \<not> ok then (VErr ERR_ARG (lit ''expected fp number''), M)
      else let it = zadd_base (M k) in
        case it_set it of
          None \<Rightarrow> (VErr ERR_TYPE (lit ''expecting zset''), M)
        | Some Z \<Rightarrow> (VInt (if Z nm = None then 1 else 0),
            M(k \<mapsto> it\<lparr>it_set := Some (Z(nm \<mapsto> new_score (Z nm) d))\<rparr>)))"

lemma zadd_step:
  assumes ok: "server_ok s N T" and rep: "represents s N T M" and it: "M k = Some it" "it_set it = Some Z"
    and sc: "str2double sc = (True, d)" and nm: "length nm < 2 ^ 32"
    and room: "Z nm = None \<Longrightarrow> unused_node (zheap s) x \<and> card (dom Z) + 1 < 32"
    and lk: "entries s a = Some e" "db_lookup s k = ret (s, Some a)"
  shows "\<exists>z m' z'. ent_type e = T_ZSET \<and> ent_zset e = Some z \<and> zset_add (zheap s) z (Some x) nm d = ret (m', z', Z nm = None) \<and>
    server_at (s\<lparr>entries := (entries s)(a \<mapsto> e\<lparr>ent_zset := Some z'\<rparr>), zheap := m'\<rparr>) (snd (zadd_spec M k sc nm))"
proof -
  obtain z where z: "a \<in> N" "ekey s a = k" "ent_type e = T_ZSET" "ent_zset e = Some z" "zset_ok (zheap s) z (T a)"
    "Z = zscores (zheap s) (T a)" "it = item_of s T a"
    using zset_entry [OF ok rep it] lk by (metis Pair_inject option.inject ret_inject)
  obtain m' z' t' A where r: "zset_add (zheap s) z (Some x) nm d = ret (m', z', Z nm = None)" "zset_ok m' z' t'"
    "set_tree t' \<subseteq> A" "A = set_tree (T a) \<union> (if Z nm = None then {x} else {})"
    "zscores m' t' = Z(nm \<mapsto> new_score (Z nm) d)" "zframe A (zheap s) m'"
    using zset_add_ok [OF z(5) str2double_not_nan [OF sc] nm] room z(6) by metis
  note o = server_okD [OF ok]
  have disj: "A \<inter> set_tree (T b) = {}" if "b \<in> N" "b \<noteq> a" for b
    using o(4) [OF z(1) that(1)] that(2) r(4) room entry_tree_unused [OF o(3) [OF that(1)], of x] by auto
  have "finite A" using r(4) by simp
  from zset_change [OF ok rep z(1,2) lk(1) z(3) r(2,6,3) this disj]
  have "server_at (s\<lparr>entries := (entries s)(a \<mapsto> e\<lparr>ent_zset := Some z'\<rparr>), zheap := m'\<rparr>) (snd (zadd_spec M k sc nm))"
    using sc it z(7) r(5) by (simp add: zadd_spec_def zadd_base_def Let_def)
  then show ?thesis using z(3,4) r(1) by blast
qed

lemma do_zadd_new:
  assumes ok: "server_ok s N T" "represents s N T M" and none: "M k = None" and sc: "str2double sc = (True, d)"
    and nm: "length nm < 2 ^ 32" and u: "unused s a" "card (dom M) + 1 < 32" "unused_node (zheap s) x"
  shows "\<exists>s'. do_zadd a (Some x) s [c, k, sc, nm] [] = ret (s', encode (VInt 1)) \<and>
    server_at s' (snd (zadd_spec M k sc nm))"
proof -
  define e where "e = Entry_default\<lparr>ent_key := k, ent_type := T_ZSET, ent_zset := Some ZSet_default\<rparr>"
  let ?it = "\<lparr>it_val = [], it_set = Some Map.empty, it_ttl = None\<rparr>" and ?M1 = "M(k \<mapsto> \<lparr>it_val = [], it_set = Some Map.empty, it_ttl = None\<rparr>)"
  have e: "ent_key e = k" "length (ent_val e) \<le> K_MAX_MSG" "ent_type e = T_ZSET \<Longrightarrow> ent_zset e = Some ZSet_default"
    and t: "ent_type e = T_ZSET" "ent_val e = []" by (simp_all add: e_def Entry_default_def)
  obtain s1 T1 where i: "db_insert (entry_new s a e (str_hash k)) a = ret s1" "server_ok s1 (insert a N) T1"
    "represents s1 (insert a N) T1 ?M1" "zheap s1 = zheap s" "entries s1 = (entries s)(a \<mapsto> e)"
    using db_insert_new [OF ok none u(1,2) e] t by auto
  have "?M1 k = Some ?it" by simp
  from db_lookup_at(2) [OF i(2,3) this] obtain b where b: "db_lookup s1 k = ret (s1, Some b)" "b \<in> insert a N" "ekey s1 b = k"
    by blast
  have "ekey s1 a = k" using i(5) e(1) by (simp add: ekey_def)
  then have "b = a" using inj_onD [OF ekey_inj [OF i(2)], of b a] b(2,3) by simp
  with b(1) have lk: "db_lookup s1 k = ret (s1, Some a)" "entries s1 a = Some e" using i(5) by simp_all
  obtain z m' z' where r: "ent_type e = T_ZSET" "ent_zset e = Some z" "zset_add (zheap s1) z (Some x) nm d = ret (m', z', True)"
    "server_at (s1\<lparr>entries := (entries s1)(a \<mapsto> e\<lparr>ent_zset := Some z'\<rparr>), zheap := m'\<rparr>) (snd (zadd_spec ?M1 k sc nm))"
    using zadd_step [OF i(2,3), where k = k and it = ?it and Z = Map.empty and sc = sc and d = d and nm = nm and x = x and a = a and e = e]
      sc nm u(3) lk i(4) by auto
  have "snd (zadd_spec ?M1 k sc nm) = snd (zadd_spec M k sc nm)"
    using none sc by (simp add: zadd_spec_def zadd_base_def Let_def)
  moreover have "do_zadd a (Some x) s [c, k, sc, nm] [] =
      ret (s1\<lparr>entries := (entries s1)(a \<mapsto> e\<lparr>ent_zset := Some z'\<rparr>), zheap := m'\<rparr>, encode (VInt 1))"
    using db_lookup_at(1) [OF ok none] i(1) r(2,3) sc lk(2) by (simp add: do_zadd_def arg_def e_def)
  ultimately show ?thesis using r(4) by simp
qed

lemma do_zadd_ok:
  assumes at: "server_at s M" and nm: "length nm < 2 ^ 32"
    and room: "M k = None \<Longrightarrow> unused s a \<and> card (dom M) + 1 < 32"
    and node: "\<And>Z. it_set (zadd_base (M k)) = Some Z \<Longrightarrow> Z nm = None \<Longrightarrow> unused_node (zheap s) x \<and> card (dom Z) + 1 < 32"
  shows "\<exists>s'. do_zadd a (Some x) s [c, k, sc, nm] [] = ret (s', encode (fst (zadd_spec M k sc nm))) \<and>
    server_at s' (snd (zadd_spec M k sc nm))"
proof -
  obtain N T where ok: "server_ok s N T" "represents s N T M" using at unfolding server_at_def by blast
  obtain b d where bd: "str2double sc = (b, d)" by (cases "str2double sc")
  show ?thesis
  proof (cases b)
    case False
    then show ?thesis using bd at by (simp add: do_zadd_def zadd_spec_def arg_def)
  next
    case True
    with bd have sc: "str2double sc = (True, d)" by simp
    show ?thesis
    proof (cases "M k")
      case None
      then have "unused_node (zheap s) x" using node [of Map.empty] by (simp add: zadd_base_def)
      from do_zadd_new [OF ok None sc nm _ _ this, of a] room [OF None]
      show ?thesis using None sc by (simp add: zadd_spec_def zadd_base_def Let_def)
    next
      case (Some it)
      obtain a' e where a': "db_lookup s k = ret (s, Some a')" "entries s a' = Some e" "it_set it = None \<longleftrightarrow> ent_type e \<noteq> T_ZSET"
        using db_lookup_at(2) [OF ok Some] by metis
      show ?thesis
      proof (cases "it_set it")
        case None
        then show ?thesis using a' sc Some at by (simp add: do_zadd_def zadd_spec_def zadd_base_def arg_def Let_def)
      next
        case Z: (Some Z)
        have "Z nm = None \<Longrightarrow> unused_node (zheap s) x \<and> card (dom Z) + 1 < 32"
          using node [of Z] Some Z by (simp add: zadd_base_def)
        from zadd_step [OF ok Some Z sc nm this a'(2,1)]
        show ?thesis using a' sc Some Z by (auto simp: do_zadd_def zadd_spec_def zadd_base_def arg_def Let_def)
      qed
    qed
  qed
qed

subsection \<open>\<open>zrem\<close> and \<open>zscore\<close>\<close>

definition zrem_spec :: "keyspace \<Rightarrow> bytes \<Rightarrow> bytes \<Rightarrow> val \<times> keyspace" where
  "zrem_spec M k nm = (case M k of None \<Rightarrow> (VNil, M)
     | Some it \<Rightarrow>
         (case it_set it of None \<Rightarrow> (VErr ERR_TYPE (lit ''expecting zset''), M)
          | Some Z \<Rightarrow> (VInt (if Z nm = None then 0 else 1), M(k \<mapsto> it\<lparr>it_set := Some (Z(nm := None))\<rparr>))))"

definition zscore_spec :: "keyspace \<Rightarrow> bytes \<Rightarrow> bytes \<Rightarrow> val" where
  "zscore_spec M k nm = (case M k of None \<Rightarrow> VNil
     | Some it \<Rightarrow>
         (case it_set it of None \<Rightarrow> VErr ERR_TYPE (lit ''expecting zset'')
          | Some Z \<Rightarrow> (case Z nm of None \<Rightarrow> VNil | Some d \<Rightarrow> VDbl d)))"

text \<open>Popping a member and freeing its node.\<close>

lemma zset_remove_ok:
  assumes ok: "zset_ok m z t"
  shows "\<exists>m1 z' p m' t'. zset_pop m z nm = ret (m1, z', p) \<and>
    (if p \<noteq> None then znode_del m1 p else ret m1) = ret m' \<and> (p = None \<longleftrightarrow> zscores m t nm = None) \<and>
    zset_ok m' z' t' \<and> set_tree t' \<subseteq> set_tree t \<and> zscores m' t' = (zscores m t)(nm := None) \<and> zframe (set_tree t) m m'"
proof -
  obtain m1 z' p t' where p: "zset_pop m z nm = ret (m1, z', p)" "at_key (set_tree t) (zname (znodes m)) nm p"
    "zset_ok m1 z' t'" "set_tree t' = set_tree t - set_option p" "znodes m1 = znodes m" "zframe (set_tree t) m m1"
    using zset_pop_ok [OF ok] by metis
  have sc: "zscores m1 t' = (zscores m t)(nm := None)" using zscores_removed [OF ok p(3,2,4,5)] .
  show ?thesis
  proof (cases p)
    case None
    then show ?thesis using p sc at_key_payload [OF ok p(2)] by auto
  next
    case (Some a)
    let ?m' = "m1\<lparr>tnodes := (tnodes m1)(a := None), hnodes := (hnodes m1)(a := None), znodes := (znodes m1)(a := None)\<rparr>"
    obtain d where a: "a \<in> set_tree t" "znodes m a = Some \<lparr>score = d, name = nm\<rparr>"
      using at_key_payload [OF ok p(2)] Some by auto
    then have "zscores m t nm = Some d" using zscores_iff [OF ok] by blast
    moreover have "znode_del m1 p = ret ?m'" using Some a(2) p(5) by (simp add: znode_del_def)
    moreover have "a \<notin> set_tree t'" using p(4) Some by simp
    then have "zset_ok ?m' z' t'" "zscores ?m' t' = zscores m1 t'"
      by (intro zset_ok_cong [OF p(3)]; auto)+
    moreover have "zframe (set_tree t) m ?m'" using p(6) a(1) by (auto simp: zframe_def)
    ultimately show ?thesis using p(1,4) Some sc by auto
  qed
qed

lemma do_zrem_ok:
  assumes at: "server_at s M"
  shows "\<exists>s'. do_zrem s [c, k, nm] [] = ret (s', encode (fst (zrem_spec M k nm))) \<and> server_at s' (snd (zrem_spec M k nm))"
proof -
  obtain N T where ok: "server_ok s N T" "represents s N T M" using at unfolding server_at_def by blast
  show ?thesis
  proof (cases "M k")
    case None
    then show ?thesis using expect_zset_at(1) [OF ok None] at by (simp add: do_zrem_def zrem_spec_def arg_def)
  next
    case (Some it)
    show ?thesis
    proof (cases "it_set it")
      case None
      then show ?thesis using expect_zset_at(2) [OF ok Some None] Some at by (simp add: do_zrem_def zrem_spec_def arg_def)
    next
      case Z: (Some Z)
      obtain a e z where a: "db_lookup s k = ret (s, Some a)" "a \<in> N" "ekey s a = k" "entries s a = Some e"
        "ent_type e = T_ZSET" "ent_zset e = Some z" "zset_ok (zheap s) z (T a)" "Z = zscores (zheap s) (T a)"
        "it = item_of s T a" using zset_entry [OF ok Some Z] .
      obtain m1 z' p m' t' where r: "zset_pop (zheap s) z nm = ret (m1, z', p)"
        "(if p \<noteq> None then znode_del m1 p else ret m1) = ret m'" "p = None \<longleftrightarrow> Z nm = None" "zset_ok m' z' t'"
        "set_tree t' \<subseteq> set_tree (T a)" "zscores m' t' = Z(nm := None)" "zframe (set_tree (T a)) (zheap s) m'"
        using zset_remove_ok [OF a(7), of nm, folded a(8)] by (elim exE conjE) (rule that; assumption)
      have "set_tree (T a) \<inter> set_tree (T b) = {}" if "b \<in> N" "b \<noteq> a" for b
        using server_okD(4) [OF ok(1) a(2) that(1)] that(2) by simp
      note ch = zset_change [OF ok a(2,3,4,5) r(4,7,5) finite_set_tree this]
      have spec: "zrem_spec M k nm = (VInt (if p \<noteq> None then 1 else 0), M(k \<mapsto> (item_of s T a)\<lparr>it_set := Some (zscores m' t')\<rparr>))"
        using Some Z a(9) r(3,6) by (simp add: zrem_spec_def)
      have "do_zrem s [c, k, nm] [] = ret (s\<lparr>entries := (entries s)(a \<mapsto> e\<lparr>ent_zset := Some z'\<rparr>), zheap := m'\<rparr>,
          out_int [] (if p \<noteq> None then 1 else 0))"
        using expect_zset_at(3) [OF ok a(1,4,5)] a(4,6) r(1,2) by (cases p) (simp_all add: do_zrem_def arg_def)
      then show ?thesis using ch unfolding spec by simp
    qed
  qed
qed

lemma do_zscore_ok:
  assumes at: "server_at s M"
  shows "do_zscore s [c, k, nm] [] = ret (s, encode (zscore_spec M k nm))"
proof -
  obtain N T where ok: "server_ok s N T" "represents s N T M" using at unfolding server_at_def by blast
  show ?thesis
  proof (cases "M k")
    case None
    then show ?thesis using expect_zset_at(1) [OF ok None] by (simp add: do_zscore_def zscore_spec_def arg_def)
  next
    case (Some it)
    show ?thesis
    proof (cases "it_set it")
      case None
      then show ?thesis using expect_zset_at(2) [OF ok Some None] Some by (simp add: do_zscore_def zscore_spec_def arg_def)
    next
      case Z: (Some Z)
      obtain a e z where a: "db_lookup s k = ret (s, Some a)" "entries s a = Some e"
        "ent_type e = T_ZSET" "ent_zset e = Some z" "zset_ok (zheap s) z (T a)" "Z = zscores (zheap s) (T a)"
        using zset_entry [OF ok Some Z] by metis
      obtain p where p: "zset_lookup (zheap s) z nm = ret (zheap s, z, p)" "at_key (set_tree (T a)) (zname (znodes (zheap s))) nm p"
        using zset_lookup_ok [OF a(5)] by blast
      have same: "s\<lparr>entries := (entries s)(a \<mapsto> e\<lparr>ent_zset := Some z\<rparr>), zheap := zheap s\<rparr> = s"
      proof -
        have "e\<lparr>ent_zset := Some z\<rparr> = e" using a(4) by (simp add: Entry.equality)
        then show ?thesis using a(2) by (simp add: fun_upd_idem)
      qed
      have "case p of None \<Rightarrow> Z nm = None | Some b \<Rightarrow> \<exists>d. znodes (zheap s) b = Some \<lparr>score = d, name = nm\<rparr> \<and> Z nm = Some d"
        using at_key_payload [OF a(5) p(2)] zscores_iff [OF a(5)] a(6) by (auto split: option.splits)
      then show ?thesis using expect_zset_at(3) [OF ok a(1,2,3)] Some Z a(2,4) p(1) same
        by (auto simp: do_zscore_def zscore_spec_def arg_def Let_def split: option.splits)
    qed
  qed
qed

subsection \<open>\<open>zquery\<close>\<close>

text \<open>The members of a set in their order. A map has at most one such list.\<close>

definition zpos :: "bytes \<times> u64 \<Rightarrow> int \<times> bytes" where
  "zpos x = (dbl_key (snd x), fst x)"

definition ranked :: "(bytes \<Rightarrow> u64 option) \<Rightarrow> (bytes \<times> u64) list \<Rightarrow> bool" where
  "ranked Z xs \<longleftrightarrow> map_of xs = Z \<and> distinct (map fst xs) \<and> sorted_wrt (\<lambda>x y. zpos x < zpos y) xs"

lemma ranked_unique:
  assumes "ranked Z xs" "ranked Z ys"
  shows "xs = ys"
proof -
  have srt: "sorted (map zpos l) \<and> distinct (map zpos l)" if "ranked Z l" for l
    using that strict_sorted_iff [of "map zpos l"] by (simp add: ranked_def sorted_wrt_map)
  have graph: "set l = {(n, d). Z n = Some d}" if "ranked Z l" for l
    using that by (auto simp: ranked_def map_of_eq_Some_iff)
  have "inj_on zpos {(n, d). Z n = Some d}" by (auto simp: inj_on_def zpos_def)
  then have "inj_on zpos (set xs \<union> set ys)" using graph assms by simp
  moreover have "map zpos xs = map zpos ys"
    using srt assms graph by (intro sorted_distinct_set_unique) simp_all
  ultimately show ?thesis using map_inj_on by blast
qed

lemma zview_ranked:
  assumes "zset_ok m z t"
  shows "ranked (zscores m t) (zview m t)"
proof -
  have "sorted_wrt (\<lambda>x y. zpos x < zpos y) (zview m t)"
    using zset_okD(5) [OF assms] by (simp add: zview_def sorted_wrt_map zsorted_def zpos_def zkey_of_def zkey_def)
  then show ?thesis using zview_distinct [OF assms] by (simp add: ranked_def zscores_def)
qed

text \<open>
  What a query returns: members from position \<open>off\<close> after the first one not below \<open>(sc, nm)\<close>. A member is
  sent as two values and \<open>lim\<close> bounds the number of values, so half of it, rounded up, bounds the members.
\<close>

definition zwindow :: "(bytes \<times> u64) list \<Rightarrow> u64 \<Rightarrow> bytes \<Rightarrow> int \<Rightarrow> int \<Rightarrow> (bytes \<times> u64) list" where
  "zwindow xs sc nm off lim =
     (let i = length (filter (\<lambda>x. zpos x < (dbl_key sc, nm)) xs) in
      if i < length xs \<and> 0 \<le> int i + off then take (nat ((lim + 1) div 2)) (drop (nat (int i + off)) xs) else [])"

definition zpairs :: "(bytes \<times> u64) list \<Rightarrow> val list" where
  "zpairs xs = concat (map (\<lambda>x. [VStr (fst x), VDbl (snd x)]) xs)"

lemma length_zpairs: "length (zpairs xs) = 2 * length xs"
  by (induction xs) (simp_all add: zpairs_def)

lemma out_append: "out_str out s = out @ encode (VStr s)" "out_double out d = out @ encode (VDbl d)"
  by (simp_all add: out_defs Let_def)

lemma zquery_loop_ok:
  assumes ok: "zset_ok m z t" and "j \<le> size t" and "unat n + 2 * (size t - j) < 2 ^ 32"
  shows "zquery_loop m limit (nth_opt (inorder t) (int j)) n out =
    (let ys = take (nat ((limit - uint n + 1) div 2)) (drop j (zview m t)) in
     ret (n + 2 * of_nat (length ys), out @ concat (map encode (zpairs ys))))"
  using assms(2,3)
proof (induction "size t - j" arbitrary: j n out)
  case 0
  then have "nth_opt (inorder t) (int j) = None" "drop j (zview m t) = []" by (simp_all add: nth_opt_def zview_def)
  then show ?case by (simp add: zquery_loop.simps zpairs_def)
next
  case (Suc r)
  let ?xs = "inorder t" and ?a = "inorder t ! j"
  have j: "j < size t" using Suc.hyps(2) by simp
  then have nth: "nth_opt ?xs (int j) = Some ?a" by (simp add: nth_opt_def)
  have "?a \<in> set_tree t" using j by (metis length_inorder nth_mem set_inorder)
  then obtain zn where zn: "znodes m ?a = Some zn" using zset_okD(4) [OF ok] by (auto elim: nodes_okE)
  then have "zview m t ! j = (name zn, score zn)" using j by (simp add: zview_def)
  then have drop: "drop j (zview m t) = (name zn, score zn) # drop (Suc j) (zview m t)"
    using j Cons_nth_drop_Suc [of j "zview m t"] by (simp add: zview_def)
  show ?case
  proof (cases "uint n < limit")
    case False
    then have "nat ((limit - uint n + 1) div 2) = 0" by simp
    then show ?thesis using False by (simp add: zquery_loop.simps zpairs_def)
  next
    case True
    have off: "avl_offset (tnodes m) (Some ?a) 1 = ret (nth_opt ?xs (int (Suc j)))"
      using avl_rep_offset [OF zset_okD(1) [OF ok], of j ?a 1] j by (simp add: add.commute)
    have un: "unat (n + 2) = unat n + 2" using Suc.prems(2) j by (subst unat_add_lem [THEN iffD1]) simp_all
    then have u: "uint (n + 2) = uint n + 2" unfolding uint_nat [of "n + 2"] uint_nat [of n] by simp
    let ?c = "nat ((limit - uint (n + 2) + 1) div 2)" and ?ys = "drop (Suc j) (zview m t)"
    have "(limit - uint n + 1) div 2 = (limit - uint (n + 2) + 1) div 2 + 1" "0 \<le> (limit - uint (n + 2) + 1) div 2"
      using True u by simp_all
    then have c: "nat ((limit - uint n + 1) div 2) = Suc ?c" by simp
    have IH: "zquery_loop m limit (nth_opt ?xs (int (Suc j))) (n + 2) out' =
        (let ys = take ?c ?ys in ret (n + 2 + 2 * of_nat (length ys), out' @ concat (map encode (zpairs ys))))" for out'
      using Suc.hyps Suc.prems un j by (intro Suc.hyps(1)) auto
    have "zquery_loop m limit (Some ?a) n out =
        zquery_loop m limit (nth_opt ?xs (int (Suc j))) (n + 2) (out_double (out_str out (name zn)) (score zn))"
      using True zn off by (subst zquery_loop.simps) simp
    moreover have "zpairs ((name zn, score zn) # ys) = VStr (name zn) # VDbl (score zn) # zpairs ys" for ys
      by (simp add: zpairs_def)
    ultimately show ?thesis
      unfolding nth c drop take_Suc_Cons IH Let_def out_append by (simp add: distrib_left)
  qed
qed

definition zquery_spec :: "keyspace \<Rightarrow> bytes \<Rightarrow> bytes \<Rightarrow> bytes \<Rightarrow> bytes \<Rightarrow> bytes \<Rightarrow> val \<Rightarrow> bool" where
  "zquery_spec M k sc nm off lim v \<longleftrightarrow>
     (if \<not> fst (str2double sc) then v = VErr ERR_ARG (lit ''expecting fp number'')
      else if \<not> fst (str2int off) \<or> \<not> fst (str2int lim) then v = VErr ERR_ARG (lit ''expecting int'')
      else case M k of None \<Rightarrow> v = VArr []
        | Some it \<Rightarrow>
            (case it_set it of None \<Rightarrow> v = VErr ERR_TYPE (lit ''expecting zset'')
             | Some Z \<Rightarrow> \<exists>xs. ranked Z xs \<and>
                 v = VArr (zpairs (zwindow xs (snd (str2double sc)) nm (snd (str2int off)) (snd (str2int lim))))))"

lemma update_arr: "out_update_arr (out_arr [] 0 @ rest) n = ret (out_arr [] n @ rest)"
  by (simp add: out_update_arr_def out_arr_def write_bytes_def)

lemma zquery_set_ok:
  assumes ok: "zset_ok m z t" and sc: "\<not> dbl_nan d" and nm: "length nm < 2 ^ 32"
  shows "bindE (zset_query m z d nm off) (\<lambda>znode.
      bindE (zquery_loop m lim znode 0 (out_arr [] 0)) (\<lambda>(n, out).
      bindE (out_update_arr out n) (\<lambda>out. ret (s, out)))) =
    ret (s, encode (VArr (zpairs (zwindow (zview m t) d nm off lim))))"
proof -
  let ?xs = "inorder t" and ?v = "zview m t"
  let ?i = "length (filter (\<lambda>x. zpos x < (dbl_key d, nm)) ?v)"
  have len: "length ?v = size t" by (simp add: zview_def)
  have "zrank (znodes m) ?xs (dbl_key d, nm) = ?i"
    by (simp add: zrank_def zview_def filter_map comp_def zpos_def zkey_of_def zkey_def)
  then have q: "zset_query m z d nm off = ret (if ?i < size t then nth_opt ?xs (int ?i + off) else None)"
    using zset_query_ok [OF ok sc nm, of off] by (simp add: Let_def)
  have "card (set_tree t) < 32" using zset_okD(2) [OF ok] by (simp add: hm_small_def)
  then have sz: "size t < 32" using avl_repD(2) [OF zset_okD(1) [OF ok]] by (metis distinct_card length_inorder set_inorder)
  let ?j = "nat (int ?i + off)"
  show ?thesis
  proof (cases "?i < size t \<and> 0 \<le> int ?i + off \<and> ?j \<le> size t")
    case True
    then have "zset_query m z d nm off = ret (nth_opt ?xs (int ?j))" using q by simp
    moreover have "zwindow ?v d nm off lim = take (nat ((lim + 1) div 2)) (drop ?j ?v)"
      using True len by (simp add: zwindow_def Let_def)
    ultimately show ?thesis
      using zquery_loop_ok [OF ok, of ?j 0 lim "out_arr [] 0"] True sz
      by (simp add: Let_def update_arr length_zpairs)
  next
    case False
    then have "zset_query m z d nm off = ret None" using q by (auto simp: nth_opt_def)
    moreover have "zwindow ?v d nm off lim = []" using False len by (auto simp: zwindow_def Let_def)
    ultimately show ?thesis using update_arr [of "[]" 0] by (simp add: zquery_loop.simps zpairs_def)
  qed
qed

lemma zwindow_none: "lim \<le> 0 \<Longrightarrow> zwindow xs sc nm off lim = []"
  by (simp add: zwindow_def Let_def)

lemma do_zquery_ok:
  assumes at: "server_at s M" and nm: "length nm < 2 ^ 32"
  shows "\<exists>v. do_zquery s [c, k, sc, nm, off, lim] [] = ret (s, encode v) \<and> zquery_spec M k sc nm off lim v"
proof -
  obtain N T where ok: "server_ok s N T" "represents s N T M" using at unfolding server_at_def by blast
  obtain b1 d b2 ov b3 lv where p: "str2double sc = (b1, d)" "str2int off = (b2, ov)" "str2int lim = (b3, lv)"
    by (metis surj_pair)
  show ?thesis
  proof (cases "b1 \<and> b2 \<and> b3")
    case False
    then show ?thesis using p by (auto simp: do_zquery_def zquery_spec_def arg_def)
  next
    case True
    with p have p': "str2double sc = (True, d)" "str2int off = (True, ov)" "str2int lim = (True, lv)" by simp_all
    show ?thesis
    proof (cases "M k")
      case None
      then show ?thesis using p' expect_zset_at(1) [OF ok None]
        by (intro exI [of _ "VArr []"]) (simp add: do_zquery_def zquery_spec_def arg_def out_nil_def)
    next
      case (Some it)
      show ?thesis
      proof (cases "it_set it")
        case None
        then show ?thesis using p' Some expect_zset_at(2) [OF ok Some None]
          by (intro exI [of _ "VErr ERR_TYPE (lit ''expecting zset'')"])
            (simp add: do_zquery_def zquery_spec_def arg_def out_err_def ser_defs)
      next
        case Z: (Some Z)
        obtain a e z where a: "db_lookup s k = ret (s, Some a)" "entries s a = Some e"
          "ent_type e = T_ZSET" "ent_zset e = Some z" "zset_ok (zheap s) z (T a)" "Z = zscores (zheap s) (T a)"
          using zset_entry [OF ok Some Z] by metis
        let ?v = "VArr (zpairs (zwindow (zview (zheap s) (T a)) d nm ov lv))"
        have "zquery_spec M k sc nm off lim ?v"
          using p' Some Z zview_ranked [OF a(5)] a(6) by (auto simp: zquery_spec_def)
        moreover have "do_zquery s [c, k, sc, nm, off, lim] [] = ret (s, encode ?v)"
          using p' expect_zset_at(3) [OF ok a(1,2,3)] a(2,4) zquery_set_ok [OF a(5) str2double_not_nan [OF p'(1)] nm, of ov lv s]
          by (cases "lv \<le> 0") (simp_all add: do_zquery_def arg_def zwindow_none zpairs_def)
        ultimately show ?thesis by blast
      qed
    qed
  qed
qed

end
