(* ===== verification/Keyspace_Ttl.thy ===== *)
theory Keyspace_Ttl
  imports Keyspace_Spec
begin

text \<open>
  Deletion and times to live against the abstract key space: \<open>del\<close>, \<open>expire\<close>, \<open>ttl\<close>, and the loop of
  \<open>process_timers\<close> that removes the keys whose deadline has passed.
\<close>

section \<open>Deadlines and entries\<close>

lemma refs_deadline: "ttl_inv hp ix \<Longrightarrow> b \<in> refs hp \<longleftrightarrow> (\<exists>v. deadline hp ix b = Some v)"
proof -
  assume inv: "ttl_inv hp ix"
  have "b \<in> refs hp \<longleftrightarrow> (\<exists>v. \<lparr>val = v, ref = Some b\<rparr> \<in> set hp)"
    unfolding refs_iff in_set_conv_nth by (metis (full_types) HeapItem.select_convs(2) HeapItem.surjective old.unit.exhaust)
  then show ?thesis using deadline_iff [OF inv] by simp
qed

lemma server_heap_small: "server_ok s N T \<Longrightarrow> length (heap s) < 32"
proof -
  assume ok: "server_ok s N T"
  note o = server_okD [OF ok]
  have d: "distinct (map ref (heap s))" using o(5) by (simp add: ttl_inv_def linked_def)
  have "set (map ref (heap s)) \<subseteq> Some ` N"
  proof
    fix p
    assume "p \<in> set (map ref (heap s))"
    then obtain i where i: "i < length (heap s)" "p = ref (heap s ! i)" by (auto simp: in_set_conv_nth)
    then obtain b where "p = Some b" using o(5) unfolding ttl_inv_def linked_def linked_at_def by blast
    moreover from this have "b \<in> refs (heap s)" using i refs_iff by force
    ultimately show "p \<in> Some ` N" using o(6) by blast
  qed
  then have "card (set (map ref (heap s))) \<le> card (Some ` N)"
    by (rule card_mono [rotated]) (simp add: hm_small_finite [OF o(1)])
  also have "\<dots> = card N" by (simp add: card_image)
  finally have "card (set (map ref (heap s))) \<le> card N" .
  then show ?thesis using distinct_card [OF d] o(1) by (simp add: hm_small_def)
qed

lemma set_ttl_ok:
  assumes ok: "server_ok s N T" and a: "a \<in> N"
  obtains hp ix where "entry_set_ttl now_us (heap s) (heap_idx s) (Some a) ttl_ms = ret (hp, ix)" "ttl_inv hp ix"
    "dom ix = dom (heap_idx s)" "refs hp \<subseteq> N"
    "deadline hp ix = (deadline (heap s) (heap_idx s))(a := if sint ttl_ms < 0 then None else Some (now_us + ttl_ms * 1000))"
proof -
  note o = server_okD [OF ok]
  obtain i where i: "heap_idx s a = Some i" using o(3) [OF a] by (auto simp: entry_ok_def)
  have "length (heap s) + 1 < 2 ^ 62" using server_heap_small [OF ok] by simp
  from entry_set_ttl_refines [OF o(5) i this] obtain r where r: "entry_set_ttl now_us (heap s) (heap_idx s) (Some a) ttl_ms = ret r"
    "deadline_set (heap s) (heap_idx s) a (if sint ttl_ms < 0 then None else Some (now_us + ttl_ms * 1000)) r" by blast
  let ?d = "if sint ttl_ms < 0 then None else Some (now_us + ttl_ms * 1000)"
  have inv: "ttl_inv (fst r) (snd r)" and dl: "deadline (fst r) (snd r) = (deadline (heap s) (heap_idx s))(a := ?d)"
    using r(2) unfolding deadline_set_def by blast+
  have "b \<in> N" if "b \<in> refs (fst r)" for b
  proof (cases "b = a")
    case False
    then have "b \<in> refs (heap s)" using that refs_deadline [OF inv] refs_deadline [OF o(5)] dl by simp
    then show ?thesis using o(6) by blast
  qed (use a in simp)
  moreover have "dom (snd r) = dom (heap_idx s)" using r(2) unfolding deadline_set_def by blast
  ultimately show thesis using that [of "fst r" "snd r"] r(1) inv dl by (simp add: subset_iff)
qed

section \<open>\<open>expire\<close> and \<open>ttl\<close>\<close>

lemma item_ttl [simp]: "it_ttl (item_of s T a) = deadline (heap s) (heap_idx s) a"
  by (simp add: item_of_def Let_def)

definition expire_spec :: "u64 \<Rightarrow> keyspace \<Rightarrow> bytes \<Rightarrow> bytes \<Rightarrow> val \<times> keyspace" where
  "expire_spec now_us M k ttl =
     (case str2int ttl of (ok, ms) \<Rightarrow>
      if \<not> ok then (VErr ERR_ARG (lit ''expecting int64''), M)
      else case M k of None \<Rightarrow> (VInt 0, M)
        | Some it \<Rightarrow> (VInt 1, M(k \<mapsto> it\<lparr>it_ttl := if ms < 0 then None else Some (now_us + word_of_int ms * 1000)\<rparr>)))"

lemma str2int_sint: "sint (word_of_int (snd (str2int s)) :: u64) = snd (str2int s)"
proof -
  have "LLONG_MIN \<le> snd (str2int s) \<and> snd (str2int s) \<le> LLONG_MAX"
    using strtoll_range [of s] by (auto simp: str2int_def split: prod.splits)
  then show ?thesis by (simp add: signed_of_int LLONG_MIN_def LLONG_MAX_def signed_take_bit_int_eq_self)
qed

lemma do_expire_ok:
  assumes at: "server_at s M"
  shows "\<exists>s'. do_expire now_us s [c, k, ttl] [] = ret (s', encode (fst (expire_spec now_us M k ttl))) \<and>
    server_at s' (snd (expire_spec now_us M k ttl))"
proof -
  obtain N T where ok: "server_ok s N T" "represents s N T M" using at unfolding server_at_def by blast
  obtain b ms where p: "str2int ttl = (b, ms)" by (cases "str2int ttl")
  have sms: "sint (word_of_int ms :: u64) = ms" using str2int_sint [of ttl] p by simp
  show ?thesis
  proof (cases "\<not> b \<or> M k = None")
    case True
    then show ?thesis using p at db_lookup_at(1) [OF ok] by (auto simp: do_expire_def expire_spec_def arg_def)
  next
    case False
    then obtain it where it: "M k = Some it" "b" by auto
    obtain a e where a: "db_lookup s k = ret (s, Some a)" "a \<in> N" "ekey s a = k" "entries s a = Some e" "it = item_of s T a"
      using db_lookup_at(2) [OF ok it(1)] by blast
    let ?d = "if ms < 0 then None else Some (now_us + word_of_int ms * 1000)"
    obtain hp ix where r: "entry_set_ttl now_us (heap s) (heap_idx s) (Some a) (word_of_int ms) = ret (hp, ix)" "ttl_inv hp ix"
      "dom ix = dom (heap_idx s)" "refs hp \<subseteq> N" "deadline hp ix = (deadline (heap s) (heap_idx s))(a := ?d)"
      using set_ttl_ok [OF ok(1) a(2), of now_us "word_of_int ms"] unfolding sms .
    let ?s' = "s\<lparr>heap := hp, heap_idx := ix\<rparr>"
    note o = server_okD [OF ok(1)]
    have dm: "ix x = None \<longleftrightarrow> heap_idx s x = None" for x using r(3) by blast
    have "server_at ?s' (M(k := if a \<in> N then Some (item_of ?s' T a) else None))"
    proof (rule server_at_change [OF ok, where a = a and T' = T])
      show "entry_ok ?s' T a" using o(3) [OF a(2)] dm [of a] by (auto simp: entry_ok_def)
      show "k \<notin> ekey s ` (N - {a})" using ekey_inj [OF ok(1)] a(2,3) by (auto simp: inj_on_def)
      show "keyed (enodes ?s') N (ekey ?s') str_hash" using o(2) by (simp add: ekey_def [abs_def])
      show "ekey ?s' a = k" using a(3) by (simp add: ekey_def)
      show "mem_finite ?s'" using o(7) r(3) by (simp add: mem_finite_def)
    qed (use o r(2,4,5) a dm in \<open>auto simp: same_entry_def\<close>)
    moreover have "item_of ?s' T a = it\<lparr>it_ttl := ?d\<rparr>" using a(5) r(5) by (simp add: item_of_def Let_def)
    ultimately show ?thesis using it p a(1,2) r(1) by (auto simp: do_expire_def expire_spec_def arg_def)
  qed
qed

definition ttl_spec :: "u64 \<Rightarrow> keyspace \<Rightarrow> bytes \<Rightarrow> val" where
  "ttl_spec now_us M k = VInt (case M k of None \<Rightarrow> -2
     | Some it \<Rightarrow> (case it_ttl it of None \<Rightarrow> -1 | Some t \<Rightarrow> if t > now_us then (t - now_us) div 1000 else 0))"

lemma do_ttl_ok:
  assumes at: "server_at s M"
  shows "do_ttl now_us s [c, k] [] = ret (s, encode (ttl_spec now_us M k))"
proof -
  obtain N T where ok: "server_ok s N T" "represents s N T M" using at unfolding server_at_def by blast
  note o = server_okD [OF ok(1)]
  show ?thesis
  proof (cases "M k")
    case None
    then show ?thesis using db_lookup_at(1) [OF ok None] by (simp add: do_ttl_def ttl_spec_def arg_def)
  next
    case (Some it)
    obtain a where a: "db_lookup s k = ret (s, Some a)" "a \<in> N" "it = item_of s T a"
      using db_lookup_at(2) [OF ok Some] by blast
    obtain i where i: "heap_idx s a = Some i" using o(3) [OF a(2)] by (auto simp: entry_ok_def)
    show ?thesis
    proof (cases "i = SIZE_MAX")
      case True
      then show ?thesis using a i Some by (simp add: do_ttl_def ttl_spec_def arg_def deadline_def)
    next
      case False
      then have "item_get (heap s) i = ret (heap s ! i)" using ttl_inv_pos(1) [OF o(5) i] by (simp add: item_get_def)
      then show ?thesis using a i Some False by (simp add: do_ttl_def ttl_spec_def arg_def deadline_def Let_def)
    qed
  qed
qed

text \<open>
  A time to live and its remainder. The deadline is a 64-bit sum, \<open>now + ms * 1000\<close>, and \<open>ttl\<close> answers with
  the whole milliseconds that are left of it; only when the sum does not wrap is this the time asked for.
\<close>

lemma expire_deadline:
  assumes "server_at s M" and "M k = Some it" and "str2int ttl = (True, ms)"
  shows "0 \<le> ms \<Longrightarrow> \<exists>s1. do_expire now_us s [c, k, ttl] [] = ret (s1, encode (VInt 1)) \<and>
    server_at s1 (M(k \<mapsto> it\<lparr>it_ttl := Some (now_us + word_of_int ms * 1000)\<rparr>))"
  using do_expire_ok [OF assms(1), of now_us c k ttl] assms(2,3) by (simp add: expire_spec_def del: encode.simps)

lemma deadline_exact:
  assumes "0 \<le> ms"
  shows "unat (now_us + word_of_int ms * 1000 :: u64) = (unat now_us + 1000 * nat ms) mod 2 ^ 64"
proof -
  have "now_us + word_of_int ms * 1000 = (of_nat (unat now_us + 1000 * nat ms) :: u64)"
    using assms by (simp add: mult.commute)
  then show ?thesis by (simp only: unat_of_nat) (simp add: take_bit_eq_mod)
qed

lemma remaining_exact: "(if d > later then (d - later) div 1000 else 0) = (of_nat ((unat d - unat later) div 1000) :: u64)" for d later :: u64
proof (cases "d > later")
  case True
  then have "unat (d - later) = unat d - unat later" by (simp add: unat_sub less_imp_le)
  moreover have "unat ((d - later) div 1000) = unat (d - later) div 1000" by (simp add: unat_div)
  moreover have "of_nat (unat ((d - later) div 1000)) = (d - later) div 1000" by simp
  ultimately show ?thesis using True by simp
next
  case False
  then have "unat d - unat later = 0" by (simp add: not_less word_le_nat_alt)
  then show ?thesis using False by simp
qed

lemma expire_ttl_exact:
  assumes "server_at s M" and "M k = Some it" and "str2int ttl = (True, ms)" and "0 \<le> ms"
  shows "\<exists>s1 d. do_expire now_us s [c, k, ttl] [] = ret (s1, encode (VInt 1)) \<and>
    unat d = (unat now_us + 1000 * nat ms) mod 2 ^ 64 \<and> server_at s1 (M(k \<mapsto> it\<lparr>it_ttl := Some d\<rparr>)) \<and>
    (\<forall>later. do_ttl later s1 [c, k] [] = ret (s1, encode (VInt (of_nat ((unat d - unat later) div 1000)))))"
proof -
  let ?d = "now_us + word_of_int ms * 1000"
  obtain s1 where s1: "do_expire now_us s [c, k, ttl] [] = ret (s1, encode (VInt 1))"
    "server_at s1 (M(k \<mapsto> it\<lparr>it_ttl := Some ?d\<rparr>))" using expire_deadline [OF assms] by blast
  have "do_ttl later s1 [c, k] [] = ret (s1, encode (VInt (of_nat ((unat ?d - unat later) div 1000))))" for later
    using do_ttl_ok [OF s1(2), of later c k] remaining_exact [of later ?d] by (simp add: ttl_spec_def del: encode.simps)
  then show ?thesis using s1 deadline_exact [OF assms(4), of now_us] by blast
qed

section \<open>Deletion\<close>

lemma hm_small_size: "hm_small hs m N \<Longrightarrow> unat (hm_size m) = card N"
  using hm_size_card [OF hm_small_inv] .

lemma ttl_inv_free:
  assumes inv: "ttl_inv hp ix" and "a \<notin> refs hp"
  shows "ttl_inv hp (ix(a := None))" "b \<noteq> a \<Longrightarrow> deadline hp (ix(a := None)) b = deadline hp ix b"
proof -
  have "linked (ix(a := None)) hp"
    using inv assms(2) unfolding ttl_inv_def linked_def linked_at_def refs_iff by (metis fun_upd_other)
  then show "ttl_inv hp (ix(a := None))" using inv by (auto simp: ttl_inv_def)
qed (simp add: deadline_def)

text \<open>Freeing an entry of the key space, with the nodes of its sorted set.\<close>

lemma entry_destroy_ok:
  assumes ok: "entry_ok s T a"
  obtains m where "entry_destroy s a = ret (s\<lparr>zheap := m, entries := (entries s)(a := None),
      enodes := (enodes s)(a := None), heap_idx := (heap_idx s)(a := None)\<rparr>)"
    "zframe (set_tree (T a)) (zheap s) m"
proof -
  obtain e :: Entry where e: "entries s a = Some e"
    and z: "if ent_type e = T_ZSET then \<exists>z. ent_zset e = Some z \<and> zset_ok (zheap s) z (T a) else T a = \<langle>\<rangle>"
    using ok unfolding entry_ok_def by blast
  show thesis
  proof (cases "ent_type e = T_ZSET")
    case True
    then obtain z where z': "ent_zset e = Some z" "zset_ok (zheap s) z (T a)" using z by auto
    have "zframe (set_tree (T a)) (zheap s) (zfree (set_tree (T a)) (zheap s))" by (simp add: zframe_def zfree_def)
    then show thesis using that True e z' zset_dispose_ok [OF z'(2)] by (simp add: entry_destroy_def)
  next
    case False
    then show thesis using that [of "zheap s"] e by (simp add: entry_destroy_def zframe_def)
  qed
qed

text \<open>\<open>entry_del\<close> on an entry that has just been taken out of the hash map.\<close>

lemma entry_del_ok:
  assumes ok: "server_ok s N T" "represents s N T M" and a: "a \<in> N"
    and hm: "hm_small hs hm (N - {a})" "keyed hs (N - {a}) (ekey s) str_hash" "finite (dom hs)"
  obtains s' where "entry_del (s\<lparr>db := hm, enodes := hs\<rparr>) a = ret s'" "server_at s' (M(ekey s a := None))" "tasks s' = tasks s"
proof -
  note o = server_okD [OF ok(1)]
  obtain hp ix where r: "entry_set_ttl 0 (heap s) (heap_idx s) (Some a) (-1) = ret (hp, ix)" "ttl_inv hp ix"
    "dom ix = dom (heap_idx s)" "refs hp \<subseteq> N" "deadline hp ix = (deadline (heap s) (heap_idx s))(a := None)"
    using set_ttl_ok [OF ok(1) a, of 0 "-1"] by auto
  let ?s1 = "s\<lparr>db := hm, enodes := hs, heap := hp, heap_idx := ix\<rparr>"
  have dm: "ix x = None \<longleftrightarrow> heap_idx s x = None" for x using r(3) by blast
  obtain e :: Entry where e: "entries s a = Some e"
    and z: "if ent_type e = T_ZSET then \<exists>z. ent_zset e = Some z \<and> zset_ok (zheap s) z (T a) else T a = \<langle>\<rangle>"
    using o(3) [OF a] unfolding entry_ok_def by blast
  have "entry_ok ?s1 T a" using o(3) [OF a] dm [of a] by (auto simp: entry_ok_def)
  then obtain m where d: "entry_destroy ?s1 a = ret (?s1\<lparr>zheap := m, entries := (entries s)(a := None),
      enodes := hs(a := None), heap_idx := ix(a := None)\<rparr>)" "zframe (set_tree (T a)) (zheap s) m"
    by (rule entry_destroy_ok) simp
  let ?s' = "?s1\<lparr>zheap := m, entries := (entries s)(a := None), enodes := hs(a := None), heap_idx := ix(a := None)\<rparr>"
  have "\<not> hm_size (hmap z) > K_LARGE_CONTAINER_SIZE" if "zset_ok (zheap s) z (T a)" for z
    using hm_small_size [OF zset_okD(2) [OF that]] zset_okD(2) [OF that]
    by (simp add: word_less_nat_alt K_LARGE_CONTAINER_SIZE_def hm_small_def)
  then have "entry_del (s\<lparr>db := hm, enodes := hs\<rparr>) a = ret ?s'"
    using r(1) e z d(1) by (auto simp: entry_del_def Let_def)
  moreover have "a \<notin> refs hp" using refs_deadline [OF r(2)] r(5) by simp
  note free = ttl_inv_free [OF r(2) this]
  have "server_at ?s' (M(ekey s a := if a \<in> N - {a} then Some (item_of ?s' T a) else None))"
  proof (rule server_at_change [OF ok, where a = a and T' = T])
    show "same_entry s T ?s' T b" if "b \<in> N - {a}" for b
    proof -
      have "set_tree (T a) \<inter> set_tree (T b) = {}" using o(4) [OF a] that by auto
      then show ?thesis using that free(2) [of b] r(5) dm [of b] d(2) by (auto simp: same_entry_def zframe_def)
    qed
    show "hm_small (enodes ?s') (db ?s') (N - {a})" using hm_small_cong [OF hm(1), of "hs(a := None)"] by simp
    have "ekey ?s' b = ekey s b" if "b \<noteq> a" for b using that by (simp add: ekey_def)
    then show "keyed (enodes ?s') (N - {a}) (ekey ?s') str_hash"
      using hm(2) by (auto simp: keyed_def code_of_def inj_on_def)
    show "ekey s a \<notin> ekey s ` (N - {a})" using ekey_inj [OF ok(1)] a by (auto simp: inj_on_def)
    show "refs (heap ?s') \<subseteq> N - {a}" using r(4) \<open>a \<notin> refs hp\<close> by auto
    show "mem_finite ?s'" using o(7) r(3) hm(3) zframe_finite [OF d(2) finite_set_tree] by (simp add: mem_finite_def)
  qed (use free(1) in auto)
  ultimately show thesis using that [of ?s'] by simp
qed

definition del_spec :: "keyspace \<Rightarrow> bytes \<Rightarrow> val \<times> keyspace" where
  "del_spec M k = (VInt (if M k = None then 0 else 1), M(k := None))"

lemma do_del_ok:
  assumes at: "server_at s M"
  shows "\<exists>s'. do_del s [c, k] [] = ret (s', encode (fst (del_spec M k))) \<and> server_at s' (snd (del_spec M k))"
proof -
  obtain N T where ok: "server_ok s N T" "represents s N T M" using at unfolding server_at_def by blast
  note o = server_okD [OF ok(1)]
  obtain hs hm p where p: "hm_pop (enodes s) (db s) (str_hash k) (entry_eq s (str_hash k) k) = ret (hs, hm, p)"
    "at_key N (ekey s) k p" "hm_small hs hm (N - set_option p)" "keyed hs (N - set_option p) (ekey s) str_hash"
    "same_outside N (enodes s) hs"
    using first_table.pop_key [OF o(1,2) entry_eq_key [OF ok(1)]] by blast
  have fin: "finite (dom hs)" using o(7) same_outside_dom [OF p(5)] by (simp add: mem_finite_def)
  let ?s1 = "s\<lparr>db := hm, enodes := hs\<rparr>"
  have pop: "db_pop s k = ret (?s1, p)" using p(1) by (simp add: db_pop_def Let_def)
  note it = at_key_item [OF ok(2) p(2)]
  show ?thesis
  proof (cases p)
    case None
    have "M(k := None) = M" using it None by (simp add: fun_upd_idem)
    moreover have "entry_ok ?s1 T = entry_ok s T" "item_of ?s1 T = item_of s T" "ekey ?s1 = ekey s"
      by (intro ext, simp add: entry_ok_def item_of_def ekey_def Let_def)+
    then have "server_ok ?s1 N T" "represents ?s1 N T M"
      using ok p(3,4) None fin by (simp_all add: server_ok_def represents_def mem_finite_def)
    ultimately show ?thesis using pop None it by (auto simp: do_del_def del_spec_def arg_def server_at_def)
  next
    case (Some a)
    then have a: "a \<in> N" "ekey s a = k" using p(2) by (simp_all add: at_key_def)
    have "hm_small hs hm (N - {a})" "keyed hs (N - {a}) (ekey s) str_hash" using p(3,4) Some by simp_all
    then obtain s' where "entry_del ?s1 a = ret s'" "server_at s' (M(k := None))"
      using entry_del_ok [OF ok a(1)] a(2) fin by metis
    then show ?thesis using pop Some it by (simp add: do_del_def del_spec_def arg_def)
  qed
qed

section \<open>Expiry\<close>

definition due :: "u64 \<Rightarrow> item \<Rightarrow> bool" where
  "due now_us it \<longleftrightarrow> (case it_ttl it of None \<Rightarrow> False | Some t \<Rightarrow> t < now_us)"

definition expired :: "u64 \<Rightarrow> keyspace \<Rightarrow> keyspace" where
  "expired now_us M k = (case M k of None \<Rightarrow> None | Some it \<Rightarrow> if due now_us it then None else Some it)"

lemma expired_upd: "M k = Some it \<Longrightarrow> due now_us it \<Longrightarrow> expired now_us (M(k := None)) = expired now_us M"
  by (auto simp: expired_def fun_eq_iff)

text \<open>One round: the entry at the top of the heap is popped by its address and deleted.\<close>

lemma expire_round:
  assumes ok: "server_ok s N T" "represents s N T M" and top: "heap s \<noteq> []" "val (heap s ! 0) < now_us"
  obtains a n hs hm s' it where "ref (heap s ! 0) = Some a" "enodes s a = Some n"
    "hm_pop (enodes s) (db s) (hcode n) (hnode_same (Some a)) = ret (hs, hm, Some a)"
    "entry_del (s\<lparr>db := hm, enodes := hs\<rparr>) a = ret s'" "M (ekey s a) = Some it" "due now_us it"
    "server_at s' (M(ekey s a := None))" "\<And>k' it'. M k' = Some it' \<Longrightarrow> due now_us it' \<Longrightarrow> the (it_ttl it) \<le> the (it_ttl it')"
proof -
  note o = server_okD [OF ok(1)]
  have "linked_at (heap_idx s) (heap s ! 0) 0" using o(5) top(1) by (simp add: ttl_inv_def linked_def)
  then obtain a where a: "ref (heap s ! 0) = Some a" "heap_idx s a = Some 0" by (auto simp: linked_at_def)
  then have aN: "a \<in> N" using o(6) top(1) refs_iff by (metis length_greater_0_conv subsetD)
  have "deadline (heap s) (heap_idx s) a = Some (val (heap s ! 0))" using a(2) by (simp add: deadline_def SIZE_MAX_def)
  then have d: "M (ekey s a) = Some (item_of s T a)" "due now_us (item_of s T a)" "it_ttl (item_of s T a) = Some (val (heap s ! 0))"
    using ok(2) aN top(2) by (simp_all add: represents_def due_def)
  have first: "the (it_ttl (item_of s T a)) \<le> the (it_ttl it')" if it': "M k' = Some it'" "due now_us it'" for k' it'
  proof -
    obtain b where b: "it' = item_of s T b" using ok(2) it'(1) unfolding represents_def by (metis domI imageE option.inject)
    then obtain v where "deadline (heap s) (heap_idx s) b = Some v" using it'(2) by (auto simp: due_def split: option.splits)
    then show ?thesis using earliest_deadline(2) [OF o(5) top(1)] b d(3) by simp
  qed
  obtain n where n: "enodes s a = Some n" "hcode n = str_hash (ekey s a)"
    using o(2) aN by (auto simp: keyed_def code_of_def)
  have "finds (enodes s) N (hcode n) (hnode_same (Some a)) (\<lambda>b. b = a)"
    using n by (auto simp: finds_def hnode_same_def code_of_def)
  from first_table.pop_law [OF o(1) this] obtain hs hm p where
    p: "hm_pop (enodes s) (db s) (hcode n) (hnode_same (Some a)) = ret (hs, hm, p)" "same_codes (enodes s) hs" "same_outside N (enodes s) hs"
      "case p of Some b \<Rightarrow> b \<in> N \<and> b = a \<and> hm_small hs hm (N - {b}) | None \<Rightarrow> hm_small hs hm N \<and> (\<forall>b \<in> N. b \<noteq> a)"
    by blast
  then have "p = Some a" "hm_small hs hm (N - {a})" "finite (dom hs)" using aN o(7) same_outside_dom [OF p(3)] by (auto simp: mem_finite_def split: option.splits)
  moreover have "keyed hs (N - {a}) (ekey s) str_hash" using keyed_subset [OF keyed_codes [OF o(2) p(2)]] by blast
  ultimately obtain s' where "entry_del (s\<lparr>db := hm, enodes := hs\<rparr>) a = ret s'" "server_at s' (M(ekey s a := None))"
    using entry_del_ok [OF ok aN] by metis
  then show thesis using that a(1) n(1) p(1) \<open>p = Some a\<close> d(1,2) first by blast
qed

lemma not_due:
  assumes ok: "server_ok s N T" "represents s N T M" and "heap s = [] \<or> \<not> val (heap s ! 0) < now_us"
  shows "expired now_us M = M"
proof
  fix k
  note o = server_okD [OF ok(1)]
  have "\<not> due now_us it" if it: "M k = Some it" for it
  proof -
    obtain a where a: "a \<in> N" "it = item_of s T a" using ok(2) it unfolding represents_def by (metis domI imageE option.inject)
    show ?thesis
    proof (cases "deadline (heap s) (heap_idx s) a")
      case (Some v)
      then have "heap s \<noteq> []" using refs_deadline [OF o(5), of a] by (auto simp: refs_def)
      then show ?thesis using earliest_deadline(2) [OF o(5) _ Some] assms(3) a(2) Some by (auto simp: due_def)
    qed (use a in \<open>simp add: due_def\<close>)
  qed
  then show "expired now_us M k = M k" by (auto simp: expired_def split: option.splits)
qed

text \<open>
  The loop deletes due keys in the order of their deadlines: all of them, or as many as the limit on the
  work of one call leaves, counting from \<open>nworks\<close>. The round in which the limit is found to be reached is
  still done.
\<close>

definition due_keys :: "u64 \<Rightarrow> keyspace \<Rightarrow> bytes set" where
  "due_keys now_us M = {k. \<exists>it. M k = Some it \<and> due now_us it}"

definition ttl_of :: "keyspace \<Rightarrow> bytes \<Rightarrow> u64" where
  "ttl_of M k = the (it_ttl (the (M k)))"

text \<open>\<open>earliest t U n D\<close>: the set \<open>D\<close> consists of \<open>n\<close> elements of \<open>U\<close>, or of all, that no other one precedes.\<close>

definition earliest :: "('a \<Rightarrow> 'b::linorder) \<Rightarrow> 'a set \<Rightarrow> nat \<Rightarrow> 'a set \<Rightarrow> bool" where
  "earliest t U n D \<longleftrightarrow> D \<subseteq> U \<and> card D = min (card U) n \<and> (\<forall>x \<in> D. \<forall>y \<in> U - D. t x \<le> t y)"

lemma earliest_insert:
  assumes "finite U" and "x \<in> U" and first: "\<And>y. y \<in> U \<Longrightarrow> t x \<le> t y"
    and D: "earliest t' (U - {x}) n D" and t': "\<And>y. y \<noteq> x \<Longrightarrow> t' y = t y"
  shows "earliest t U (Suc n) (insert x D)"
proof -
  have d: "D \<subseteq> U - {x}" "card D = min (card (U - {x})) n" "\<And>y z. y \<in> D \<Longrightarrow> z \<in> U - {x} - D \<Longrightarrow> t' y \<le> t' z"
    using D by (simp_all add: earliest_def)
  have "finite D" "x \<notin> D" "0 < card U" using d(1) assms(1,2) finite_subset by (auto simp: card_gt_0_iff)
  then have "card (insert x D) = min (card U) (Suc n)" using d(2) assms(1,2) by (simp add: card_Diff_singleton)
  moreover have "t y \<le> t z" if "y \<in> D" "z \<in> U - insert x D" for y z
  proof -
    have "y \<noteq> x" "z \<noteq> x" "z \<in> U - {x} - D" using that \<open>x \<notin> D\<close> by auto
    then show ?thesis using d(3) [OF that(1)] t' by metis
  qed
  ultimately show ?thesis using first d(1) assms(2) by (auto simp: earliest_def)
qed

lemma server_at_finite: "server_at s M \<Longrightarrow> finite (dom M)"
  unfolding server_at_def represents_def server_ok_def by (auto dest: hm_small_finite)

lemma due_keys_finite: "server_at s M \<Longrightarrow> finite (due_keys now_us M)"
  using server_at_finite [of s M] by (auto simp: due_keys_def dom_def elim!: finite_subset [rotated])

lemma expire_loop_works:
  assumes "server_at s M"
  shows "\<exists>s' D. expire_loop now_us s nworks = ret s' \<and> server_at s' (M |` (- D)) \<and>
    earliest (ttl_of M) (due_keys now_us M) (Suc (K_MAX_WORKS - nworks)) D"
  using assms
proof (induction "card (dom M)" arbitrary: s M nworks rule: less_induct)
  case less
  obtain N T where ok: "server_ok s N T" "represents s N T M" using less.prems unfolding server_at_def by blast
  show ?case
  proof (cases "heap s \<noteq> [] \<and> val (heap s ! 0) < now_us")
    case False
    then have "expired now_us M = M" using not_due [OF ok] by blast
    then have "due_keys now_us M = {}" by (auto simp: due_keys_def expired_def fun_eq_iff split: option.splits if_splits)
    moreover have "expire_loop now_us s nworks = ret s" using False by (subst expire_loop.simps) auto
    ultimately show ?thesis using less.prems by (intro exI [of _ s] exI [of _ "{}"]) (simp add: earliest_def restrict_map_def)
  next
    case True
    obtain a n hs hm s' it where r: "ref (heap s ! 0) = Some a" "enodes s a = Some n"
      "hm_pop (enodes s) (db s) (hcode n) (hnode_same (Some a)) = ret (hs, hm, Some a)"
      "entry_del (s\<lparr>db := hm, enodes := hs\<rparr>) a = ret s'" "M (ekey s a) = Some it" "due now_us it"
      "server_at s' (M(ekey s a := None))" "\<And>k' it'. M k' = Some it' \<Longrightarrow> due now_us it' \<Longrightarrow> the (it_ttl it) \<le> the (it_ttl it')"
      using expire_round [OF ok] True by metis
    let ?k = "ekey s a" and ?M = "M(ekey s a := None)"
    have k: "?k \<in> due_keys now_us M" "due_keys now_us ?M = due_keys now_us M - {?k}" using r(5,6) by (auto simp: due_keys_def)
    have first: "\<And>k'. k' \<in> due_keys now_us M \<Longrightarrow> ttl_of M ?k \<le> ttl_of M k'" using r(5,8) by (auto simp: due_keys_def ttl_of_def)
    note ins = earliest_insert [of _ _ "ttl_of M" "ttl_of ?M", OF due_keys_finite [OF less.prems] k(1) first]
    have run: "expire_loop now_us s nworks = (if nworks \<ge> K_MAX_WORKS then ret s' else expire_loop now_us s' (nworks + 1))"
      using True r(1-4) by (subst expire_loop.simps) (simp add: Let_def)
    have restr: "?M |` (- D) = M |` (- insert ?k D)" for D by (auto simp: restrict_map_def fun_eq_iff)
    show ?thesis
    proof (cases "nworks \<ge> K_MAX_WORKS")
      case stop: True
      have "earliest (ttl_of M) (due_keys now_us M) (Suc 0) {?k}" by (rule ins) (simp_all add: earliest_def ttl_of_def)
      moreover have "M |` (- {?k}) = ?M" by (auto simp: restrict_map_def fun_eq_iff)
      ultimately show ?thesis using stop run r(7) by (intro exI [of _ s'] exI [of _ "{?k}"]) simp
    next
      case False
      have "card (dom ?M) < card (dom M)"
        using card_Diff1_less [OF server_at_finite [OF less.prems], of ?k] r(5) by (simp add: domI del: card_Diff_insert)
      from less.hyps [OF this r(7), of "nworks + 1"] obtain s2 D where
        d: "expire_loop now_us s' (nworks + 1) = ret s2" "server_at s2 (?M |` (- D))"
          "earliest (ttl_of ?M) (due_keys now_us M - {?k}) (Suc (K_MAX_WORKS - (nworks + 1))) D" unfolding k(2) by blast
      have "earliest (ttl_of M) (due_keys now_us M) (Suc (Suc (K_MAX_WORKS - (nworks + 1)))) (insert ?k D)"
        by (rule ins [OF _ d(3)]) (simp_all add: ttl_of_def)
      moreover have "Suc (K_MAX_WORKS - (nworks + 1)) = K_MAX_WORKS - nworks" using False by simp
      ultimately show ?thesis using run False d(1,2) restr by (intro exI [of _ s2] exI [of _ "insert ?k D"]) simp
    qed
  qed
qed

lemma restrict_due: "M |` (- due_keys now_us M) = expired now_us M"
  by (auto simp: due_keys_def expired_def restrict_map_def fun_eq_iff split: option.splits)

lemma expire_loop_ok:
  assumes at: "server_at s M" and works: "nworks + card (dom M) \<le> K_MAX_WORKS"
  shows "\<exists>s'. expire_loop now_us s nworks = ret s' \<and> server_at s' (expired now_us M)"
proof -
  obtain s' D where d: "expire_loop now_us s nworks = ret s'" "server_at s' (M |` (- D))" "D \<subseteq> due_keys now_us M"
    "card D = min (card (due_keys now_us M)) (Suc (K_MAX_WORKS - nworks))"
    using expire_loop_works [OF at] unfolding earliest_def by blast
  have sub: "due_keys now_us M \<subseteq> dom M" by (auto simp: due_keys_def)
  then have "finite (due_keys now_us M)" "card (due_keys now_us M) \<le> card (dom M)"
    using server_at_finite [OF at] by (auto intro: finite_subset card_mono)
  then have "D = due_keys now_us M" using d(3,4) works by (intro card_subset_eq) auto
  then show ?thesis using d(1,2) by (auto simp: restrict_due)
qed

end
