(* ===== verification/Commands.thy ===== *)
theory Commands
  imports Keyspace_Zset Keyspace_Ttl Request
begin

text \<open>
  The command interpreter as a whole. \<open>serves M cmd v M'\<close> is the abstract meaning of a request on the key
  space \<open>M\<close>: its response \<open>v\<close> and the key space \<open>M'\<close> it leaves. \<open>do_request\<close> implements it.
\<close>

section \<open>The meaning of a request\<close>

definition get_spec :: "keyspace \<Rightarrow> bytes \<Rightarrow> val" where
  "get_spec M k = (case M k of None \<Rightarrow> VNil | Some it \<Rightarrow> VStr (it_val it))"

definition commands :: "(nat \<times> string) list" where
  "commands = [(1, ''keys''), (2, ''get''), (3, ''set''), (2, ''del''), (4, ''zadd''), (3, ''zrem''), (3, ''zscore''), (6, ''zquery'')]"

definition known :: "bytes list \<Rightarrow> bool" where
  "known cmd \<longleftrightarrow> (\<exists>c \<in> set commands. length cmd = fst c \<and> cmd_is (cmd ! 0) (snd c))"

inductive serves :: "keyspace \<Rightarrow> bytes list \<Rightarrow> val \<Rightarrow> keyspace \<Rightarrow> bool" where
  keys: "cmd_is c ''keys'' \<Longrightarrow> distinct ks \<Longrightarrow> set ks = dom M \<Longrightarrow> serves M [c] (VArr (map VStr ks)) M"
| get: "cmd_is c ''get'' \<Longrightarrow> serves M [c, k] (get_spec M k) M"
| set: "cmd_is c ''set'' \<Longrightarrow> serves M [c, k, v] VNil (M(k \<mapsto> set_item (M k) v))"
| del: "cmd_is c ''del'' \<Longrightarrow> serves M [c, k] (fst (del_spec M k)) (snd (del_spec M k))"
| zadd: "cmd_is c ''zadd'' \<Longrightarrow> serves M [c, k, sc, nm] (fst (zadd_spec M k sc nm)) (snd (zadd_spec M k sc nm))"
| zrem: "cmd_is c ''zrem'' \<Longrightarrow> serves M [c, k, nm] (fst (zrem_spec M k nm)) (snd (zrem_spec M k nm))"
| zscore: "cmd_is c ''zscore'' \<Longrightarrow> serves M [c, k, nm] (zscore_spec M k nm) M"
| zquery: "cmd_is c ''zquery'' \<Longrightarrow> zquery_spec M k sc nm off lim r \<Longrightarrow> serves M [c, k, sc, nm, off, lim] r M"
| unknown: "\<not> known cmd \<Longrightarrow> serves M cmd (VErr ERR_UNKNOWN (lit ''Unknown cmd'')) M"

text \<open>
  Room for one more key and one more member, and addresses that an allocation may return. The limits
  are those of the hash map, which hangs when it is about to hold 32 nodes.
\<close>

definition roomy :: "keyspace \<Rightarrow> bool" where
  "roomy M \<longleftrightarrow> card (dom M) + 1 < 32 \<and> (\<forall>k it Z. M k = Some it \<longrightarrow> it_set it = Some Z \<longrightarrow> card (dom Z) + 1 < 32)"

definition fresh_for :: "server \<Rightarrow> addr \<Rightarrow> addr \<Rightarrow> bool" where
  "fresh_for s a x \<longleftrightarrow> unused s a \<and> unused_node (zheap s) x"

definition small_args :: "bytes list \<Rightarrow> bool" where
  "small_args cmd \<longleftrightarrow> (\<forall>w \<in> set cmd. length w \<le> K_MAX_MSG)"

lemma small_args_bound: "small_args cmd \<Longrightarrow> w \<in> set cmd \<Longrightarrow> length w < 2 ^ 32"
  by (force simp: small_args_def K_MAX_MSG_def)

section \<open>\<open>do_request\<close> implements it\<close>

lemma list_cases:
  "length xs = 1 \<Longrightarrow> \<exists>a. xs = [a]" "length xs = 2 \<Longrightarrow> \<exists>a b. xs = [a, b]" "length xs = 3 \<Longrightarrow> \<exists>a b c. xs = [a, b, c]"
  "length xs = 4 \<Longrightarrow> \<exists>a b c d. xs = [a, b, c, d]" "length xs = 6 \<Longrightarrow> \<exists>a b c d e f. xs = [a, b, c, d, e, f]"
  by (auto simp: length_Suc_conv numeral_eq_Suc)

lemma do_request_cases:
  "cmd_is c ''keys'' \<Longrightarrow> do_request f x s [c] out = do_keys s [c] out"
  "cmd_is c ''get'' \<Longrightarrow> do_request f x s [c, k] out = do_get s [c, k] out"
  "cmd_is c ''set'' \<Longrightarrow> do_request f x s [c, k, v] out = do_set f s [c, k, v] out"
  "cmd_is c ''del'' \<Longrightarrow> do_request f x s [c, k] out = do_del s [c, k] out"
  "cmd_is c ''zadd'' \<Longrightarrow> do_request f x s [c, k, v, nm] out = do_zadd f x s [c, k, v, nm] out"
  "cmd_is c ''zrem'' \<Longrightarrow> do_request f x s [c, k, v] out = do_zrem s [c, k, v] out"
  "cmd_is c ''zscore'' \<Longrightarrow> do_request f x s [c, k, v] out = do_zscore s [c, k, v] out"
  "cmd_is c ''zquery'' \<Longrightarrow> do_request f x s [c, k, v, nm, off, lim] out = do_zquery s [c, k, v, nm, off, lim] out"
  by (simp_all add: do_request_def Let_def cmd_is_def lit_def tolower_def)

lemma do_request_unknown:
  "\<not> known cmd \<Longrightarrow> do_request f x s cmd out = ret (s, out_err out ERR_UNKNOWN (lit ''Unknown cmd''))"
  by (auto simp: known_def commands_def do_request_def Let_def)

lemma known_cases:
  assumes "known cmd"
  obtains (keys) c where "cmd = [c]" "cmd_is c ''keys''"
  | (get) c k where "cmd = [c, k]" "cmd_is c ''get''"
  | (set) c k v where "cmd = [c, k, v]" "cmd_is c ''set''"
  | (del) c k where "cmd = [c, k]" "cmd_is c ''del''"
  | (zadd) c k sc nm where "cmd = [c, k, sc, nm]" "cmd_is c ''zadd''"
  | (zrem) c k nm where "cmd = [c, k, nm]" "cmd_is c ''zrem''"
  | (zscore) c k nm where "cmd = [c, k, nm]" "cmd_is c ''zscore''"
  | (zquery) c k sc nm off lim where "cmd = [c, k, sc, nm, off, lim]" "cmd_is c ''zquery''"
proof -
  from assms consider "length cmd = 1" "cmd_is (cmd ! 0) ''keys''" | "length cmd = 2" "cmd_is (cmd ! 0) ''get''"
    | "length cmd = 3" "cmd_is (cmd ! 0) ''set''" | "length cmd = 2" "cmd_is (cmd ! 0) ''del''"
    | "length cmd = 4" "cmd_is (cmd ! 0) ''zadd''" | "length cmd = 3" "cmd_is (cmd ! 0) ''zrem''"
    | "length cmd = 3" "cmd_is (cmd ! 0) ''zscore''" | "length cmd = 6" "cmd_is (cmd ! 0) ''zquery''"
    unfolding known_def commands_def by auto
  then show thesis
  proof cases
    case 1 then show ?thesis using keys list_cases(1) [of cmd] by (metis nth_Cons_0)
  next
    case 2 then show ?thesis using get list_cases(2) [of cmd] by (metis nth_Cons_0)
  next
    case 3 then show ?thesis using set list_cases(3) [of cmd] by (metis nth_Cons_0)
  next
    case 4 then show ?thesis using del list_cases(2) [of cmd] by (metis nth_Cons_0)
  next
    case 5 then show ?thesis using zadd list_cases(4) [of cmd] by (metis nth_Cons_0)
  next
    case 6 then show ?thesis using zrem list_cases(3) [of cmd] by (metis nth_Cons_0)
  next
    case 7 then show ?thesis using zscore list_cases(3) [of cmd] by (metis nth_Cons_0)
  next
    case 8 then show ?thesis using zquery list_cases(5) [of cmd] by (metis nth_Cons_0)
  qed
qed

lemma do_request_ok:
  assumes at: "server_at s M" and room: "roomy M" and fresh: "fresh_for s a x" and args: "small_args cmd"
  shows "\<exists>s' v M'. do_request a (Some x) s cmd [] = ret (s', encode v) \<and> serves M cmd v M' \<and> server_at s' M'"
proof (cases "known cmd")
  case False
  then show ?thesis using do_request_unknown serves.unknown at by (metis encode.simps(2))
next
  case True
  then show ?thesis
  proof (cases rule: known_cases)
    case (keys c)
    then show ?thesis using do_keys_ok [OF at, of c] serves.keys [of c] at do_request_cases(1) by metis
  next
    case (get c k)
    then show ?thesis using do_get_ok [OF at, of c k] serves.get [of c M k] at do_request_cases(2) by (auto simp: get_spec_def)
  next
    case (set c k v)
    have "length v \<le> K_MAX_MSG" using args set by (simp add: small_args_def)
    then show ?thesis using do_set_ok [OF at, of v k a c] room fresh set serves.set [of c M k v] do_request_cases(3)
      unfolding roomy_def fresh_for_def by metis
  next
    case (del c k)
    then show ?thesis using do_del_ok [OF at, of c k] serves.del [of c M k] do_request_cases(4) by metis
  next
    case (zadd c k sc nm)
    have "length nm < 2 ^ 32" using small_args_bound [OF args] zadd by simp
    moreover have "card (dom Z) + 1 < 32" if "it_set (zadd_base (M k)) = Some Z" for Z
      using room that by (cases "M k") (auto simp: roomy_def zadd_base_def)
    ultimately have "\<exists>s'. do_zadd a (Some x) s [c, k, sc, nm] [] = ret (s', encode (fst (zadd_spec M k sc nm))) \<and>
        server_at s' (snd (zadd_spec M k sc nm))"
      using room fresh by (intro do_zadd_ok [OF at]) (auto simp: roomy_def fresh_for_def)
    then show ?thesis using zadd serves.zadd [of c M k sc nm] do_request_cases(5) by metis
  next
    case (zrem c k nm)
    then show ?thesis using do_zrem_ok [OF at, of c k nm] serves.zrem [of c M k nm] do_request_cases(6) by metis
  next
    case (zscore c k nm)
    then show ?thesis using do_zscore_ok [OF at, of c k nm] serves.zscore [of c M k nm] at do_request_cases(7) by metis
  next
    case (zquery c k sc nm off lim)
    have "length nm < 2 ^ 32" using small_args_bound [OF args] zquery by simp
    then show ?thesis using do_zquery_ok [OF at, of nm c k sc off lim] zquery serves.zquery [of c M k sc nm off lim] at do_request_cases(8) by metis
  qed
qed

end
