(* ===== verification/Connection_Spec.thy ===== *)
theory Connection_Spec
  imports Connection Commands
begin

text \<open>
  Correctness of a connection. The bytes received but not yet handled, followed by those the kernel will
  still deliver, are its input stream; the bytes sent, followed by those waiting in the send buffer, are
  its output stream. Every step takes complete requests off the front of the input stream and puts their
  responses, in the same order, at the end of the output stream, whatever the kernel makes of the
  individual reads and writes; the buffers stay within their arrays, and every step returns.
\<close>

section \<open>The kernel\<close>

text \<open>
  What the code relies on: a call transfers as many bytes as it reports, a write of a non-empty buffer
  that succeeds makes progress, calls on a descriptor do not touch others, and interruptions end
  (\<open>intr k\<close> bounds how many will still come).
\<close>

definition net_ok ::
  "'k env \<Rightarrow> ('k \<Rightarrow> nat \<Rightarrow> bytes) \<Rightarrow> ('k \<Rightarrow> nat \<Rightarrow> bytes) \<Rightarrow> ('k \<Rightarrow> nat) \<Rightarrow> bool" where
  "net_ok env sent pending intr \<longleftrightarrow>
     (\<forall>k f buf rv k'. sys_write env k f buf = (rv, k') \<longrightarrow>
        (case rv of Count n \<Rightarrow> n \<le> length buf \<and> (buf \<noteq> [] \<longrightarrow> 0 < n) \<and> sent k' = (sent k)(f := sent k f @ take n buf)
         | _ \<Rightarrow> sent k' = sent k) \<and> pending k' = pending k \<and> (rv = Eintr \<longrightarrow> intr k' < intr k)) \<and>
     (\<forall>k f cap rv bs k'. sys_read env k f cap = (rv, bs, k') \<longrightarrow>
        (case rv of Count n \<Rightarrow> n \<le> cap \<and> length bs = n \<and> pending k f = bs @ pending k' f \<and> (\<forall>g. g \<noteq> f \<longrightarrow> pending k' g = pending k g)
         | _ \<Rightarrow> pending k' = pending k) \<and> sent k' = sent k \<and> (rv = Eintr \<longrightarrow> intr k' < intr k))"

text \<open>Memory does not run out: during a request \<open>new\<close> and \<open>malloc\<close> return memory that is not in use.\<close>

definition fresh_alloc :: "'k env \<Rightarrow> bool" where
  "fresh_alloc env \<longleftrightarrow> (\<forall>k s. mem_finite s \<longrightarrow> (\<exists>x. snd (alloc env k s) = Some x \<and> fresh_for s (fst (alloc env k s)) x))"

lemma net_writeD:
  assumes "net_ok env sent pending intr" "sys_write env k f buf = (rv, k')"
  shows "case rv of Count n \<Rightarrow> n \<le> length buf \<and> (buf \<noteq> [] \<longrightarrow> 0 < n) \<and> sent k' = (sent k)(f := sent k f @ take n buf)
    | _ \<Rightarrow> sent k' = sent k" "pending k' = pending k" "rv = Eintr \<Longrightarrow> intr k' < intr k"
  using assms unfolding net_ok_def by blast+

lemma net_readD:
  assumes "net_ok env sent pending intr" "sys_read env k f cap = (rv, bs, k')"
  shows "case rv of Count n \<Rightarrow> n \<le> cap \<and> length bs = n \<and> pending k f = bs @ pending k' f \<and> (\<forall>g. g \<noteq> f \<longrightarrow> pending k' g = pending k g)
    | _ \<Rightarrow> pending k' = pending k" "sent k' = sent k" "rv = Eintr \<Longrightarrow> intr k' < intr k"
  using assms unfolding net_ok_def by blast+

lemma write_retry_ok:
  assumes net: "net_ok env sent pending intr"
  shows "\<exists>rv k'. write_retry env k f buf = ret (rv, k') \<and> rv \<noteq> Eintr \<and> pending k' = pending k \<and>
    (case rv of Count n \<Rightarrow> n \<le> length buf \<and> (buf \<noteq> [] \<longrightarrow> 0 < n) \<and> sent k' = (sent k)(f := sent k f @ take n buf)
     | _ \<Rightarrow> sent k' = sent k)"
proof (induction "intr k" arbitrary: k rule: less_induct)
  case less
  obtain rv k1 where c: "sys_write env k f buf = (rv, k1)" by (cases "sys_write env k f buf")
  note w = net_writeD [OF net c]
  show ?case
  proof (cases "rv = Eintr")
    case True
    then have eq: "write_retry env k f buf = write_retry env k1 f buf" using c by (subst write_retry.simps) simp
    have o: "sent k1 = sent k" using w(1) True by simp
    show ?thesis using less [OF w(3) [OF True]] unfolding w(2) eq o .
  next
    case False
    then have "write_retry env k f buf = ret (rv, k1)" using c by (subst write_retry.simps) simp
    then show ?thesis using w False by simp
  qed
qed

lemma read_retry_ok:
  assumes net: "net_ok env sent pending intr"
  shows "\<exists>rv bs k'. read_retry env k f cap = ret (rv, bs, k') \<and> rv \<noteq> Eintr \<and> sent k' = sent k \<and>
    (case rv of Count n \<Rightarrow> n \<le> cap \<and> length bs = n \<and> pending k f = bs @ pending k' f \<and> (\<forall>g. g \<noteq> f \<longrightarrow> pending k' g = pending k g)
     | _ \<Rightarrow> pending k' = pending k)"
proof (induction "intr k" arbitrary: k rule: less_induct)
  case less
  obtain rv bs k1 where c: "sys_read env k f cap = (rv, bs, k1)" by (cases "sys_read env k f cap") auto
  note w = net_readD [OF net c]
  show ?case
  proof (cases "rv = Eintr")
    case True
    then have eq: "read_retry env k f cap = read_retry env k1 f cap" using c by (subst read_retry.simps) simp
    have o: "pending k1 = pending k" using w(1) True by simp
    show ?thesis using less [OF w(3) [OF True]] unfolding w(2) eq o .
  next
    case False
    then have "read_retry env k f cap = ret (rv, bs, k1)" using c by (subst read_retry.simps) simp
    then show ?thesis using w False by simp
  qed
qed

section \<open>Buffers and streams\<close>

definition conn_ok :: "Conn \<Rightarrow> bool" where
  "conn_ok c \<longleftrightarrow> length (rbuf c) = BUF_SIZE \<and> length (wbuf c) = BUF_SIZE \<and> rbuf_size c \<le> BUF_SIZE \<and>
     wbuf_sent c \<le> wbuf_size c \<and> wbuf_size c \<le> BUF_SIZE \<and>
     (case state c of STATE_REQ \<Rightarrow> wbuf_size c = 0 | STATE_RES \<Rightarrow> wbuf_sent c < wbuf_size c | STATE_END \<Rightarrow> True)"

definition not_full :: "Conn \<Rightarrow> bool" where
  "not_full c \<longleftrightarrow> state c \<noteq> STATE_END \<longrightarrow> rbuf_size c < BUF_SIZE"

definition received :: "Conn \<Rightarrow> bytes" where
  "received c = take (rbuf_size c) (rbuf c)"

definition unsent :: "Conn \<Rightarrow> bytes" where
  "unsent c = drop (wbuf_sent c) (take (wbuf_size c) (wbuf c))"

definition in_stream :: "('k \<Rightarrow> nat \<Rightarrow> bytes) \<Rightarrow> 'k \<Rightarrow> Conn \<Rightarrow> bytes" where
  "in_stream pending k c = received c @ pending k (fd c)"

definition out_stream :: "('k \<Rightarrow> nat \<Rightarrow> bytes) \<Rightarrow> 'k \<Rightarrow> Conn \<Rightarrow> bytes" where
  "out_stream sent k c = sent k (fd c) @ unsent c"

lemma BUF_SIZE_small: "BUF_SIZE < 2 ^ 64"
  by (simp add: BUF_SIZE_def K_MAX_MSG_def)

section \<open>Sending\<close>

definition same_input :: "Conn \<Rightarrow> Conn \<Rightarrow> bool" where
  "same_input c c' \<longleftrightarrow> fd c' = fd c \<and> rbuf_size c' = rbuf_size c \<and> rbuf c' = rbuf c \<and> idle_start c' = idle_start c"

text \<open>What is written is exactly what has not been sent yet.\<close>

lemma try_flush_eq:
  assumes ok: "conn_ok c" "state c = STATE_RES"
  shows "try_flush_buffer env k c = bindE (write_retry env k (fd c) (unsent c)) (\<lambda>(rv, k).
    case rv of
      Eagain \<Rightarrow> ret (False, k, c)
    | Count n \<Rightarrow>
        bindE (assertE (wbuf_sent c + n \<le> wbuf_size c)) (\<lambda>_.
        if wbuf_sent c + n = wbuf_size c then ret (False, k, c\<lparr>state := STATE_REQ, wbuf_size := 0, wbuf_sent := 0\<rparr>)
        else ret (True, k, c\<lparr>wbuf_sent := wbuf_sent c + n\<rparr>))
    | _ \<Rightarrow> ret (False, k, c\<lparr>state := STATE_END\<rparr>))"
    "0 < length (unsent c)" "length (unsent c) = wbuf_size c - wbuf_sent c"
proof -
  have lens: "wbuf_sent c < wbuf_size c" "wbuf_size c \<le> BUF_SIZE" "length (wbuf c) = BUF_SIZE"
    using ok by (simp_all add: conn_ok_def)
  have rem: "(wbuf_size c + 2 ^ 64 - wbuf_sent c) mod 2 ^ 64 = wbuf_size c - wbuf_sent c"
    using lens BUF_SIZE_small by (simp add: mod_if)
  have rb: "read_bytes (wbuf c) (wbuf_sent c) (wbuf_size c - wbuf_sent c) = ret (unsent c)"
    using lens by (simp add: read_bytes_def unsent_def drop_take)
  then show "try_flush_buffer env k c = bindE (write_retry env k (fd c) (unsent c)) (\<lambda>(rv, k).
    case rv of
      Eagain \<Rightarrow> ret (False, k, c)
    | Count n \<Rightarrow>
        bindE (assertE (wbuf_sent c + n \<le> wbuf_size c)) (\<lambda>_.
        if wbuf_sent c + n = wbuf_size c then ret (False, k, c\<lparr>state := STATE_REQ, wbuf_size := 0, wbuf_sent := 0\<rparr>)
        else ret (True, k, c\<lparr>wbuf_sent := wbuf_sent c + n\<rparr>))
    | _ \<Rightarrow> ret (False, k, c\<lparr>state := STATE_END\<rparr>))"
    unfolding try_flush_buffer_def rem Let_def by (simp cong: io.case_cong if_cong)
  show "0 < length (unsent c)" "length (unsent c) = wbuf_size c - wbuf_sent c" using lens by (simp_all add: unsent_def)
qed

lemma try_flush_ok:
  assumes net: "net_ok env sent pending intr" and ok: "conn_ok c" "state c = STATE_RES"
  shows "\<exists>b k' c'. try_flush_buffer env k c = ret (b, k', c') \<and> conn_ok c' \<and> same_input c c' \<and>
    out_stream sent k' c' = out_stream sent k c \<and> pending k' = pending k \<and> (\<forall>g. g \<noteq> fd c \<longrightarrow> sent k' g = sent k g) \<and>
    (b \<longrightarrow> state c' = STATE_RES \<and> length (unsent c') < length (unsent c))"
proof -
  note run = try_flush_eq(1) [OF ok, of env k] and len = try_flush_eq(2,3) [OF ok]
  obtain rv k' where w: "write_retry env k (fd c) (unsent c) = ret (rv, k')" "rv \<noteq> Eintr" "pending k' = pending k"
    "case rv of Count n \<Rightarrow> n \<le> length (unsent c) \<and> (unsent c \<noteq> [] \<longrightarrow> 0 < n) \<and> sent k' = (sent k)(fd c := sent k (fd c) @ take n (unsent c))
     | _ \<Rightarrow> sent k' = sent k" using write_retry_ok [OF net] by blast
  show ?thesis
  proof (cases rv)
    case (Count n)
    then have n: "n \<le> length (unsent c)" "0 < n" "sent k' = (sent k)(fd c := sent k (fd c) @ take n (unsent c))"
      using w(4) len(1) by auto
    then have le: "wbuf_sent c + n \<le> wbuf_size c" using len by simp
    show ?thesis
    proof (cases "wbuf_sent c + n = wbuf_size c")
      case True
      let ?c = "c\<lparr>state := STATE_REQ, wbuf_size := 0, wbuf_sent := 0\<rparr>"
      have "try_flush_buffer env k c = ret (False, k', ?c)" using run w(1) Count True by simp
      moreover have "out_stream sent k' ?c = out_stream sent k c"
        using n(1,3) True len(2) by (simp add: out_stream_def unsent_def)
      ultimately show ?thesis using ok(1) n(3) w(3) by (auto simp: conn_ok_def same_input_def)
    next
      case False
      let ?c = "c\<lparr>wbuf_sent := wbuf_sent c + n\<rparr>"
      have "try_flush_buffer env k c = ret (True, k', ?c)" using run w(1) Count le False by simp
      moreover have u: "unsent ?c = drop n (unsent c)" by (simp add: unsent_def add.commute)
      then have "out_stream sent k' ?c = out_stream sent k c" using n(3) by (simp add: out_stream_def)
      moreover have "conn_ok ?c" "same_input c ?c" using ok le False by (simp_all add: conn_ok_def same_input_def)
      moreover have "state ?c = STATE_RES" "length (unsent ?c) < length (unsent c)" using ok(2) u n(1,2) by simp_all
      moreover have "\<forall>g. g \<noteq> fd c \<longrightarrow> sent k' g = sent k g" using n(3) by simp
      ultimately show ?thesis using w(3) by blast
    qed
  qed (use run w ok in \<open>auto simp: conn_ok_def same_input_def out_stream_def unsent_def\<close>)
qed

lemma state_res_ok:
  assumes net: "net_ok env sent pending intr" and "conn_ok c" "state c = STATE_RES"
  shows "\<exists>k' c'. state_res env k c = ret (k', c') \<and> conn_ok c' \<and> same_input c c' \<and>
    out_stream sent k' c' = out_stream sent k c \<and> pending k' = pending k \<and> (\<forall>g. g \<noteq> fd c \<longrightarrow> sent k' g = sent k g)"
  using assms(2,3)
proof (induction "length (unsent c)" arbitrary: k c rule: less_induct)
  case less
  obtain b k1 c1 where t: "try_flush_buffer env k c = ret (b, k1, c1)" "conn_ok c1" "same_input c c1"
    "out_stream sent k1 c1 = out_stream sent k c" "pending k1 = pending k" "\<forall>g. g \<noteq> fd c \<longrightarrow> sent k1 g = sent k g"
    "b \<longrightarrow> state c1 = STATE_RES \<and> length (unsent c1) < length (unsent c)" using try_flush_ok [OF net less.prems] by blast
  show ?case
  proof (cases b)
    case True
    then have "state_res env k c = state_res env k1 c1" using t(1) by (subst state_res.simps) simp
    then show ?thesis using less.hyps [of c1 k1] True t by (auto simp: same_input_def)
  next
    case False
    then have "state_res env k c = ret (k1, c1)" using t(1) by (subst state_res.simps) simp
    then show ?thesis using t by blast
  qed
qed

section \<open>Requests and responses\<close>

definition reply :: "val \<Rightarrow> val" where
  "reply v = (if 4 + length (encode v) > K_MAX_MSG then VErr ERR_2BIG (lit ''response is too big'') else v)"

lemma limit_response_encode: "limit_response (encode v) = encode (reply v)"
  by (simp add: limit_response_def reply_def)

lemma reply_small: "4 + length (encode (reply v)) \<le> K_MAX_MSG"
  by (simp add: reply_def out_err_def lit_def K_MAX_MSG_def)

text \<open>A sequence of requests with the bytes of their responses.\<close>

inductive serves_all :: "keyspace \<Rightarrow> bytes list list \<Rightarrow> bytes \<Rightarrow> keyspace \<Rightarrow> bool" where
  Nil: "serves_all M [] [] M"
| Cons: "serves M cmd v M1 \<Longrightarrow> serves_all M1 cmds out M2 \<Longrightarrow>
    serves_all M (cmd # cmds) (res_image (reply v) @ out) M2"

lemma serves_all_append:
  "serves_all M cmds out M1 \<Longrightarrow> serves_all M1 cmds' out' M2 \<Longrightarrow> serves_all M (cmds @ cmds') (out @ out') M2"
  by (induction rule: serves_all.induct) (auto intro: serves_all.intros)

text \<open>The key spaces that the requests at the front of a byte stream lead to are within capacity.\<close>

definition stays_roomy :: "keyspace \<Rightarrow> bytes \<Rightarrow> bool" where
  "stays_roomy M bs \<longleftrightarrow> (\<forall>cmds rest out M'. bs = concat (map req_image cmds) @ rest \<longrightarrow> serves_all M cmds out M' \<longrightarrow> roomy M')"

lemma stays_roomyD: "stays_roomy M bs \<Longrightarrow> roomy M"
proof -
  assume "stays_roomy M bs"
  then have "bs = concat (map req_image []) @ bs \<longrightarrow> serves_all M [] [] M \<longrightarrow> roomy M" unfolding stays_roomy_def by blast
  then show "roomy M" by (simp add: serves_all.Nil)
qed

lemma stays_roomy_rest:
  assumes "stays_roomy M (concat (map req_image cmds) @ bs)" "serves_all M cmds out M'"
  shows "stays_roomy M' bs"
  unfolding stays_roomy_def
proof (intro allI impI)
  fix cmds' rest out' M''
  assume "bs = concat (map req_image cmds') @ rest" "serves_all M' cmds' out' M''"
  then have "concat (map req_image cmds) @ bs = concat (map req_image (cmds @ cmds')) @ rest"
    "serves_all M (cmds @ cmds') (out @ out') M''" using serves_all_append [OF assms(2)] by simp_all
  then show "roomy M''" using assms(1) unfolding stays_roomy_def by blast
qed

text \<open>What a step of a connection does, seen from outside.\<close>

definition advanced ::
  "('k \<Rightarrow> nat \<Rightarrow> bytes) \<Rightarrow> ('k \<Rightarrow> nat \<Rightarrow> bytes) \<Rightarrow> keyspace \<Rightarrow> 'k \<Rightarrow> Conn \<Rightarrow> keyspace \<Rightarrow> 'k \<Rightarrow> Conn \<Rightarrow> bool" where
  "advanced sent pending M k c M' k' c' \<longleftrightarrow>
     (\<exists>cmds out. serves_all M cmds out M' \<and> in_stream pending k c = concat (map req_image cmds) @ in_stream pending k' c' \<and>
        out_stream sent k' c' = out_stream sent k c @ out) \<and> fd c' = fd c \<and> idle_start c' = idle_start c \<and>
     (\<forall>g. g \<noteq> fd c \<longrightarrow> sent k' g = sent k g \<and> pending k' g = pending k g)"

lemma advanced_refl [simp]: "advanced sent pending M k c M k c"
  unfolding advanced_def by (auto intro!: exI [of _ "[]"] serves_all.Nil)

lemma advanced_trans:
  assumes "advanced sent pending M k c M1 k1 c1" "advanced sent pending M1 k1 c1 M2 k2 c2"
  shows "advanced sent pending M k c M2 k2 c2"
proof -
  obtain cmds1 out1 where 1: "serves_all M cmds1 out1 M1" "in_stream pending k c = concat (map req_image cmds1) @ in_stream pending k1 c1"
    "out_stream sent k1 c1 = out_stream sent k c @ out1" using assms(1) unfolding advanced_def by blast
  obtain cmds2 out2 where 2: "serves_all M1 cmds2 out2 M2" "in_stream pending k1 c1 = concat (map req_image cmds2) @ in_stream pending k2 c2"
    "out_stream sent k2 c2 = out_stream sent k1 c1 @ out2" using assms(2) unfolding advanced_def by blast
  have "serves_all M (cmds1 @ cmds2) (out1 @ out2) M2" using serves_all_append 1(1) 2(1) by blast
  moreover have "in_stream pending k c = concat (map req_image (cmds1 @ cmds2)) @ in_stream pending k2 c2"
    "out_stream sent k2 c2 = out_stream sent k c @ out1 @ out2" using 1 2 by simp_all
  ultimately show ?thesis using assms unfolding advanced_def by (metis (no_types, lifting))
qed

lemma advanced_roomy:
  "advanced sent pending M k c M' k' c' \<Longrightarrow> stays_roomy M (in_stream pending k c) \<Longrightarrow> stays_roomy M' (in_stream pending k' c')"
  unfolding advanced_def using stays_roomy_rest by metis

lemma advanced_end: "advanced sent pending M k c M k (c\<lparr>state := STATE_END\<rparr>)"
  unfolding advanced_def by (auto intro!: exI [of _ "[]"] serves_all.Nil simp: in_stream_def out_stream_def received_def unsent_def)

section \<open>Handling one request\<close>

definition incomplete :: "bytes \<Rightarrow> bool" where
  "incomplete bs \<longleftrightarrow> length bs < 4 \<or> length bs < 4 + unat (word_of_le (take 4 bs) :: u32)"

lemma pack_response:
  assumes "length w = BUF_SIZE" "4 + length out \<le> BUF_SIZE"
  shows "write_bytes w 0 (le32 x) = ret (le32 x @ drop 4 w)"
    "write_bytes (le32 x @ drop 4 w) 4 out = ret (le32 x @ out @ drop (4 + length out) w)"
  using assms by (simp_all add: write_bytes_def add.commute)

lemma move_front_ok:
  "pos + n \<le> length buf \<Longrightarrow> move_front buf pos n = ret (take n (drop pos buf) @ drop n buf)"
  by (simp add: move_front_def read_bytes_def write_bytes_def min_absorb2)

lemma shift_received:
  assumes "pos \<le> n" "n \<le> length buf"
  shows "(if n - pos \<noteq> 0 then move_front buf pos (n - pos) else ret buf) = ret r \<Longrightarrow>
    length r = length buf \<and> take (n - pos) r = drop pos (take n buf)"
  using assms move_front_ok [of pos "n - pos" buf] by (cases "n - pos = 0") (auto simp: drop_take)

lemma payload_args: "length (req_payload cmd) \<le> K_MAX_MSG \<Longrightarrow> small_args cmd"
  using args_image_bounds(2) [of _ cmd] by (fastforce simp: small_args_def length_req_payload)

text \<open>The state of a connection after a response of \<open>v\<close> is packed and the request removed.\<close>

lemma packed_conn:
  fixes v :: val
  assumes ok: "conn_ok c" "state c = STATE_REQ" and r: "length r = BUF_SIZE" and n: "n \<le> BUF_SIZE"
  defines "bs \<equiv> encode (reply v)"
  defines "c' \<equiv> c\<lparr>state := STATE_RES, rbuf_size := n, rbuf := r, wbuf_size := unat (4 + of_nat (length bs) :: u32),
      wbuf := le32 (of_nat (length bs)) @ bs @ drop (4 + length bs) (wbuf c)\<rparr>"
  shows "conn_ok c'" "unsent c' = res_image (reply v)" "received c' = take n r" "fd c' = fd c"
    "idle_start c' = idle_start c" "state c' = STATE_RES" "rbuf_size c' = n"
proof -
  have len: "4 + length bs \<le> K_MAX_MSG" using reply_small by (simp add: bs_def)
  then have u: "unat (4 + of_nat (length bs) :: u32) = 4 + length bs"
    using unat_of_nat_u32 [of "4 + length bs"] by (simp add: K_MAX_MSG_def)
  show "conn_ok c'" using ok r n len u by (simp add: conn_ok_def c'_def BUF_SIZE_def)
  have "wbuf_sent c = 0" using ok by (simp add: conn_ok_def)
  then show "unsent c' = res_image (reply v)" using ok u by (simp add: unsent_def c'_def res_image_def bs_def conn_ok_def)
qed (use ok in \<open>simp_all add: c'_def received_def unsent_def conn_ok_def\<close>)

text \<open>A complete, well-formed request at the front of the buffer: up to the flush of its response.\<close>

lemma handle_request_eq:
  fixes len :: u32
  assumes fresh: "fresh_alloc env" and at: "server_at s M" and ok: "conn_ok c" "state c = STATE_REQ" and room: "roomy M"
    and len: "4 \<le> rbuf_size c" "len = word_of_le (take 4 (rbuf c))" "unat len \<le> K_MAX_MSG" "4 + unat len \<le> rbuf_size c"
    and p: "parse_req (drop 4 (rbuf c)) (unat len) [] = ret (0, cmd)" "take (unat len) (drop 4 (rbuf c)) = req_payload cmd"
  obtains c1 s' v M' where
    "try_one_request env s k c = bindE (state_res env k c1) (\<lambda>(k, conn). ret (state conn = STATE_REQ, s', k, conn))"
    "conn_ok c1" "state c1 = STATE_RES" "fd c1 = fd c" "idle_start c1 = idle_start c" "rbuf_size c1 < rbuf_size c"
    "unsent c1 = res_image (reply v)" "received c = req_image cmd @ received c1" "serves M cmd v M'" "server_at s' M'"
proof -
  let ?n = "rbuf_size c - 4 - unat len"
  have lens: "length (rbuf c) = BUF_SIZE" "length (wbuf c) = BUF_SIZE" "rbuf_size c \<le> BUF_SIZE" using ok by (simp_all add: conn_ok_def)
  have rd: "read_u32 (rbuf c) 0 = ret len" using len lens by (simp add: read_u32_ret)
  have u: "unat (4 + len) = 4 + unat len"
    using len(3) unat_of_nat_u32 [of "4 + unat len"] by (simp add: K_MAX_MSG_def)
  have lenp: "length (req_payload cmd) = unat len" using arg_cong [OF p(2), of length] len(4) lens by simp
  then have args: "small_args cmd" using payload_args len(3) by simp
  have "mem_finite s" using at unfolding server_at_def server_ok_def by blast
  then obtain x where x: "snd (alloc env k s) = Some x" "fresh_for s (fst (alloc env k s)) x" using fresh unfolding fresh_alloc_def by blast
  from do_request_ok [OF at room x(2) args] obtain s' v M' where
    d: "do_request (fst (alloc env k s)) (Some x) s cmd [] = ret (s', encode v)" "serves M cmd v M'" "server_at s' M'"
    by blast
  define bs where "bs = encode (reply v)"
  obtain r where r: "(if ?n \<noteq> 0 then move_front (rbuf c) (4 + unat len) ?n else ret (rbuf c)) = ret r"
    using move_front_ok [of "4 + unat len" ?n "rbuf c"] lens len(4) by (cases "?n = 0") auto
  have r': "length r = BUF_SIZE" "take ?n r = drop (4 + unat len) (received c)"
    using shift_received [OF len(4) _ r [unfolded diff_diff_left]] lens by (simp_all add: received_def diff_diff_left)
  define c1 where "c1 = c\<lparr>state := STATE_RES, rbuf_size := ?n, rbuf := r, wbuf_size := unat (4 + of_nat (length bs) :: u32),
      wbuf := le32 (of_nat (length bs)) @ bs @ drop (4 + length bs) (wbuf c)\<rparr>"
  have n: "?n \<le> BUF_SIZE" using lens(3) by simp
  note c1 = packed_conn [OF ok r'(1) n, of v, folded bs_def, folded c1_def]
  have lb: "4 + length bs \<le> BUF_SIZE" using reply_small [of v] by (simp add: bs_def BUF_SIZE_def)
  have "try_one_request env s k c = bindE (state_res env k c1) (\<lambda>(k, conn). ret (state conn = STATE_REQ, s', k, conn))"
    using len(1,3,4) rd u p(1) d(1) x(1) r pack_response [OF lens(2) lb]
    by (cases "?n = 0") (simp_all add: try_one_request_def Let_def limit_response_encode c1_def bs_def [symmetric] diff_diff_left)
  moreover have "received c = take 4 (rbuf c) @ take (unat len) (drop 4 (rbuf c)) @ drop (4 + unat len) (received c)"
    using len(4) lens take_add [of 4 "unat len" "rbuf c"] append_take_drop_id [of "4 + unat len" "received c"]
    by (simp add: received_def min_def)
  then have "received c = req_image cmd @ received c1"
    using p(2) r'(2) c1(3) lenp len(2) lens le32_word_of_le [of "take 4 (rbuf c)"] by (simp add: req_image_def BUF_SIZE_def)
  moreover have "rbuf_size c1 < rbuf_size c" using c1(7) len(1) by simp
  ultimately show thesis using that [of c1 s' v M'] c1 d(2,3) by simp
qed

lemma handle_request:
  fixes len :: u32
  assumes net: "net_ok env sent pending intr" and fresh: "fresh_alloc env" and at: "server_at s M"
    and ok: "conn_ok c" "state c = STATE_REQ" and room: "roomy M"
    and len: "4 \<le> rbuf_size c" "len = word_of_le (take 4 (rbuf c))" "unat len \<le> K_MAX_MSG" "4 + unat len \<le> rbuf_size c"
    and p: "parse_req (drop 4 (rbuf c)) (unat len) [] = ret (0, cmd)" "take (unat len) (drop 4 (rbuf c)) = req_payload cmd"
  shows "\<exists>b s' k' c' M'. try_one_request env s k c = ret (b, s', k', c') \<and> conn_ok c' \<and> rbuf_size c' < rbuf_size c \<and>
    (b \<longleftrightarrow> state c' = STATE_REQ) \<and> server_at s' M' \<and> pending k' = pending k \<and> advanced sent pending M k c M' k' c'"
proof -
  obtain c1 s' v M' where
    run: "try_one_request env s k c = bindE (state_res env k c1) (\<lambda>(k, conn). ret (state conn = STATE_REQ, s', k, conn))"
    and c1: "conn_ok c1" "state c1 = STATE_RES" "fd c1 = fd c" "idle_start c1 = idle_start c" "rbuf_size c1 < rbuf_size c"
      "unsent c1 = res_image (reply v)" "received c = req_image cmd @ received c1" and d: "serves M cmd v M'" "server_at s' M'"
    using handle_request_eq [OF fresh at ok room len p] .
  have uc: "unsent c = []" using ok by (simp add: unsent_def conn_ok_def)
  obtain k' c' where f: "state_res env k c1 = ret (k', c')" "conn_ok c'" "same_input c1 c'"
    "out_stream sent k' c' = out_stream sent k c1" "pending k' = pending k" "\<forall>g. g \<noteq> fd c1 \<longrightarrow> sent k' g = sent k g"
    using state_res_ok [OF net c1(1,2)] by blast
  have "received c' = received c1" using f(3) by (simp add: same_input_def received_def)
  then have "in_stream pending k c = concat (map req_image [cmd]) @ in_stream pending k' c'"
    using f(3,5) c1(3,7) by (simp add: in_stream_def same_input_def)
  moreover have "out_stream sent k' c' = out_stream sent k c @ res_image (reply v) @ []"
    using f(4) c1(3,6) uc by (simp add: out_stream_def)
  moreover have "serves_all M [cmd] (res_image (reply v) @ []) M'" using d(1) by (blast intro: serves_all.intros)
  moreover have "fd c' = fd c" "idle_start c' = idle_start c" "rbuf_size c' < rbuf_size c"
    using f(3) c1(3,4,5) by (simp_all add: same_input_def)
  moreover have "try_one_request env s k c = ret (state c' = STATE_REQ, s', k', c')" using run f(1) by simp
  ultimately show ?thesis unfolding advanced_def using f(2,5,6) d(2) c1(3) by (metis (no_types, lifting))
qed

text \<open>What one attempt at the buffer does: wait for more, give up, or handle the request at the front.\<close>

lemma try_one_request_cases:
  assumes ok: "conn_ok c" "state c = STATE_REQ"
  obtains (waits) "try_one_request env s k c = ret (False, s, k, c)" "not_full c" "incomplete (received c)"
    | (fails) "try_one_request env s k c = ret (False, s, k, c\<lparr>state := STATE_END\<rparr>)"
    | (handles) len :: u32 and cmd where "4 \<le> rbuf_size c" "len = word_of_le (take 4 (rbuf c))" "unat len \<le> K_MAX_MSG"
        "4 + unat len \<le> rbuf_size c" "parse_req (drop 4 (rbuf c)) (unat len) [] = ret (0, cmd)"
        "take (unat len) (drop 4 (rbuf c)) = req_payload cmd"
proof -
  have lens: "length (rbuf c) = BUF_SIZE" "rbuf_size c \<le> BUF_SIZE" using ok by (simp_all add: conn_ok_def)
  define len where "len = (word_of_le (take 4 (rbuf c)) :: u32)"
  have rd: "read_u32 (rbuf c) 0 = ret len" using lens by (simp add: read_u32_ret len_def BUF_SIZE_def)
  have u: "unat (4 + len) = 4 + unat len" if "unat len \<le> K_MAX_MSG"
    using that unat_of_nat_u32 [of "4 + unat len"] by (simp add: K_MAX_MSG_def)
  consider (short) "rbuf_size c < 4" | (large) "4 \<le> rbuf_size c" "unat len > K_MAX_MSG"
    | (part) "4 \<le> rbuf_size c" "unat len \<le> K_MAX_MSG" "4 + unat len > rbuf_size c"
    | (whole) "4 \<le> rbuf_size c" "unat len \<le> K_MAX_MSG" "4 + unat len \<le> rbuf_size c" by linarith
  then show thesis
  proof cases
    case short
    then show thesis using lens
      by (intro waits) (simp_all add: try_one_request_def not_full_def BUF_SIZE_def incomplete_def received_def)
  next
    case large
    then show thesis using rd by (intro fails) (simp add: try_one_request_def)
  next
    case part
    have "take 4 (received c) = take 4 (rbuf c)" using part(1) by (simp add: received_def min_def)
    then have "incomplete (received c)" using part(3) lens by (simp add: incomplete_def len_def received_def)
    then show thesis using part rd u lens by (intro waits) (simp_all add: try_one_request_def not_full_def BUF_SIZE_def)
  next
    case whole
    have "unat len \<le> length (drop 4 (rbuf c))" using whole(3) lens by simp
    from parse_req_decodes [OF this] obtain rv cmd where p: "parse_req (drop 4 (rbuf c)) (unat len) [] = ret (rv, cmd)"
      "rv = 0 \<longrightarrow> take (unat len) (drop 4 (rbuf c)) = req_payload cmd" by blast
    show thesis
    proof (cases "rv = 0")
      case True
      then show thesis using handles [OF whole(1) len_def whole(2,3)] p by simp
    qed (use whole rd u p(1) in \<open>intro fails, simp add: try_one_request_def\<close>)
  qed
qed

lemma try_one_request_ok:
  assumes net: "net_ok env sent pending intr" and fresh: "fresh_alloc env" and at: "server_at s M"
    and ok: "conn_ok c" "state c = STATE_REQ" and room: "roomy M"
  shows "\<exists>b s' k' c' M'. try_one_request env s k c = ret (b, s', k', c') \<and> conn_ok c' \<and> not_full c' \<and>
    (b \<longrightarrow> state c' = STATE_REQ \<and> rbuf_size c' < rbuf_size c) \<and> (\<not> b \<longrightarrow> state c' = STATE_REQ \<longrightarrow> incomplete (received c')) \<and>
    server_at s' M' \<and> pending k' = pending k \<and> advanced sent pending M k c M' k' c'"
proof (cases rule: try_one_request_cases [OF ok, of env s k])
  case 1
  then show ?thesis using ok at by (intro exI [of _ False] exI [of _ s] exI [of _ k] exI [of _ c] exI [of _ M]) simp
next
  case 2
  let ?e = "c\<lparr>state := STATE_END\<rparr>"
  have "conn_ok ?e" "not_full ?e" "state ?e \<noteq> STATE_REQ" using ok by (simp_all add: conn_ok_def not_full_def)
  then show ?thesis using 2 at advanced_end
    by (intro exI [of _ False] exI [of _ s] exI [of _ k] exI [of _ ?e] exI [of _ M]) simp
next
  case (3 len cmd)
  obtain b s' k' c' M' where h: "try_one_request env s k c = ret (b, s', k', c')" "conn_ok c'" "rbuf_size c' < rbuf_size c"
    "b \<longleftrightarrow> state c' = STATE_REQ" "server_at s' M'" "pending k' = pending k" "advanced sent pending M k c M' k' c'"
    using handle_request [OF net fresh at ok room 3, of k] by (elim exE conjE) (rule that; assumption)
  have "not_full c'" using h(3) ok by (simp add: not_full_def conn_ok_def)
  then show ?thesis using h by (intro exI [of _ b] exI [of _ s'] exI [of _ k'] exI [of _ c'] exI [of _ M']) simp
qed

section \<open>The loops\<close>

lemma request_loop_ok:
  assumes net: "net_ok env sent pending intr" and fresh: "fresh_alloc env"
    and "server_at s M" "conn_ok c" "state c = STATE_REQ" "stays_roomy M (in_stream pending k c)"
  shows "\<exists>s' k' c' M'. request_loop env s k c = ret (s', k', c') \<and> conn_ok c' \<and> not_full c' \<and>
    (state c' = STATE_REQ \<longrightarrow> incomplete (received c')) \<and>
    server_at s' M' \<and> pending k' = pending k \<and> advanced sent pending M k c M' k' c'"
  using assms(3-)
proof (induction "rbuf_size c" arbitrary: s M k c rule: less_induct)
  case less
  obtain b s1 k1 c1 M1 where t: "try_one_request env s k c = ret (b, s1, k1, c1)" "conn_ok c1" "not_full c1"
    "b \<longrightarrow> state c1 = STATE_REQ \<and> rbuf_size c1 < rbuf_size c" "\<not> b \<longrightarrow> state c1 = STATE_REQ \<longrightarrow> incomplete (received c1)"
    "server_at s1 M1" "pending k1 = pending k" "advanced sent pending M k c M1 k1 c1"
    using try_one_request_ok [OF net fresh less.prems(1-3) stays_roomyD [OF less.prems(4)], of k]
    by (elim exE conjE) (rule that; assumption)
  show ?case
  proof (cases b)
    case True
    then have "request_loop env s k c = request_loop env s1 k1 c1" using t(1) by (subst request_loop.simps) simp
    moreover obtain s' k' c' M' where "request_loop env s1 k1 c1 = ret (s', k', c')" "conn_ok c'" "not_full c'"
      "state c' = STATE_REQ \<longrightarrow> incomplete (received c')" "server_at s' M'" "pending k' = pending k1"
      "advanced sent pending M1 k1 c1 M' k' c'"
      using less.hyps [OF _ t(6,2) _ advanced_roomy [OF t(8) less.prems(4)]] True t(4)
      by (elim exE conjE impE) (auto intro: that)
    ultimately show ?thesis using t(7) advanced_trans [OF t(8)]
      by (intro exI [of _ s'] exI [of _ k'] exI [of _ c'] exI [of _ M']) simp
  next
    case False
    then have "request_loop env s k c = ret (s1, k1, c1)" using t(1) by (subst request_loop.simps) simp
    then show ?thesis using t False by (intro exI [of _ s1] exI [of _ k1] exI [of _ c1] exI [of _ M1]) simp
  qed
qed

text \<open>The bytes of a read, appended to the receive buffer.\<close>

lemma filled_conn:
  assumes ok: "conn_ok c" "state c = STATE_REQ" and n: "rbuf_size c + length bs \<le> BUF_SIZE"
    and k: "pending k (fd c) = bs @ pending k' (fd c)" "\<And>g. g \<noteq> fd c \<Longrightarrow> pending k' g = pending k g" "sent k' = sent k"
  obtains r where "write_bytes (rbuf c) (rbuf_size c) bs = ret r"
    "conn_ok (c\<lparr>rbuf_size := rbuf_size c + length bs, rbuf := r\<rparr>)"
    "in_stream pending k' (c\<lparr>rbuf_size := rbuf_size c + length bs, rbuf := r\<rparr>) = in_stream pending k c"
    "advanced sent pending M k c M k' (c\<lparr>rbuf_size := rbuf_size c + length bs, rbuf := r\<rparr>)"
proof -
  have lens: "length (rbuf c) = BUF_SIZE" using ok by (simp add: conn_ok_def)
  let ?r = "take (rbuf_size c) (rbuf c) @ bs @ drop (rbuf_size c + length bs) (rbuf c)"
  let ?c = "c\<lparr>rbuf_size := rbuf_size c + length bs, rbuf := ?r\<rparr>"
  have w: "write_bytes (rbuf c) (rbuf_size c) bs = ret ?r" using n lens by (simp add: write_bytes_def)
  have "received ?c = received c @ bs" using n lens by (simp add: received_def)
  then have i: "in_stream pending k' ?c = in_stream pending k c" using k(1) by (simp add: in_stream_def)
  have "advanced sent pending M k c M k' ?c"
    unfolding advanced_def using i k(2,3) by (auto intro!: exI [of _ "[]"] serves_all.Nil simp: out_stream_def unsent_def)
  moreover have "conn_ok ?c" using ok n lens by (simp add: conn_ok_def)
  ultimately show thesis using that [of ?r] w i by blast
qed

text \<open>A read that delivered bytes: the requests that are now complete are served.\<close>

lemma fill_more:
  assumes net: "net_ok env sent pending intr" and fresh: "fresh_alloc env"
    and at: "server_at s M" and ok: "conn_ok c" "state c = STATE_REQ" and full: "rbuf_size c < BUF_SIZE"
    and room: "stays_roomy M (in_stream pending k c)"
    and r: "read_retry env k (fd c) (BUF_SIZE - rbuf_size c) = ret (Count n, bs, k1)" "n \<noteq> 0" "sent k1 = sent k"
    and n: "n \<le> BUF_SIZE - rbuf_size c" "length bs = n" "pending k (fd c) = bs @ pending k1 (fd c)"
      "\<And>g. g \<noteq> fd c \<Longrightarrow> pending k1 g = pending k g"
  shows "\<exists>s' k' c' M'. try_fill_buffer env s k c = ret (state c' = STATE_REQ, s', k', c') \<and> conn_ok c' \<and> not_full c' \<and>
    length (pending k' (fd c)) < length (pending k (fd c)) \<and> (state c' = STATE_REQ \<longrightarrow> incomplete (received c')) \<and>
    server_at s' M' \<and> advanced sent pending M k c M' k' c'"
proof -
  have le: "rbuf_size c + length bs \<le> BUF_SIZE" using n(1,2) full by simp
  from filled_conn [where M = M and sent = sent and pending = pending and k = k and k' = k1, OF ok this n(3,4) r(3)] obtain rb where
    f: "write_bytes (rbuf c) (rbuf_size c) bs = ret rb" "conn_ok (c\<lparr>rbuf_size := rbuf_size c + length bs, rbuf := rb\<rparr>)"
      "in_stream pending k1 (c\<lparr>rbuf_size := rbuf_size c + length bs, rbuf := rb\<rparr>) = in_stream pending k c"
      "advanced sent pending M k c M k1 (c\<lparr>rbuf_size := rbuf_size c + length bs, rbuf := rb\<rparr>)" by blast
  let ?c = "c\<lparr>rbuf_size := rbuf_size c + length bs, rbuf := rb\<rparr>"
  have "state ?c = STATE_REQ" "stays_roomy M (in_stream pending k1 ?c)" using ok(2) room f(3) by simp_all
  from request_loop_ok [OF net fresh at f(2) this] obtain s' k' c' M' where
    l: "request_loop env s k1 ?c = ret (s', k', c')" "conn_ok c'" "not_full c'" "state c' = STATE_REQ \<longrightarrow> incomplete (received c')"
      "server_at s' M'" "pending k' = pending k1" "advanced sent pending M k1 ?c M' k' c'" by (elim exE conjE) (rule that; assumption)
  have "try_fill_buffer env s k c = ret (state c' = STATE_REQ, s', k', c')"
    using full r(1,2) f(1) l(1) n(2) le by (simp add: try_fill_buffer_def Let_def)
  moreover have "length (pending k' (fd c)) < length (pending k (fd c))" using l(6) n(2,3) r(2) by simp
  ultimately show ?thesis using l advanced_trans [OF f(4) l(7)] by blast
qed

lemma try_fill_ok:
  assumes net: "net_ok env sent pending intr" and fresh: "fresh_alloc env"
    and at: "server_at s M" and ok: "conn_ok c" "state c = STATE_REQ" "not_full c" and room: "stays_roomy M (in_stream pending k c)"
  shows "\<exists>b s' k' c' M'. try_fill_buffer env s k c = ret (b, s', k', c') \<and> conn_ok c' \<and> not_full c' \<and>
    (b \<longrightarrow> state c' = STATE_REQ \<and> length (pending k' (fd c)) < length (pending k (fd c))) \<and>
    (incomplete (received c) \<longrightarrow> state c' = STATE_REQ \<longrightarrow> incomplete (received c')) \<and>
    server_at s' M' \<and> advanced sent pending M k c M' k' c'"
proof -
  have full: "rbuf_size c < BUF_SIZE" using ok(2,3) by (simp add: not_full_def)
  obtain rv bs k1 where r: "read_retry env k (fd c) (BUF_SIZE - rbuf_size c) = ret (rv, bs, k1)" "rv \<noteq> Eintr" "sent k1 = sent k"
    "case rv of Count n \<Rightarrow> n \<le> BUF_SIZE - rbuf_size c \<and> length bs = n \<and> pending k (fd c) = bs @ pending k1 (fd c) \<and>
        (\<forall>g. g \<noteq> fd c \<longrightarrow> pending k1 g = pending k g)
     | _ \<Rightarrow> pending k1 = pending k" using read_retry_ok [OF net] by blast
  have idle: "advanced sent pending M k c M k1 (c\<lparr>state := x\<rparr>)" if "pending k1 = pending k" for x
    unfolding advanced_def using that r(3)
    by (auto intro!: exI [of _ "[]"] serves_all.Nil simp: in_stream_def out_stream_def received_def unsent_def)
  let ?e = "c\<lparr>state := STATE_END\<rparr>"
  have e: "conn_ok ?e" "not_full ?e" using ok by (simp_all add: conn_ok_def not_full_def)
  have failed: ?thesis if "try_fill_buffer env s k c = ret (False, s, k1, ?e)" "pending k1 = pending k"
    using that e at idle by (intro exI [of _ False] exI [of _ s] exI [of _ k1] exI [of _ ?e] exI [of _ M]) simp
  show ?thesis
  proof (cases rv)
    case (Count n)
    with r(4) have n: "n \<le> BUF_SIZE - rbuf_size c" "length bs = n" "pending k (fd c) = bs @ pending k1 (fd c)"
      "\<And>g. g \<noteq> fd c \<Longrightarrow> pending k1 g = pending k g" by simp_all
    show ?thesis
    proof (cases "n = 0")
      case True
      then have "pending k1 = pending k" using n(2,3,4) by (metis append_Nil ext length_0_conv)
      then show ?thesis using full r(1) Count True by (intro failed) (simp_all add: try_fill_buffer_def)
    next
      case False
      from fill_more [OF net fresh at ok(1,2) full room r(1) [unfolded Count] False r(3) n] show ?thesis by blast
    qed
  next
    case Eagain
    then have "try_fill_buffer env s k c = ret (False, s, k1, c)" using full r(1) by (simp add: try_fill_buffer_def)
    moreover have "advanced sent pending M k c M k1 c" using idle [of "state c"] Eagain r(4) by simp
    ultimately show ?thesis using ok at
      by (intro exI [of _ False] exI [of _ s] exI [of _ k1] exI [of _ c] exI [of _ M]) simp
  next
    case Eother
    then show ?thesis using full r(1,4) by (intro failed) (simp_all add: try_fill_buffer_def)
  qed (use r(2) in simp)
qed

lemma state_req_ok:
  assumes net: "net_ok env sent pending intr" and fresh: "fresh_alloc env"
    and "server_at s M" "conn_ok c" "state c = STATE_REQ" "not_full c" "stays_roomy M (in_stream pending k c)"
  shows "\<exists>s' k' c' M'. state_req env s k c = ret (s', k', c') \<and> conn_ok c' \<and> not_full c' \<and>
    (incomplete (received c) \<longrightarrow> state c' = STATE_REQ \<longrightarrow> incomplete (received c')) \<and>
    server_at s' M' \<and> advanced sent pending M k c M' k' c'"
  using assms(3-)
proof (induction "length (pending k (fd c))" arbitrary: s M k c rule: less_induct)
  case less
  obtain b s1 k1 c1 M1 where t: "try_fill_buffer env s k c = ret (b, s1, k1, c1)" "conn_ok c1" "not_full c1"
    "b \<longrightarrow> state c1 = STATE_REQ \<and> length (pending k1 (fd c)) < length (pending k (fd c))"
    "incomplete (received c) \<longrightarrow> state c1 = STATE_REQ \<longrightarrow> incomplete (received c1)"
    "server_at s1 M1" "advanced sent pending M k c M1 k1 c1"
    using try_fill_ok [OF net fresh less.prems] by (elim exE conjE) (rule that; assumption)
  show ?case
  proof (cases b)
    case True
    have fd: "fd c1 = fd c" using t(7) by (simp add: advanced_def)
    have "state_req env s k c = state_req env s1 k1 c1" using True t(1) by (subst state_req.simps) simp
    moreover obtain s' k' c' M' where "state_req env s1 k1 c1 = ret (s', k', c')" "conn_ok c'" "not_full c'"
      "incomplete (received c1) \<longrightarrow> state c' = STATE_REQ \<longrightarrow> incomplete (received c')" "server_at s' M'"
      "advanced sent pending M1 k1 c1 M' k' c'"
      using less.hyps [OF _ t(6,2) _ t(3) advanced_roomy [OF t(7) less.prems(5)]] True t(4) fd
      by (elim exE conjE impE) (auto intro: that)
    ultimately show ?thesis using t(4,5) True advanced_trans [OF t(7)]
      by (intro exI [of _ s'] exI [of _ k'] exI [of _ c'] exI [of _ M']) simp
  next
    case False
    then have "state_req env s k c = ret (s1, k1, c1)" using t(1) by (subst state_req.simps) simp
    then show ?thesis using t by (intro exI [of _ s1] exI [of _ k1] exI [of _ c1] exI [of _ M1]) simp
  qed
qed

section \<open>One wake-up\<close>

lemma conn_step_ok:
  assumes net: "net_ok env sent pending intr" and fresh: "fresh_alloc env"
    and at: "server_at s M" and ok: "conn_ok c" "not_full c" "state c \<noteq> STATE_END" and room: "stays_roomy M (in_stream pending k c)"
  shows "\<exists>s' k' c' M'. conn_step env s k c = ret (s', k', c') \<and> conn_ok c' \<and> not_full c' \<and>
    server_at s' M' \<and> advanced sent pending M k c M' k' c'"
proof (cases "state c")
  case STATE_REQ
  then show ?thesis using state_req_ok [OF net fresh at ok(1) STATE_REQ ok(2) room] by (auto simp: conn_step_def)
next
  case STATE_RES
  obtain k' c' where f: "state_res env k c = ret (k', c')" "conn_ok c'" "same_input c c'"
    "out_stream sent k' c' = out_stream sent k c" "pending k' = pending k" "\<forall>g. g \<noteq> fd c \<longrightarrow> sent k' g = sent k g"
    using state_res_ok [OF net ok(1) STATE_RES] by blast
  have "conn_step env s k c = ret (s, k', c')" using f(1) STATE_RES by (simp add: conn_step_def)
  moreover have "not_full c'" using f(3) ok(2,3) by (simp add: same_input_def not_full_def)
  moreover have "in_stream pending k c = in_stream pending k' c'" using f(3,5) by (simp add: in_stream_def received_def same_input_def)
  then have "advanced sent pending M k c M k' c'"
    unfolding advanced_def using f(3,4,5,6) by (auto intro!: exI [of _ "[]"] serves_all.Nil simp: same_input_def)
  ultimately show ?thesis using f(2) at by blast
qed (use ok(3) in simp)

section \<open>Nothing complete is left unanswered\<close>

text \<open>\<open>EAGAIN\<close> is only reported when no byte is there to be read.\<close>

definition prompt :: "'k env \<Rightarrow> ('k \<Rightarrow> nat \<Rightarrow> bytes) \<Rightarrow> bool" where
  "prompt env pending \<longleftrightarrow> (\<forall>k f cap bs k'. sys_read env k f cap = (Eagain, bs, k') \<longrightarrow> pending k f = [])"

lemma read_retry_eagain:
  assumes net: "net_ok env sent pending intr" and pr: "prompt env pending" and "read_retry env k f cap = ret (Eagain, bs, k')"
  shows "pending k' f = []"
  using assms(3)
proof (induction "intr k" arbitrary: k rule: less_induct)
  case less
  obtain rv b k1 where c: "sys_read env k f cap = (rv, b, k1)" by (cases "sys_read env k f cap") auto
  note w = net_readD [OF net c]
  show ?case
  proof (cases "rv = Eintr")
    case True
    then have "read_retry env k1 f cap = ret (Eagain, bs, k')" using c less.prems by (subst (asm) read_retry.simps) simp
    then show ?thesis using less.hyps [OF w(3) [OF True]] by blast
  next
    case False
    then have "rv = Eagain" "k' = k1" using c less.prems by (subst (asm) read_retry.simps; simp)+
    then show ?thesis using c w(1) pr unfolding prompt_def by fastforce
  qed
qed

lemma try_fill_drains:
  assumes net: "net_ok env sent pending intr" and pr: "prompt env pending"
    and run: "try_fill_buffer env s k c = ret (b, s', k', c')" and st: "state c = STATE_REQ"
  shows "b \<Longrightarrow> state c' = STATE_REQ" "\<not> b \<Longrightarrow> state c' = STATE_REQ \<Longrightarrow> pending k' (fd c') = []"
proof -
  obtain rv bs k1 where r: "read_retry env k (fd c) (BUF_SIZE - rbuf_size c) = ret (rv, bs, k1)" "rv \<noteq> Eintr"
    using read_retry_ok [OF net] by blast
  have "(b \<longrightarrow> state c' = STATE_REQ) \<and> (\<not> b \<longrightarrow> state c' = STATE_REQ \<longrightarrow> pending k' (fd c') = [])"
    using run r read_retry_eagain [OF net pr, of k "fd c"]
    by (cases rv) (auto simp: try_fill_buffer_def bindE_eq_ret_iff Let_def split: if_splits)
  then show "b \<Longrightarrow> state c' = STATE_REQ" "\<not> b \<Longrightarrow> state c' = STATE_REQ \<Longrightarrow> pending k' (fd c') = []" by blast+
qed

lemma state_req_drains:
  assumes net: "net_ok env sent pending intr" and pr: "prompt env pending"
    and run: "state_req env s k c = ret (s', k', c')" and st: "state c = STATE_REQ" "state c' = STATE_REQ"
  shows "pending k' (fd c') = []"
proof -
  define P where "P e (c :: Conn) y \<longleftrightarrow> (e = env \<longrightarrow> state c = STATE_REQ \<longrightarrow> y = Inr (s', k', c') \<longrightarrow> pending k' (fd c') = [])"
    for e c and y :: "fault + server \<times> 'a \<times> Conn"
  have "P env c (Inr (s', k', c'))"
  proof (rule state_req.raw_induct [of "\<lambda>e s k c y. P e c y"])
    show "state_req env s k c = Some (Inr (s', k', c'))" using run by (simp add: ret_def)
  next
    fix f :: "'a env \<Rightarrow> server \<Rightarrow> 'a \<Rightarrow> Conn \<Rightarrow> (server \<times> 'a \<times> Conn) exec" and e s k c y
    assume IH: "\<And>e s k c y. f e s k c = Some y \<Longrightarrow> P e c y"
      and b: "bindE (try_fill_buffer e s k c) (\<lambda>r. if fst r then f e (fst (snd r)) (fst (snd (snd r))) (snd (snd (snd r))) else ret (snd r)) = Some y"
    show "P e c y"
      unfolding P_def
    proof (intro impI)
      assume a: "e = env" "state c = STATE_REQ" "y = Inr (s', k', c')"
      then obtain t s1 k1 c1 where t: "try_fill_buffer env s k c = ret (t, s1, k1, c1)"
        "(if t then f env s1 k1 c1 else ret (s1, k1, c1)) = ret (s', k', c')"
        using b unfolding a(3) ret_def [symmetric] bindE_eq_ret_iff by (metis fst_conv prod.collapse snd_conv)
      note d = try_fill_drains [OF net pr t(1) a(2)]
      show "pending k' (fd c') = []"
      proof (cases t)
        case True
        then show ?thesis using IH [of env s1 k1 c1 "Inr (s', k', c')"] t(2) d(1) by (simp add: P_def ret_def)
      next
        case False
        then show ?thesis using t(2) d(2) st(2) by (simp add: ret_def)
      qed
    qed
  qed
  then show ?thesis using st(1) by (simp add: P_def)
qed

section \<open>A request that waits\<close>

text \<open>
  While a response is being flushed, the requests behind it are not looked at; and afterwards they are not
  looked at before more bytes arrive.
\<close>

lemma read_retry_now: "sys_read env k f cap = (rv, bs, k') \<Longrightarrow> rv \<noteq> Eintr \<Longrightarrow> read_retry env k f cap = ret (rv, bs, k')"
  by (subst read_retry.simps) simp

lemma state_req_eagain:
  assumes "rbuf_size c < BUF_SIZE" "sys_read env k (fd c) (BUF_SIZE - rbuf_size c) = (Eagain, bs, k')"
  shows "state_req env s k c = ret (s, k', c)"
  using assms(1) read_retry_now [OF assms(2)] by (subst state_req.simps) (simp add: try_fill_buffer_def)

end
