(* ===== verification/Event_Loop_Spec.thy ===== *)
theory Event_Loop_Spec
  imports Event_Loop Connection_Spec
begin

text \<open>
  Invariants of the event loop. The connection table, the idle list and the allocated connections always
  describe the same set of connections; the idle list is ordered by the time of the last activity, so
  that the timers may stop at its first member that is not due; and every ready connection makes the
  progress that \<open>Connection_Spec\<close> shows for it.
\<close>

section \<open>The invariant\<close>

text \<open>Table, list and memory agree on the connections \<open>xs\<close>.\<close>

definition loop_wf :: "'k loop \<Rightarrow> addr list \<Rightarrow> bool" where
  "loop_wf st xs \<longleftrightarrow> dlist_at (dnodes st) (idle_list st) xs \<and> dom (conns st) = set xs \<and>
     (\<forall>p c. conns st p = Some c \<longrightarrow> fd c < length (fd2conn st) \<and> fd2conn st ! fd c = Some p) \<and>
     (\<forall>f p. f < length (fd2conn st) \<longrightarrow> fd2conn st ! f = Some p \<longrightarrow> (\<exists>c. conns st p = Some c \<and> fd c = f))"

definition conn_fine :: "Conn \<Rightarrow> bool" where
  "conn_fine c \<longleftrightarrow> conn_ok c \<and> not_full c \<and> state c \<noteq> STATE_END"

definition idle_of :: "'k loop \<Rightarrow> addr \<Rightarrow> u64" where
  "idle_of st p = idle_start (the (conns st p))"

definition aged :: "u64 \<Rightarrow> 'k loop \<Rightarrow> addr list \<Rightarrow> bool" where
  "aged t st xs \<longleftrightarrow> sorted_wrt (\<lambda>p q. idle_of st p \<le> idle_of st q) xs \<and> (\<forall>p \<in> set xs. idle_of st p \<le> t)"

definition loop_ok :: "u64 \<Rightarrow> 'k loop \<Rightarrow> addr list \<Rightarrow> keyspace \<Rightarrow> bool" where
  "loop_ok t st xs M \<longleftrightarrow> server_at (srv st) M \<and> loop_wf st xs \<and> (\<forall>p c. conns st p = Some c \<longrightarrow> conn_fine c) \<and> aged t st xs"

lemma dlist_at_cong:
  assumes "dlist_at h s xs" "\<And>x. x \<in> insert s (set xs) \<Longrightarrow> h' x = h x"
  shows "dlist_at h' s xs"
proof -
  have "lnk h' e" if "e \<in> set (adj (s # xs @ [s]))" for e
  proof -
    have "fst e \<in> insert s (set xs)" "snd e \<in> insert s (set xs)"
      using adj_in [of "fst e" "snd e" "s # xs @ [s]"] that by auto
    then show ?thesis using assms(1) that assms(2) by (simp add: dlist_at_def lnk_def nx_def pv_def)
  qed
  then show ?thesis using assms(1) by (simp add: dlist_at_def)
qed

lemma wf_distinct: "loop_wf st xs \<Longrightarrow> distinct (idle_list st # xs)"
  by (simp add: loop_wf_def dlist_at_def)

lemma wf_mem: "loop_wf st xs \<Longrightarrow> p \<in> set xs \<longleftrightarrow> (\<exists>c. conns st p = Some c)"
  by (auto simp: loop_wf_def)

lemma wf_fd_inj: "loop_wf st xs \<Longrightarrow> conns st p = Some c \<Longrightarrow> conns st q = Some d \<Longrightarrow> fd c = fd d \<Longrightarrow> p = q"
  unfolding loop_wf_def by (metis option.inject)

text \<open>The connections and the kernel: descriptors of connections are open, and what the kernel does elsewhere leaves their streams alone.\<close>

definition fds_open :: "('k \<Rightarrow> nat set) \<Rightarrow> 'k loop \<Rightarrow> bool" where
  "fds_open opened st \<longleftrightarrow> (\<forall>p c. conns st p = Some c \<longrightarrow> fd c \<in> opened (kern st))"

definition carried ::
  "('k \<Rightarrow> nat \<Rightarrow> bytes) \<Rightarrow> ('k \<Rightarrow> nat \<Rightarrow> bytes) \<Rightarrow> ('k \<Rightarrow> nat) \<Rightarrow> ('k \<Rightarrow> nat set) \<Rightarrow> 'k loop \<Rightarrow> 'k loop \<Rightarrow> bool" where
  "carried sent pending clk opened st st' \<longleftrightarrow> clk (kern st) \<le> clk (kern st') \<and> fds_open opened st' \<and>
     (\<forall>p c. conns st' p = Some c \<longrightarrow> conns st p = Some c \<and>
        sent (kern st') (fd c) = sent (kern st) (fd c) \<and> pending (kern st') (fd c) = pending (kern st) (fd c))"

lemma carried_trans:
  "carried sent pending clk opened st st1 \<Longrightarrow> carried sent pending clk opened st1 st2 \<Longrightarrow> carried sent pending clk opened st st2"
  unfolding carried_def by auto

lemma carried_calm:
  "fds_open opened st \<Longrightarrow> calm sent pending clk opened (kern st) k \<Longrightarrow> carried sent pending clk opened st (st\<lparr>kern := k\<rparr>)"
  unfolding carried_def fds_open_def using calmD by (auto dest: calmD)

text \<open>No descriptor is lost: none becomes open without belonging to a connection.\<close>

definition conn_fds :: "'k loop \<Rightarrow> nat set" where
  "conn_fds st = {fd c | p c. conns st p = Some c}"

lemma conn_fdsI: "conns st p = Some c \<Longrightarrow> fd c \<in> conn_fds st"
  by (auto simp: conn_fds_def)

definition tidy :: "('k \<Rightarrow> nat set) \<Rightarrow> 'k loop \<Rightarrow> 'k loop \<Rightarrow> bool" where
  "tidy opened st st' \<longleftrightarrow> opened (kern st') - conn_fds st' \<subseteq> opened (kern st) - conn_fds st"

lemma tidy_same: "conns st' = conns st \<Longrightarrow> opened (kern st') = opened (kern st) \<Longrightarrow> tidy opened st st'"
  by (simp add: tidy_def conn_fds_def)

lemma tidy_trans: "tidy opened st st1 \<Longrightarrow> tidy opened st1 st2 \<Longrightarrow> tidy opened st st2"
  unfolding tidy_def by blast

lemma tidy_upd:
  assumes st': "conns st' = (conns st)(p := x)" and op: "opened (kern st') \<subseteq> opened (kern st) \<union> fd ` set_option x"
    and old: "\<forall>c. conns st p = Some c \<longrightarrow> (case x of None \<Rightarrow> fd c \<notin> opened (kern st') | Some c' \<Rightarrow> fd c' = fd c)"
  shows "tidy opened st st'"
  unfolding tidy_def
proof
  fix g assume g: "g \<in> opened (kern st') - conn_fds st'"
  then have "g \<notin> fd ` set_option x" using st' conn_fdsI [of st' p] by (cases x) auto
  moreover have "fd b \<noteq> g" if "conns st q = Some b" for q b
  proof (cases "q = p")
    case True
    then show ?thesis using that old g st' conn_fdsI [of st' p] by (cases x) auto
  next
    case False
    then have "conns st' q = Some b" using that st' by simp
    then show ?thesis using g conn_fdsI by fastforce
  qed
  ultimately show "g \<in> opened (kern st) - conn_fds st" using g op by (auto simp: conn_fds_def)
qed

section \<open>Closing a connection\<close>

lemma conn_done_ok:
  assumes wf: "loop_wf st xs" and p: "p \<in> set xs"
  obtains st' c where "conn_done os st p = ret st'" "loop_wf st' (remove1 p xs)" "conns st' = (conns st)(p := None)"
    "srv st' = srv st" "idle_list st' = idle_list st" "conns st p = Some c" "kern st' = sys_close os (kern st) (int (fd c))"
proof -
  obtain c where c: "conns st p = Some c" using wf_mem [OF wf] p by blast
  have f: "fd c < length (fd2conn st)" "fd2conn st ! fd c = Some p" using wf c by (auto simp: loop_wf_def)
  have at: "dlist_at (dnodes st) (idle_list st) xs" using wf by (simp add: loop_wf_def)
  obtain ds where d: "dlist_detach (dnodes st) (Some p) = ret ds" "dlist_at ds (idle_list st) (remove1 p xs)"
    using dlist_detach_at [OF at p] by blast
  let ?st = "st\<lparr>fd2conn := (fd2conn st)[fd c := None], conns := (conns st)(p := None), dnodes := ds(p := None),
    kern := sys_close os (kern st) (int (fd c))\<rparr>"
  have dist: "distinct (idle_list st # xs)" using wf_distinct [OF wf] .
  have "dlist_at (ds(p := None)) (idle_list st) (remove1 p xs)"
    by (rule dlist_at_cong [OF d(2)]) (use dist p in auto)
  moreover have "dom ((conns st)(p := None)) = set (remove1 p xs)" using wf dist by (simp add: loop_wf_def set_remove1_eq)
  moreover have "\<forall>q c'. conns st q = Some c' \<longrightarrow> q \<noteq> p \<longrightarrow> fd c \<noteq> fd c'" using wf_fd_inj [OF wf c] by metis
  ultimately have "loop_wf ?st (remove1 p xs)" using wf c unfolding loop_wf_def
    by (auto simp: nth_list_update split: if_splits)
  moreover have "conn_done os st p = ret ?st" using c f d(1) by (simp add: conn_done_def fd_set_def Let_def)
  ultimately show thesis using that c by simp
qed

lemma close_carried:
  assumes os: "os_ok os sent pending clk opened" and wf: "loop_wf st xs" and fds: "fds_open opened st" and c: "conns st p = Some c"
    and st': "conns st' = (conns st)(p := None)" "kern st' = sys_close os (kern st) (int (fd c))"
  shows "carried sent pending clk opened st st'"
proof -
  have k: "opened (kern st') = opened (kern st) - {fd c}" "clk (kern st) \<le> clk (kern st')"
    "same_streams sent pending (opened (kern st) - {fd c}) (kern st) (kern st')"
    using os_okD(4) [OF os st'(2) [symmetric]] by simp_all
  have "conns st q = Some d \<and> fd d \<in> opened (kern st) - {fd c}" if "conns st' q = Some d" for q d
    using that st'(1) fds wf_fd_inj [OF wf c, of q d] unfolding fds_open_def by (auto split: if_splits)
  then show ?thesis using k unfolding carried_def fds_open_def same_streams_def by metis
qed

lemma close_tidy:
  assumes os: "os_ok os sent pending clk opened" and c: "conns st p = Some c"
    and st': "conns st' = (conns st)(p := None)" "kern st' = sys_close os (kern st) (int (fd c))"
  shows "tidy opened st st'"
proof -
  have "opened (kern st') = opened (kern st) - {fd c}" using os_okD(4) [OF os st'(2) [symmetric]] by simp
  then show ?thesis using c by (intro tidy_upd [OF st'(1)]) auto
qed

lemma aged_remove: "aged t st xs \<Longrightarrow> conns st' = (conns st)(p := None) \<Longrightarrow> distinct xs \<Longrightarrow> aged t st' (remove1 p xs)"
proof -
  assume a: "aged t st xs" and c: "conns st' = (conns st)(p := None)" and d: "distinct xs"
  have "idle_of st' q = idle_of st q" if "q \<in> set (remove1 p xs)" for q using that c d by (auto simp: idle_of_def)
  moreover have "sorted_wrt (\<lambda>p q. idle_of st p \<le> idle_of st q) (remove1 p xs)"
    using a sorted_wrt_remove1' by (auto simp: aged_def)
  ultimately show ?thesis using a d unfolding aged_def
    by (auto intro: sorted_wrt_mono_rel [rotated])
qed

lemma loop_ok_done:
  assumes "loop_ok t st xs M" "p \<in> set xs"
  obtains st' c where "conn_done os st p = ret st'" "loop_ok t st' (remove1 p xs) M" "conns st' = (conns st)(p := None)"
    "srv st' = srv st" "idle_list st' = idle_list st" "conns st p = Some c" "kern st' = sys_close os (kern st) (int (fd c))"
proof -
  have wf: "loop_wf st xs" using assms(1) by (simp add: loop_ok_def)
  obtain st' c where s: "conn_done os st p = ret st'" "loop_wf st' (remove1 p xs)" "conns st' = (conns st)(p := None)"
    "srv st' = srv st" "idle_list st' = idle_list st" "conns st p = Some c" "kern st' = sys_close os (kern st) (int (fd c))"
    using conn_done_ok [OF wf assms(2)] .
  have "distinct xs" using wf_distinct [OF wf] by simp
  then have "aged t st' (remove1 p xs)" using aged_remove s(3) assms(1) by (auto simp: loop_ok_def)
  then have "loop_ok t st' (remove1 p xs) M" using assms(1) s(2,3,4) by (auto simp: loop_ok_def split: if_splits)
  then show thesis using that s by blast
qed

section \<open>A new connection\<close>

lemma conn_put_ok:
  "\<exists>tab'. conn_put tab f p = ret tab' \<and> length tab \<le> length tab' \<and> f < length tab' \<and> tab' ! f = Some p \<and>
    (\<forall>g < length tab'. g \<noteq> f \<longrightarrow> tab' ! g = (if g < length tab then tab ! g else None))"
proof -
  let ?t = "if length tab \<le> f then tab @ replicate (f + 1 - length tab) None else tab"
  have "f < length ?t" "length tab \<le> length ?t" by auto
  moreover have "(?t[f := Some p]) ! g = (if g < length tab then tab ! g else None)" if "g < length ?t" "g \<noteq> f" for g
    using that by (auto simp: nth_append)
  ultimately show ?thesis by (intro exI [of _ "?t[f := Some p]"]) (auto simp: conn_put_def fd_set_def Let_def)
qed

text \<open>The idle list with the node of a new connection at its end.\<close>

lemma linked_new:
  assumes wf: "loop_wf st xs" and fresh: "conns st a = None" "dnodes st a = None"
  obtains ds where "dlist_insert_before ((dnodes st)(a \<mapsto> node)) (Some (idle_list st)) (Some a) = ret ds"
    "dlist_at ds (idle_list st) (xs @ [a])" "a \<notin> set xs"
proof -
  have at: "dlist_at (dnodes st) (idle_list st) xs" using wf by (simp add: loop_wf_def)
  obtain y where "(idle_list st, y) \<in> set (adj (idle_list st # xs @ [idle_list st]))" by (cases xs) auto
  then have "lnk (dnodes st) (idle_list st, y)" using at by (simp add: dlist_at_def)
  then have "dnodes st (idle_list st) \<noteq> None" by (auto simp: lnk_def dest!: nx_pv_alloc(1))
  then have ax: "a \<notin> insert (idle_list st) (set xs)" using wf_mem [OF wf] fresh by auto
  have "dlist_at ((dnodes st)(a \<mapsto> node)) (idle_list st) xs" by (rule dlist_at_cong [OF at]) (use ax in auto)
  then show thesis
    using dlist_insert_at [of "(dnodes st)(a \<mapsto> node)" "idle_list st" xs "[]" a node] ax that by auto
qed

text \<open>The table with the new connection in it.\<close>

lemma tabled_new:
  assumes wf: "loop_wf st xs" and fresh: "conns st a = None" and f: "f < length (fd2conn st) \<longrightarrow> fd2conn st ! f = None"
    and tab: "conn_put (fd2conn st) f a = ret tab" and c: "fd c = f"
  shows "f < length tab" "tab ! f = Some a" "\<And>q b. conns st q = Some b \<Longrightarrow> fd b < length tab \<and> tab ! fd b = Some q"
    "\<And>g q. g < length tab \<Longrightarrow> tab ! g = Some q \<Longrightarrow> \<exists>b. ((conns st)(a \<mapsto> c)) q = Some b \<and> fd b = g"
proof -
  have t: "length (fd2conn st) \<le> length tab" "f < length tab" "tab ! f = Some a"
    "\<forall>g < length tab. g \<noteq> f \<longrightarrow> tab ! g = (if g < length (fd2conn st) then fd2conn st ! g else None)"
    using conn_put_ok [of "fd2conn st" f a] tab by auto
  then show "f < length tab" "tab ! f = Some a" by blast+
  show "fd b < length tab \<and> tab ! fd b = Some q" if "conns st q = Some b" for q b
  proof -
    have l: "fd b < length (fd2conn st)" "fd2conn st ! fd b = Some q" using wf that by (auto simp: loop_wf_def)
    then have "fd b \<noteq> f" "fd b < length tab" using f t(1) by auto
    then show ?thesis using t(4) l by simp
  qed
  show "\<exists>b. ((conns st)(a \<mapsto> c)) q = Some b \<and> fd b = g" if "g < length tab" "tab ! g = Some q" for g q
  proof (cases "g = f")
    case False
    then have "g < length (fd2conn st)" "fd2conn st ! g = Some q" using that t(4) by (auto split: if_splits)
    then show ?thesis using wf fresh unfolding loop_wf_def by (metis fun_upd_other option.distinct(1))
  qed (use that t(3) c in simp)
qed

lemma accept_ok:
  assumes ok: "loop_ok t st xs M" and t: "t \<le> now_us"
    and acc: "sys_accept os (kern st) lfd = (f, k1)" "0 \<le> f" "fd_set_nb os k1 f = ret k2"
    and mem: "conn_alloc os k2 (conns st) (dnodes st) = (Some a, raw, node)" "fresh_conn os"
    and clock: "get_monotonic_usec os k2 = (now_us, k3)" and free: "nat f < length (fd2conn st) \<longrightarrow> fd2conn st ! nat f = None"
  shows "\<exists>st'. accept_new_conn os lfd st = ret (0, st') \<and> loop_ok now_us st' (xs @ [a]) M \<and> kern st' = k3 \<and>
    conns st' = (conns st)(a \<mapsto> raw\<lparr>fd := nat f, state := STATE_REQ, rbuf_size := 0, wbuf_size := 0, wbuf_sent := 0, idle_start := now_us\<rparr>)"
proof -
  have wf: "loop_wf st xs" using ok by (simp add: loop_ok_def)
  have fresh: "conns st a = None" "dnodes st a = None" and raw: "length (rbuf raw) = BUF_SIZE" "length (wbuf raw) = BUF_SIZE"
    using mem unfolding fresh_conn_def by blast+
  obtain ds where d: "dlist_insert_before ((dnodes st)(a \<mapsto> node)) (Some (idle_list st)) (Some a) = ret ds"
    "dlist_at ds (idle_list st) (xs @ [a])" "a \<notin> set xs" using linked_new [OF wf fresh] .
  obtain tab where tab: "conn_put (fd2conn st) (nat f) a = ret tab" using conn_put_ok by blast
  let ?c = "raw\<lparr>fd := nat f, state := STATE_REQ, rbuf_size := 0, wbuf_size := 0, wbuf_sent := 0, idle_start := now_us\<rparr>"
  let ?st = "st\<lparr>fd2conn := tab, conns := (conns st)(a \<mapsto> ?c), dnodes := ds, kern := k3\<rparr>"
  have "fd ?c = nat f" by simp
  from tabled_new [OF wf fresh(1) free tab this] have "loop_wf ?st (xs @ [a])"
    using wf d(2) unfolding loop_wf_def by auto
  moreover have "conn_fine ?c" using raw by (simp add: conn_fine_def conn_ok_def not_full_def BUF_SIZE_def)
  moreover have "idle_of ?st q = idle_of st q" if "q \<in> set xs" for q using that d(3) by (auto simp: idle_of_def)
  then have "aged now_us ?st (xs @ [a])"
    using ok t unfolding loop_ok_def aged_def
    by (auto simp: sorted_wrt_append idle_of_def [of ?st a] intro: sorted_wrt_mono_rel [rotated])
  moreover have "accept_new_conn os lfd st = ret (0, ?st)"
    using acc mem(1) clock d(1) tab by (simp add: accept_new_conn_def Let_def)
  ultimately show ?thesis using ok unfolding loop_ok_def by auto
qed

section \<open>A ready connection\<close>

text \<open>A connection that ran, back in the loop: it is the most recent one, and its descriptor is unchanged.\<close>

lemma touched_wf:
  assumes ok: "loop_ok t st xs M" and t: "t \<le> now_us" and p: "conns st p = Some c"
    and c': "fd c' = fd c" "idle_start c' = now_us"
    and d: "dlist_at ds (idle_list st) (remove1 p xs @ [p])"
  shows "loop_wf (st\<lparr>srv := s, conns := (conns st)(p \<mapsto> c'), dnodes := ds, kern := k\<rparr>) (remove1 p xs @ [p])"
    "aged now_us (st\<lparr>srv := s, conns := (conns st)(p \<mapsto> c'), dnodes := ds, kern := k\<rparr>) (remove1 p xs @ [p])"
proof -
  let ?st = "st\<lparr>srv := s, conns := (conns st)(p \<mapsto> c'), dnodes := ds, kern := k\<rparr>"
  have wf: "loop_wf st xs" and ag: "aged t st xs" using ok by (simp_all add: loop_ok_def)
  have px: "p \<in> set xs" and dist: "distinct xs" using wf_mem [OF wf] p wf_distinct [OF wf] by auto
  then have set: "set (remove1 p xs @ [p]) = set xs" by auto
  have dom: "dom (conns st) = set xs" and fds: "\<And>q b. conns st q = Some b \<Longrightarrow> fd b < length (fd2conn st) \<and> fd2conn st ! fd b = Some q"
    and tab: "\<And>f q. f < length (fd2conn st) \<Longrightarrow> fd2conn st ! f = Some q \<Longrightarrow> \<exists>b. conns st q = Some b \<and> fd b = f"
    using wf unfolding loop_wf_def by blast+
  have "dom (conns ?st) = set (remove1 p xs @ [p])" using dom set px by auto
  moreover have "fd b < length (fd2conn st) \<and> fd2conn st ! fd b = Some q" if "conns ?st q = Some b" for q b
    using that fds [of q] fds [OF p] c'(1) by (cases "q = p") auto
  moreover have "\<exists>b. conns ?st q = Some b \<and> fd b = f" if "f < length (fd2conn st)" "fd2conn st ! f = Some q" for f q
    using tab [OF that] p c'(1) by (cases "q = p") auto
  ultimately show "loop_wf ?st (remove1 p xs @ [p])" using d unfolding loop_wf_def by simp
  have "idle_of ?st q = idle_of st q" if "q \<in> set (remove1 p xs)" for q using that dist by (auto simp: idle_of_def)
  moreover have "idle_of ?st p = now_us" using c'(2) by (simp add: idle_of_def)
  moreover have "sorted_wrt (\<lambda>p q. idle_of st p \<le> idle_of st q) (remove1 p xs)" "\<forall>q \<in> set (remove1 p xs). idle_of st q \<le> now_us"
    using ag sorted_wrt_remove1' t dist by (fastforce simp: aged_def)+
  ultimately show "aged now_us ?st (remove1 p xs @ [p])"
    unfolding aged_def by (auto simp: sorted_wrt_append intro: sorted_wrt_mono_rel [rotated])
qed

lemma loop_ok_fine: "loop_ok t st xs M \<Longrightarrow> conns st p = Some c \<Longrightarrow> conn_ok c \<and> not_full c \<and> state c \<noteq> STATE_END"
  by (auto simp: loop_ok_def conn_fine_def)

text \<open>The connection ended: it is removed again.\<close>

lemma ended_conn:
  assumes wf: "loop_wf st (ys @ [p])" "p \<notin> set ys" and ag: "aged t st (ys @ [p])" and s: "server_at (srv st) M"
    and fine: "\<forall>q c. conns st q = Some c \<longrightarrow> q \<noteq> p \<longrightarrow> conn_fine c"
  obtains st' c where "conn_done os st p = ret st'" "loop_ok t st' ys M" "conns st' = (conns st)(p := None)"
    "conns st p = Some c" "kern st' = sys_close os (kern st) (int (fd c))"
proof -
  have "p \<in> set (ys @ [p])" by simp
  from conn_done_ok [OF wf(1) this] obtain st' c where st': "conn_done os st p = ret st'" "loop_wf st' (remove1 p (ys @ [p]))"
    "conns st' = (conns st)(p := None)" "srv st' = srv st" "idle_list st' = idle_list st" "conns st p = Some c"
    "kern st' = sys_close os (kern st) (int (fd c))" .
  have rm: "remove1 p (ys @ [p]) = ys" using wf(2) by (simp add: remove1_append)
  have "distinct (ys @ [p])" using wf_distinct [OF wf(1)] by simp
  then have "aged t st' ys" using aged_remove [OF ag st'(3)] rm by simp
  then have "loop_ok t st' ys M" using st'(2,3,4) rm s fine by (auto simp: loop_ok_def split: if_splits)
  then show thesis using that st' by blast
qed

lemma connection_io_ok:
  assumes net: "net_ok (net os) sent pending intr" and fresh: "fresh_alloc (net os)" and ok: "loop_ok t st xs M"
    and clock: "get_monotonic_usec os (kern st) = (now_us, k0)" and c: "conns st p = Some c"
    and room: "stays_roomy M (in_stream pending k0 c)"
  obtains ds s' k' c' M' where "connection_io os (dnodes st) (idle_list st) (srv st) (kern st) p c = ret (ds, s', k', c')"
    "conn_step (net os) (srv st) k0 (c\<lparr>idle_start := now_us\<rparr>) = ret (s', k', c')" "conn_ok c'" "not_full c'" "server_at s' M'"
    "advanced sent pending M k0 (c\<lparr>idle_start := now_us\<rparr>) M' k' c'" "dlist_at ds (idle_list st) (remove1 p xs @ [p])"
proof -
  let ?c = "c\<lparr>idle_start := now_us\<rparr>"
  have wf: "loop_wf st xs" and at: "server_at (srv st) M" using ok by (simp_all add: loop_ok_def)
  have px: "p \<in> set xs" using wf_mem [OF wf] c by blast
  have "dlist_at (dnodes st) (idle_list st) xs" using wf by (simp add: loop_wf_def)
  from idle_list.touch_moves_to_end [OF this px] obtain ds where
    d: "bindE (dlist_detach (dnodes st) (Some p)) (\<lambda>h. dlist_insert_before h (Some (idle_list st)) (Some p)) = ret ds"
      "dlist_at ds (idle_list st) (remove1 p xs @ [p])" by blast
  have fine: "conn_ok ?c" "not_full ?c" "state ?c \<noteq> STATE_END"
    using loop_ok_fine [OF ok c] by (simp_all add: conn_ok_def not_full_def split: conn_state.splits)
  have "stays_roomy M (in_stream pending k0 ?c)" using room by (simp add: in_stream_def received_def)
  from conn_step_ok [OF net fresh at fine this] obtain s' k' c' M' where
    r: "conn_step (net os) (srv st) k0 ?c = ret (s', k', c')" "conn_ok c'" "not_full c'" "server_at s' M'"
      "advanced sent pending M k0 ?c M' k' c'" by blast
  have "connection_io os (dnodes st) (idle_list st) (srv st) (kern st) p c = ret (ds, s', k', c')"
    using d(1) r(1) clock by (auto simp: connection_io_def Let_def bindE_eq_ret_iff)
  then show thesis using that r d(2) by blast
qed

lemma io_step_ok:
  assumes net: "net_ok (net os) sent pending intr" and fresh: "fresh_alloc (net os)" and ok: "loop_ok t st xs M"
    and clock: "get_monotonic_usec os (kern st) = (now_us, k0)" and t: "t \<le> now_us"
    and f: "f < length (fd2conn st)" "fd2conn st ! f = Some p" "conns st p = Some c" and room: "stays_roomy M (in_stream pending k0 c)"
  obtains st' xs' M' s' k' c' where "io_step os f st = ret st'" "loop_ok now_us st' xs' M'"
    "conn_step (net os) (srv st) k0 (c\<lparr>idle_start := now_us\<rparr>) = ret (s', k', c')"
    "advanced sent pending M k0 (c\<lparr>idle_start := now_us\<rparr>) M' k' c'"
    "conns st' = (conns st)(p := if state c' = STATE_END then None else Some c')"
    "kern st' = (if state c' = STATE_END then sys_close os k' (int (fd c)) else k')"
proof -
  obtain ds s' k' c' M' where r: "connection_io os (dnodes st) (idle_list st) (srv st) (kern st) p c = ret (ds, s', k', c')"
    "conn_step (net os) (srv st) k0 (c\<lparr>idle_start := now_us\<rparr>) = ret (s', k', c')" "conn_ok c'" "not_full c'" "server_at s' M'"
    "advanced sent pending M k0 (c\<lparr>idle_start := now_us\<rparr>) M' k' c'" "dlist_at ds (idle_list st) (remove1 p xs @ [p])"
    using connection_io_ok [OF net fresh ok clock f(3) room] .
  have c': "fd c' = fd c" "idle_start c' = now_us" using r(6) by (simp_all add: advanced_def)
  let ?st = "st\<lparr>srv := s', conns := (conns st)(p \<mapsto> c'), dnodes := ds, kern := k'\<rparr>"
  have run: "io_step os f st = (if state c' = STATE_END then conn_done os ?st p else ret ?st)"
    using f r(1) by (simp add: io_step_def fd_get_def Let_def)
  note wf' = touched_wf [OF ok t f(3) c' r(7), where s = s' and k = k']
  have fine: "\<forall>q b. conns ?st q = Some b \<longrightarrow> q \<noteq> p \<longrightarrow> conn_fine b" using ok by (simp add: loop_ok_def)
  show thesis
  proof (cases "state c' = STATE_END")
    case False
    then have "loop_ok now_us ?st (remove1 p xs @ [p]) M'"
      using ok wf' r(3,4,5) by (auto simp: loop_ok_def conn_fine_def split: if_splits)
    then show thesis
      by (intro that [of ?st "remove1 p xs @ [p]" M' s' k' c']) (use False run r(2,6) in simp_all)
  next
    case True
    have np: "p \<notin> set (remove1 p xs)" using wf_distinct [OF wf'(1)] by simp
    have "server_at (srv ?st) M'" using r(5) by simp
    from ended_conn [where os = os, OF wf'(1) np wf'(2) this fine] obtain st' d where
      s: "conn_done os ?st p = ret st'" "loop_ok now_us st' (remove1 p xs) M'" "conns st' = (conns ?st)(p := None)"
        "conns ?st p = Some d" "kern st' = sys_close os (kern ?st) (int (fd d))" .
    then show thesis
      by (intro that [of st' "remove1 p xs" M' s' k' c']) (use True run r(2,6) c'(1) in simp_all)
  qed
qed

section \<open>Timers\<close>

lemma next_idle_ok:
  assumes wf: "loop_wf st (p # xs)"
  shows "\<exists>c. conns st p = Some c \<and> next_idle st = ret (p, c)"
proof -
  have "lnk (dnodes st) (idle_list st, p)" using wf by (simp add: loop_wf_def dlist_at_def)
  then obtain n where "dnodes st (idle_list st) = Some n" "nxt n = Some p" by (auto simp: lnk_def dest!: nx_pv_alloc(1))
  moreover obtain c where "conns st p = Some c" using wf_mem [OF wf] by auto
  ultimately show ?thesis by (simp add: next_idle_def)
qed

lemma wf_empty: "loop_wf st xs \<Longrightarrow> dlist_is_empty (dnodes st) (Some (idle_list st)) = ret (xs = [])"
  by (simp add: loop_wf_def dlist_is_empty_iff)

text \<open>The time at which a connection is closed for inactivity; it does not wrap for the clocks of a running system.\<close>

definition idle_due :: "u64 \<Rightarrow> Conn \<Rightarrow> bool" where
  "idle_due now_us c \<longleftrightarrow> idle_start c + K_IDLE_TIMEOUT_MS * 1000 < now_us"

lemma idle_due_mono:
  assumes "a \<le> b" "b < 2 ^ 63"
  shows "a + K_IDLE_TIMEOUT_MS * 1000 \<le> b + (K_IDLE_TIMEOUT_MS * 1000 :: u64)"
proof -
  have ab: "unat a \<le> unat b" "unat b < 2 ^ 63" using assms by (simp_all add: word_le_nat_alt word_less_nat_alt)
  have k: "unat (K_IDLE_TIMEOUT_MS * 1000 :: u64) = 5000000" by (simp add: K_IDLE_TIMEOUT_MS_def)
  then have "unat (x + K_IDLE_TIMEOUT_MS * 1000) = unat x + 5000000" if "unat x < 2 ^ 63" for x :: u64
    using that by (subst unat_add_lem [THEN iffD1]) simp_all
  then show ?thesis using ab by (simp add: word_le_nat_alt)
qed

text \<open>The first connection of the idle list that is not due is followed by none that is.\<close>

lemma none_due:
  assumes ok: "loop_ok t st (p # xs) M" and t: "t < 2 ^ 63" and c: "conns st p = Some c" "\<not> idle_due now_us c" and b: "conns st q = Some b"
  shows "\<not> idle_due now_us b"
proof -
  have wf: "loop_wf st (p # xs)" and ag: "aged t st (p # xs)" using ok by (simp_all add: loop_ok_def)
  have q: "q \<in> set (p # xs)" using wf_mem [OF wf] b by blast
  have "idle_start c \<le> idle_start b" "idle_start b \<le> t"
    using ag q b c(1) unfolding aged_def idle_of_def by auto
  then have "idle_start c + K_IDLE_TIMEOUT_MS * 1000 \<le> idle_start b + K_IDLE_TIMEOUT_MS * 1000"
    using idle_due_mono t by (meson le_less_trans)
  then show ?thesis using c(2) unfolding idle_due_def by (meson le_less_trans)
qed

definition still_active :: "u64 \<Rightarrow> Conn store \<Rightarrow> Conn store" where
  "still_active now_us cs = (\<lambda>p. case cs p of Some c \<Rightarrow> if idle_due now_us c then None else Some c | None \<Rightarrow> None)"

lemma still_active_drop: "cs p = Some c \<Longrightarrow> idle_due now_us c \<Longrightarrow> still_active now_us (cs(p := None)) = still_active now_us cs"
  by (auto simp: still_active_def fun_eq_iff)

lemma still_active_id: "(\<And>p c. cs p = Some c \<Longrightarrow> \<not> idle_due now_us c) \<Longrightarrow> still_active now_us cs = cs"
  by (auto simp: still_active_def fun_eq_iff split: option.splits)

lemma idle_loop_ok:
  assumes os: "os_ok os sent pending clk opened" and t: "t < 2 ^ 63"
  shows "loop_ok t st xs M \<Longrightarrow> fds_open opened st \<Longrightarrow> \<exists>st' xs'. idle_loop os now_us st = ret st' \<and> loop_ok t st' xs' M \<and>
    conns st' = still_active now_us (conns st) \<and> srv st' = srv st \<and> carried sent pending clk opened st st' \<and> tidy opened st st'"
proof (induction xs arbitrary: st)
  case Nil
  then have wf: "loop_wf st []" by (simp add: loop_ok_def)
  have "idle_loop os now_us st = ret st" using wf_empty [OF wf] by (subst idle_loop.simps) simp
  moreover have "conns st = Map.empty" using wf by (simp add: loop_wf_def)
  ultimately show ?case using Nil by (auto simp: still_active_def carried_def tidy_same)
next
  case (Cons p xs)
  have wf: "loop_wf st (p # xs)" using Cons.prems by (simp add: loop_ok_def)
  obtain c where c: "conns st p = Some c" "next_idle st = ret (p, c)" using next_idle_ok [OF wf] by blast
  show ?case
  proof (cases "idle_due now_us c")
    case False
    then have "still_active now_us (conns st) = conns st" using none_due [OF Cons.prems(1) t c(1)] by (blast intro: still_active_id)
    moreover have "idle_loop os now_us st = ret st"
      using False c(2) wf_empty [OF wf] by (subst idle_loop.simps) (simp add: idle_due_def not_less)
    ultimately show ?thesis using Cons.prems by (auto simp: carried_def tidy_same)
  next
    case True
    have "p \<in> set (p # xs)" by simp
    from loop_ok_done [OF Cons.prems(1) this] obtain st1 d where s: "conn_done os st p = ret st1" "loop_ok t st1 (remove1 p (p # xs)) M"
      "conns st1 = (conns st)(p := None)" "srv st1 = srv st" "conns st p = Some d" "kern st1 = sys_close os (kern st) (int (fd d))" .
    have car: "carried sent pending clk opened st st1" using close_carried [OF os wf Cons.prems(2) s(5,3,6)] .
    have td: "tidy opened st st1" using close_tidy [OF os s(5,3,6)] .
    have "\<not> now_us \<le> idle_start c + K_IDLE_TIMEOUT_MS * 1000" using True by (simp add: idle_due_def not_le)
    then have run: "idle_loop os now_us st = idle_loop os now_us st1"
      using c(2) wf_empty [OF wf] s(1) by (subst idle_loop.simps) simp
    have "loop_ok t st1 xs M" "fds_open opened st1" using s(2) car by (simp_all add: carried_def)
    from Cons.IH [OF this] show ?thesis
      using run s(3,4) still_active_drop [of "conns st" p c, OF c(1) True] carried_trans [OF car] tidy_trans [OF td] by metis
  qed
qed

lemma server_at_keys: "server_at s M \<Longrightarrow> card (dom M) < 32"
  unfolding server_at_def using card_keys server_okD(1) by (auto simp: hm_small_def)

lemma process_timers_ok:
  assumes os: "os_ok os sent pending clk opened" and ok: "loop_ok t st xs M" and t: "t < 2 ^ 63" and fds: "fds_open opened st"
    and clock: "get_monotonic_usec os (kern st) = (clock, k)"
  obtains st' xs' where "process_timers os st = ret st'" "loop_ok t st' xs' (expired (clock + 1000) M)"
    "conns st' = still_active (clock + 1000) (conns st)" "carried sent pending clk opened (st\<lparr>kern := k\<rparr>) st'" "tidy opened st st'"
proof -
  let ?st = "st\<lparr>kern := k\<rparr>"
  have calm: "calm sent pending clk opened (kern st) k" using get_monotonic_calm [OF os clock] by blast
  then have "loop_ok t ?st xs M" "fds_open opened ?st"
    using ok fds carried_calm [OF fds] by (simp_all add: loop_ok_def loop_wf_def aged_def idle_of_def carried_def)
  from idle_loop_ok [OF os t this] obtain st1 xs' where i: "idle_loop os (clock + 1000) ?st = ret st1" "loop_ok t st1 xs' M"
    "conns st1 = still_active (clock + 1000) (conns st)" "carried sent pending clk opened ?st st1"
    "tidy opened ?st st1" by force
  have "tidy opened st ?st" "tidy opened st1 (st1\<lparr>srv := s\<rparr>)" for s using calmD(1) [OF calm] by (simp_all add: tidy_same)
  then have td: "tidy opened st (st1\<lparr>srv := s\<rparr>)" for s using i(5) tidy_trans by blast
  have at: "server_at (srv st1) M" using i(2) by (simp add: loop_ok_def)
  have "0 + card (dom M) \<le> K_MAX_WORKS" using server_at_keys [OF at] by (simp add: K_MAX_WORKS_def)
  from expire_loop_ok [OF at this] obtain s where e: "expire_loop (clock + 1000) (srv st1) 0 = ret s" "server_at s (expired (clock + 1000) M)"
    by blast
  have "loop_ok t (st1\<lparr>srv := s\<rparr>) xs' (expired (clock + 1000) M)" "carried sent pending clk opened ?st (st1\<lparr>srv := s\<rparr>)"
    using i(2,4) e(2) by (simp_all add: loop_ok_def loop_wf_def aged_def idle_of_def carried_def fds_open_def)
  moreover have "process_timers os st = ret (st1\<lparr>srv := s\<rparr>)" using clock i(1) e(1) by (simp add: process_timers_def Let_def)
  ultimately show thesis using that [of "st1\<lparr>srv := s\<rparr>"] i(3) td by simp
qed

text \<open>The times at which something is due: connections that go idle, and deadlines of keys.\<close>

definition timers :: "'k loop \<Rightarrow> keyspace \<Rightarrow> u64 set" where
  "timers st M = {idle_start c + K_IDLE_TIMEOUT_MS * 1000 | p c. conns st p = Some c} \<union> {d. \<exists>k it. M k = Some it \<and> it_ttl it = Some d}"

lemma deadline_timers:
  assumes ok: "server_ok s N T" "represents s N T M"
  shows "(\<exists>k it. M k = Some it \<and> it_ttl it = Some d) \<longleftrightarrow> (\<exists>a. deadline (heap s) (heap_idx s) a = Some d)"
proof
  assume "\<exists>k it. M k = Some it \<and> it_ttl it = Some d"
  then obtain k it where it: "M k = Some it" "it_ttl it = Some d" by blast
  then obtain a where "it = item_of s T a" using ok(2) unfolding represents_def by (metis domI imageE option.inject)
  then show "\<exists>a. deadline (heap s) (heap_idx s) a = Some d" using it(2) by auto
next
  assume "\<exists>a. deadline (heap s) (heap_idx s) a = Some d"
  then obtain a where a: "deadline (heap s) (heap_idx s) a = Some d" by blast
  then have "a \<in> N" using refs_deadline [OF server_okD(5) [OF ok(1)]] server_okD(6) [OF ok(1)] by blast
  then have "M (ekey s a) = Some (item_of s T a)" using ok(2) by (simp add: represents_def)
  then show "\<exists>k it. M k = Some it \<and> it_ttl it = Some d" using a by fastforce
qed

text \<open>The two candidates for the next timer: the first connection of the idle list and the root of the heap.\<close>

definition first_idle :: "'k loop \<Rightarrow> addr list \<Rightarrow> u64" where
  "first_idle st xs = (case xs of [] \<Rightarrow> -1 | p # _ \<Rightarrow> idle_of st p + K_IDLE_TIMEOUT_MS * 1000)"

definition next_due :: "'k loop \<Rightarrow> addr list \<Rightarrow> u64" where
  "next_due st xs = (let hp = heap (srv st); i = first_idle st xs in if hp \<noteq> [] \<and> val (hp ! 0) < i then val (hp ! 0) else i)"

lemma first_idle_le:
  assumes ok: "loop_ok t st xs M" and t: "t < 2 ^ 63" and c: "conns st p = Some c"
  shows "first_idle st xs \<le> idle_start c + K_IDLE_TIMEOUT_MS * 1000"
proof -
  have wf: "loop_wf st xs" and ag: "aged t st xs" using ok by (simp_all add: loop_ok_def)
  have "p \<in> set xs" using wf_mem [OF wf] c by blast
  then obtain q ys where xs: "xs = q # ys" by (cases xs) auto
  have "idle_of st q \<le> idle_of st p" "idle_of st p \<le> t" using ag \<open>p \<in> set xs\<close> xs by (auto simp: aged_def)
  then show ?thesis
    using idle_due_mono [of "idle_of st q" "idle_of st p"] t c xs by (simp add: first_idle_def idle_of_def)
qed

lemma first_idle_in:
  assumes "loop_ok t st xs M"
  shows "first_idle st xs = -1 \<or> first_idle st xs \<in> timers st M"
proof (cases xs)
  case (Cons q ys)
  have "loop_wf st xs" using assms by (simp add: loop_ok_def)
  then obtain b where "conns st q = Some b" using wf_mem Cons by (metis list.set_intros(1))
  then show ?thesis using Cons by (auto simp: timers_def first_idle_def idle_of_def)
qed (simp add: first_idle_def)

lemma next_due_least:
  assumes ok: "loop_ok t st xs M" and t: "t < 2 ^ 63" and d: "d \<in> timers st M"
  shows "next_due st xs \<le> d"
proof (cases "\<exists>p c. conns st p = Some c \<and> d = idle_start c + K_IDLE_TIMEOUT_MS * 1000")
  case True
  then have "first_idle st xs \<le> d" using first_idle_le [OF ok t] by blast
  then show ?thesis by (auto simp: next_due_def Let_def)
next
  case False
  obtain N T where sok: "server_ok (srv st) N T" "represents (srv st) N T M" using ok unfolding loop_ok_def server_at_def by blast
  have inv: "ttl_inv (heap (srv st)) (heap_idx (srv st))" using server_okD(5) [OF sok(1)] .
  obtain a where a: "deadline (heap (srv st)) (heap_idx (srv st)) a = Some d"
    using False d deadline_timers [OF sok] by (auto simp: timers_def)
  then have "heap (srv st) \<noteq> []" using refs_deadline [OF inv, of a] by (auto simp: refs_def)
  then show ?thesis using earliest_deadline(2) [OF inv _ a] by (auto simp: next_due_def Let_def)
qed

lemma next_due_in:
  assumes ok: "loop_ok t st xs M"
  shows "next_due st xs = -1 \<or> next_due st xs \<in> timers st M"
proof (cases "heap (srv st) \<noteq> [] \<and> val (heap (srv st) ! 0) < first_idle st xs")
  case True
  obtain N T where sok: "server_ok (srv st) N T" "represents (srv st) N T M" using ok unfolding loop_ok_def server_at_def by blast
  have "\<exists>k it. M k = Some it \<and> it_ttl it = Some (next_due st xs)"
    using True earliest_deadline(1) [OF server_okD(5) [OF sok(1)]] deadline_timers [OF sok] by (simp add: next_due_def)
  then show ?thesis by (simp add: timers_def)
next
  case False
  then show ?thesis using first_idle_in [OF ok] by (auto simp: next_due_def Let_def)
qed

text \<open>The timeout as a function of the time and the next timer.\<close>

definition wait_ms :: "u64 \<Rightarrow> u64 \<Rightarrow> u32" where
  "wait_ms now_us n = (if n = -1 then 10000 else if n \<le> now_us then 0 else ucast ((n - now_us) div 1000))"

lemma next_timer_eq:
  assumes ok: "loop_ok t st xs M" and clock: "get_monotonic_usec os (kern st) = (now_us, k)"
  shows "next_timer_ms os st = ret (wait_ms now_us (next_due st xs), st\<lparr>kern := k\<rparr>)"
proof -
  let ?st = "st\<lparr>kern := k\<rparr>"
  have wf: "loop_wf ?st xs" using ok by (simp add: loop_ok_def loop_wf_def)
  have run: "bindE (if \<not> xs = [] then bindE (next_idle ?st) (\<lambda>(_, conn). ret (idle_start conn + K_IDLE_TIMEOUT_MS * 1000)) else ret (-1)) f
      = f (first_idle st xs)" for f :: "u64 \<Rightarrow> (u32 \<times> 'a loop) exec"
  proof (cases xs)
    case (Cons p ys)
    then obtain c where "conns ?st p = Some c" "next_idle ?st = ret (p, c)" using next_idle_ok wf by blast
    then show ?thesis using Cons by (simp add: first_idle_def idle_of_def)
  qed (simp add: first_idle_def)
  have due: "(if heap (srv ?st) \<noteq> [] \<and> val (heap (srv ?st) ! 0) < first_idle st xs then val (heap (srv ?st) ! 0) else first_idle st xs)
      = next_due st xs" by (simp add: next_due_def Let_def)
  show ?thesis unfolding next_timer_ms_def clock prod.case Let_def wf_empty [OF wf] bindE_ret run due
    by (simp add: wait_ms_def)
qed

lemma unat_minus_1_u64: "unat (-1 :: u64) = 2 ^ 64 - 1"
  by (simp add: unsigned_minus_1_eq_mask mask_eq_exp_minus_1)

lemma unat_wait_ms:
  assumes "now_us < n" "n \<noteq> -1"
  shows "unat (wait_ms now_us n) = (unat n - unat now_us) div 1000 mod 2 ^ 32"
proof -
  have "unat ((n - now_us) div 1000) = (unat n - unat now_us) div 1000" using assms by (simp add: unat_div unat_sub less_imp_le)
  then show ?thesis using assms by (simp only: wait_ms_def if_False not_le [symmetric] unsigned_ucast_eq take_bit_eq_mod) simp
qed

lemma wait_ms_le:
  assumes "now_us < 2 ^ 63"
  shows "unat now_us + 1000 * unat (wait_ms now_us n) \<le> max (unat now_us) (unat n)"
proof -
  consider "n = -1" | "n \<noteq> -1" "n \<le> now_us" | "n \<noteq> -1" "now_us < n" by force
  then show ?thesis
  proof cases
    case 1 then show ?thesis using assms by (simp add: wait_ms_def unat_minus_1_u64 word_less_nat_alt)
  next
    case 2 then show ?thesis by (simp add: wait_ms_def)
  next
    case 3
    have "1000 * ((unat n - unat now_us) div 1000 mod 2 ^ 32) \<le> unat n - unat now_us"
      by (meson mod_less_eq_dividend mult_le_mono2 order_trans times_div_less_eq_dividend)
    then show ?thesis using unat_wait_ms [OF 3(2,1)] 3(2) by (simp add: word_less_nat_alt) linarith
  qed
qed

lemma wait_ms_due:
  assumes now: "now_us < 2 ^ 63" and n: "unat n < unat now_us + 1000 * 2 ^ 32"
    and c: "unat now_us + 1000 * unat (wait_ms now_us n) \<le> unat clock" "clock < 2 ^ 63"
  shows "n \<noteq> -1" "n < clock + 1000"
proof -
  show nm: "n \<noteq> -1" using now n by (auto simp: unat_minus_1_u64 word_less_nat_alt)
  have cl: "unat (clock + 1000) = unat clock + 1000"
    using c(2) by (subst unat_add_lem [THEN iffD1]) (simp_all add: word_less_nat_alt)
  have "unat n < unat clock + 1000"
  proof (cases "n \<le> now_us")
    case True
    then show ?thesis using c(1) by (simp add: word_le_nat_alt)
  next
    case False
    then have "(unat n - unat now_us) div 1000 < 2 ^ 32" using n by (simp add: word_le_nat_alt)
    then have "unat (wait_ms now_us n) = (unat n - unat now_us) div 1000" using unat_wait_ms [OF _ nm, of now_us] False by simp
    then show ?thesis using c(1) False by (simp add: word_le_nat_alt)
  qed
  then show "n < clock + 1000" using cl by (simp add: word_less_nat_alt)
qed

text \<open>
  The timeout of \<open>poll\<close> ends no later than the earliest timer; and when it has passed, that timer is due
  for \<open>process_timers\<close>, which adds 1000 to the clock. Intervals up to \<open>2 ^ 32\<close> milliseconds are not truncated.
\<close>

lemma next_timer_sleep:
  assumes ok: "loop_ok t st xs M" and t: "t \<le> now_us" "now_us < 2 ^ 63" and clock: "get_monotonic_usec os (kern st) = (now_us, k)"
  shows "\<exists>r. next_timer_ms os st = ret (r, st\<lparr>kern := k\<rparr>) \<and>
    (\<forall>d \<in> timers st M. unat now_us + 1000 * unat r \<le> max (unat now_us) (unat d)) \<and>
    (\<forall>clock. (\<exists>d \<in> timers st M. unat d < unat now_us + 1000 * 2 ^ 32) \<longrightarrow> unat now_us + 1000 * unat r \<le> unat clock \<longrightarrow> clock < 2 ^ 63 \<longrightarrow>
       (\<exists>d \<in> timers st M. (\<forall>e \<in> timers st M. d \<le> e) \<and> d < clock + 1000))"
proof -
  let ?n = "next_due st xs"
  have least: "?n \<le> d" if "d \<in> timers st M" for d using next_due_least [OF ok le_less_trans [OF t] that] .
  have "unat now_us + 1000 * unat (wait_ms now_us ?n) \<le> max (unat now_us) (unat d)" if "d \<in> timers st M" for d
    using wait_ms_le [OF t(2), of ?n] least [OF that] by (simp add: word_le_nat_alt)
  moreover have "?n \<in> timers st M \<and> ?n < clock + 1000"
    if d: "d \<in> timers st M" "unat d < unat now_us + 1000 * 2 ^ 32"
      and c: "unat now_us + 1000 * unat (wait_ms now_us ?n) \<le> unat clock" "clock < 2 ^ 63" for d clock
  proof -
    have "unat ?n < unat now_us + 1000 * 2 ^ 32" using least [OF d(1)] d(2) by (simp add: word_le_nat_alt)
    from wait_ms_due [OF t(2) this c] show ?thesis using next_due_in [OF ok] by blast
  qed
  ultimately show ?thesis using next_timer_eq [OF ok clock] least by blast
qed

end
