(* ===== verification/History.thy ===== *)
theory History
  imports Event_Loop_Spec
begin

text \<open>
  What the event loop did, as seen from outside: the requests that it served, in order, with the
  descriptor they came from and the value of the response, and the expiry of keys. \<open>replays\<close> is the
  sequential meaning of such a history on the key space; \<open>follows\<close> ties it to the byte streams of the
  connections.
\<close>

section \<open>Histories\<close>

datatype event = Served nat "bytes list" val | Expired u64

inductive replays :: "keyspace \<Rightarrow> event list \<Rightarrow> keyspace \<Rightarrow> bool" where
  Nil: "replays M [] M"
| Served: "serves M cmd v M1 \<Longrightarrow> replays M1 H M2 \<Longrightarrow> replays M (Served f cmd v # H) M2"
| Expired: "replays (expired t M) H M2 \<Longrightarrow> replays M (Expired t # H) M2"

inductive_simps replays_Nil [simp]: "replays M [] M'"

text \<open>The requests on a descriptor, the responses on it, and the descriptors that occur.\<close>

fun reqs_of :: "nat \<Rightarrow> event list \<Rightarrow> bytes" where
  "reqs_of f [] = []"
| "reqs_of f (Served g cmd v # H) = (if g = f then req_image cmd else []) @ reqs_of f H"
| "reqs_of f (Expired t # H) = reqs_of f H"

fun reps_of :: "nat \<Rightarrow> event list \<Rightarrow> bytes" where
  "reps_of f [] = []"
| "reps_of f (Served g cmd v # H) = (if g = f then res_image (reply v) else []) @ reps_of f H"
| "reps_of f (Expired t # H) = reps_of f H"

fun fds_of :: "event list \<Rightarrow> nat set" where
  "fds_of [] = {}"
| "fds_of (Served g cmd v # H) = insert g (fds_of H)"
| "fds_of (Expired t # H) = fds_of H"

lemma history_append [simp]:
  "reqs_of f (H @ H') = reqs_of f H @ reqs_of f H'" "reps_of f (H @ H') = reps_of f H @ reps_of f H'"
  "fds_of (H @ H') = fds_of H \<union> fds_of H'"
  by (induction H rule: fds_of.induct) simp_all

lemma history_absent: "f \<notin> fds_of H \<Longrightarrow> reqs_of f H = [] \<and> reps_of f H = []"
  by (induction H rule: fds_of.induct) simp_all

lemma replays_append: "replays M H M1 \<Longrightarrow> replays M1 H' M2 \<Longrightarrow> replays M (H @ H') M2"
  by (induction rule: replays.induct) (auto intro: replays.intros)

lemma serves_all_history:
  "serves_all M cmds out M' \<Longrightarrow> \<exists>H. replays M H M' \<and> fds_of H \<subseteq> {f} \<and> reqs_of f H = concat (map req_image cmds) \<and> reps_of f H = out"
proof (induction rule: serves_all.induct)
  case (Nil M)
  then show ?case by (intro exI [of _ "[]"]) simp
next
  case (Cons M cmd v M1 cmds out M2)
  then obtain H where "replays M1 H M2" "fds_of H \<subseteq> {f}" "reqs_of f H = concat (map req_image cmds)" "reps_of f H = out" by blast
  then show ?case using replays.Served [OF Cons.hyps(1)] by (intro exI [of _ "Served f cmd v # H"]) simp
qed

section \<open>Histories and streams\<close>

text \<open>
  No connection appears; the history is about connections of the first state; one that survives has had
  exactly its requests of the history taken from its input and their responses put to its output; and
  the requests of one that does not were the front of its input.
\<close>

definition follows ::
  "('k \<Rightarrow> nat \<Rightarrow> bytes) \<Rightarrow> ('k \<Rightarrow> nat \<Rightarrow> bytes) \<Rightarrow> 'k loop \<Rightarrow> event list \<Rightarrow> 'k loop \<Rightarrow> bool" where
  "follows sent pending st H st' \<longleftrightarrow> dom (conns st') \<subseteq> dom (conns st) \<and> fds_of H \<subseteq> conn_fds st \<and>
     (\<forall>p c c'. conns st p = Some c \<longrightarrow> conns st' p = Some c' \<longrightarrow> fd c' = fd c \<and>
        in_stream pending (kern st) c = reqs_of (fd c) H @ in_stream pending (kern st') c' \<and>
        out_stream sent (kern st') c' = out_stream sent (kern st) c @ reps_of (fd c) H) \<and>
     (\<forall>p c. conns st p = Some c \<longrightarrow> (\<exists>rest. in_stream pending (kern st) c = reqs_of (fd c) H @ rest))"

definition distinct_fds :: "'k loop \<Rightarrow> bool" where
  "distinct_fds st \<longleftrightarrow> (\<forall>p q c d. conns st p = Some c \<longrightarrow> conns st q = Some d \<longrightarrow> fd c = fd d \<longrightarrow> p = q)"

lemma wf_distinct_fds: "loop_wf st xs \<Longrightarrow> distinct_fds st"
  using wf_fd_inj unfolding distinct_fds_def by blast

lemma follows_survivor:
  assumes "follows sent pending st H st'" "conns st p = Some c" "conns st' p = Some c'"
  shows "fd c' = fd c" "in_stream pending (kern st) c = reqs_of (fd c) H @ in_stream pending (kern st') c'"
    "out_stream sent (kern st') c' = out_stream sent (kern st) c @ reps_of (fd c) H"
  using assms unfolding follows_def by blast+

lemma follows_closed:
  assumes f: "follows sent pending st H st'" and d: "distinct_fds st" and p: "conns st p = Some c" "conns st' p = None"
  shows "fd c \<notin> conn_fds st'"
proof
  assume "fd c \<in> conn_fds st'"
  then obtain q d where q: "conns st' q = Some d" "fd d = fd c" unfolding conn_fds_def by auto
  then obtain e where e: "conns st q = Some e" using f unfolding follows_def by blast
  then have "fd e = fd c" using follows_survivor(1) [OF f e q(1)] q(2) by simp
  then have "q = p" using d e p(1) unfolding distinct_fds_def by blast
  then show False using q(1) p(2) by simp
qed

lemma follows_fds:
  assumes "follows sent pending st H st'"
  shows "conn_fds st' \<subseteq> conn_fds st"
proof
  fix f assume "f \<in> conn_fds st'"
  then obtain p c' where c': "conns st' p = Some c'" "f = fd c'" unfolding conn_fds_def by blast
  then obtain c where c: "conns st p = Some c" using assms unfolding follows_def by blast
  then show "f \<in> conn_fds st" using follows_survivor(1) [OF assms c c'(1)] conn_fdsI [of st p c] c'(2) by simp
qed

lemma follows_trans:
  assumes 1: "follows sent pending st H st1" and 2: "follows sent pending st1 H' st2" and d: "distinct_fds st"
  shows "follows sent pending st (H @ H') st2"
  unfolding follows_def
proof (intro conjI allI impI)
  show "dom (conns st2) \<subseteq> dom (conns st)" using 1 2 unfolding follows_def by blast
  show "fds_of (H @ H') \<subseteq> conn_fds st" using 1 2 follows_fds [OF 1] unfolding follows_def by auto
  fix p c assume c: "conns st p = Some c"
  show "\<exists>rest. in_stream pending (kern st) c = reqs_of (fd c) (H @ H') @ rest"
  proof (cases "conns st1 p")
    case None
    then have "fd c \<notin> fds_of H'" using follows_closed [OF 1 d c] 2 unfolding follows_def by blast
    then show ?thesis using 1 c history_absent unfolding follows_def by auto
  next
    case (Some c1)
    then obtain rest where "in_stream pending (kern st1) c1 = reqs_of (fd c1) H' @ rest" using 2 unfolding follows_def by blast
    then show ?thesis using follows_survivor [OF 1 c Some] by simp
  qed
  fix c2 assume c2: "conns st2 p = Some c2"
  then obtain c1 where c1: "conns st1 p = Some c1" using 2 unfolding follows_def by blast
  note a = follows_survivor [OF 1 c c1] and b = follows_survivor [OF 2 c1 c2]
  show "fd c2 = fd c" "in_stream pending (kern st) c = reqs_of (fd c) (H @ H') @ in_stream pending (kern st2) c2"
    "out_stream sent (kern st2) c2 = out_stream sent (kern st) c @ reps_of (fd c) (H @ H')"
    using a b by simp_all
qed

lemma carried_follows: "carried sent pending clk opened st st' \<Longrightarrow> fds_of H = {} \<Longrightarrow> follows sent pending st H st'"
  using history_absent [of _ H] unfolding carried_def follows_def by (auto simp: in_stream_def out_stream_def)

end
