(* ===== verification/Event_Loop_Reach.thy ===== *)
theory Event_Loop_Reach
  imports History
begin

text \<open>
  The event loop over its whole run. The hash map supports fewer than 32 nodes, so the result is about
  clients that keep to a vocabulary of at most 30 keys and 30 member names: from the initial state, and
  whatever the kernel delivers and the clients ask for in that vocabulary, every iteration of the loop
  returns, unless a failed system call makes the process abort, and the invariant of \<open>Event_Loop_Spec\<close>
  holds after it.
\<close>

section \<open>A vocabulary\<close>

definition allowed :: "bytes set \<Rightarrow> bytes set \<Rightarrow> bytes list \<Rightarrow> bool" where
  "allowed ks ns cmd \<longleftrightarrow> (\<forall>c k v. cmd = [c, k, v] \<longrightarrow> cmd_is c ''set'' \<longrightarrow> k \<in> ks) \<and>
     (\<forall>c k sc nm. cmd = [c, k, sc, nm] \<longrightarrow> cmd_is c ''zadd'' \<longrightarrow> k \<in> ks \<and> nm \<in> ns)"

definition vocab :: "bytes set \<Rightarrow> bytes set \<Rightarrow> bytes \<Rightarrow> bool" where
  "vocab ks ns bs \<longleftrightarrow> (\<forall>cmds rest. bs = concat (map req_image cmds) @ rest \<longrightarrow> (\<forall>cmd \<in> set cmds. allowed ks ns cmd))"

definition in_vocab :: "bytes set \<Rightarrow> bytes set \<Rightarrow> keyspace \<Rightarrow> bool" where
  "in_vocab ks ns M \<longleftrightarrow> dom M \<subseteq> ks \<and> (\<forall>k it Z. M k = Some it \<longrightarrow> it_set it = Some Z \<longrightarrow> dom Z \<subseteq> ns)"

definition small_vocab :: "bytes set \<Rightarrow> bytes set \<Rightarrow> bool" where
  "small_vocab ks ns \<longleftrightarrow> finite ks \<and> finite ns \<and> card ks \<le> 30 \<and> card ns \<le> 30"

lemma within_roomy:
  assumes "small_vocab ks ns" "in_vocab ks ns M"
  shows "roomy M"
proof -
  have "card (dom M) \<le> 30" using assms card_mono [of ks "dom M"] by (simp add: small_vocab_def in_vocab_def)
  moreover have "card (dom Z) \<le> 30" if "M k = Some it" "it_set it = Some Z" for k it Z
  proof -
    have "dom Z \<subseteq> ns" using assms(2) that unfolding in_vocab_def by blast
    then show ?thesis using assms(1) card_mono [of ns "dom Z"] by (simp add: small_vocab_def)
  qed
  ultimately show ?thesis unfolding roomy_def by fastforce
qed

lemma within_upd:
  "in_vocab ks ns M \<Longrightarrow> k \<in> ks \<Longrightarrow> (\<And>Z. it_set it = Some Z \<Longrightarrow> dom Z \<subseteq> ns) \<Longrightarrow> in_vocab ks ns (M(k \<mapsto> it))"
  unfolding in_vocab_def by (auto split: if_splits)

lemma within_item: "in_vocab ks ns M \<Longrightarrow> M k = Some it \<Longrightarrow> k \<in> ks \<and> (\<forall>Z. it_set it = Some Z \<longrightarrow> dom Z \<subseteq> ns)"
  unfolding in_vocab_def by blast

lemma within_zadd:
  assumes "in_vocab ks ns M" "k \<in> ks" "nm \<in> ns"
  shows "in_vocab ks ns (snd (zadd_spec M k sc nm))"
proof -
  obtain ok d where sc: "str2double sc = (ok, d)" by (cases "str2double sc")
  show ?thesis
  proof (cases "it_set (zadd_base (M k))")
    case None
    then show ?thesis using assms(1) sc by (simp add: zadd_spec_def Let_def)
  next
    case (Some Z)
    have "dom Z \<subseteq> ns" using Some within_item [OF assms(1), of k] by (cases "M k") (auto simp: zadd_base_def)
    then have "dom (Z(nm \<mapsto> x)) \<subseteq> ns" for x using assms(3) by auto
    then have "in_vocab ks ns (M(k \<mapsto> zadd_base (M k)\<lparr>it_set := Some (Z(nm \<mapsto> x))\<rparr>))" for x
      by (intro within_upd assms) (metis option.inject item.select_convs(2) item.surjective item.update_convs(2))
    then show ?thesis using assms(1) Some sc by (cases ok) (simp_all add: zadd_spec_def Let_def)
  qed
qed

lemma within_zrem: "in_vocab ks ns M \<Longrightarrow> in_vocab ks ns (snd (zrem_spec M k nm))"
  using within_item [of ks ns M k] by (fastforce simp: zrem_spec_def dom_def subset_iff split: option.splits if_splits intro!: within_upd)

lemma within_set: "in_vocab ks ns M \<Longrightarrow> k \<in> ks \<Longrightarrow> in_vocab ks ns (M(k \<mapsto> set_item (M k) v))"
  by (rule within_upd) (auto simp: set_item_def split: option.splits dest: within_item)

lemma serves_within:
  assumes "serves M cmd v M'" "in_vocab ks ns M" "allowed ks ns cmd"
  shows "in_vocab ks ns M'"
  using assms
proof (induction rule: serves.induct)
  case (del c M k)
  then show ?case by (auto simp: del_spec_def in_vocab_def split: if_splits)
next
  case (set c M k v)
  then show ?case unfolding allowed_def by (blast intro: within_set)
next
  case (zadd c M k sc nm)
  then show ?case by (auto simp: allowed_def intro!: within_zadd)
next
  case (zrem c M k nm)
  then show ?case by (auto intro!: within_zrem)
qed simp_all

lemma serves_all_within:
  "serves_all M cmds out M' \<Longrightarrow> in_vocab ks ns M \<Longrightarrow> (\<And>cmd. cmd \<in> set cmds \<Longrightarrow> allowed ks ns cmd) \<Longrightarrow> in_vocab ks ns M'"
proof (induction rule: serves_all.induct)
  case (Cons M cmd v M1 cmds out M2)
  then show ?case using serves_within [of M cmd v M1 ks ns] by simp
qed

lemma vocab_roomy:
  assumes "small_vocab ks ns" "in_vocab ks ns M" "vocab ks ns bs"
  shows "stays_roomy M bs"
  unfolding stays_roomy_def
proof (intro allI impI)
  fix cmds rest out M'
  assume "bs = concat (map req_image cmds) @ rest" "serves_all M cmds out M'"
  then have "in_vocab ks ns M'" using serves_all_within assms(2,3) unfolding vocab_def by blast
  then show "roomy M'" using within_roomy assms(1) by blast
qed

lemma vocab_rest: "vocab ks ns (concat (map req_image cmds) @ bs) \<Longrightarrow> vocab ks ns bs"
  unfolding vocab_def
proof (intro allI impI)
  fix cmds' rest
  assume all: "\<forall>cs r. concat (map req_image cmds) @ bs = concat (map req_image cs) @ r \<longrightarrow> (\<forall>cmd \<in> set cs. allowed ks ns cmd)"
    and "bs = concat (map req_image cmds') @ rest"
  then have "concat (map req_image cmds) @ bs = concat (map req_image (cmds @ cmds')) @ rest" by simp
  then have "\<forall>cmd \<in> set (cmds @ cmds'). allowed ks ns cmd" using all by blast
  then show "\<forall>cmd \<in> set cmds'. allowed ks ns cmd" by simp
qed

lemma advanced_within:
  assumes "advanced sent pending M k c M' k' c'" "in_vocab ks ns M" "vocab ks ns (in_stream pending k c)"
  shows "in_vocab ks ns M'" "vocab ks ns (in_stream pending k' c')"
proof -
  obtain cmds out where a: "serves_all M cmds out M'" "in_stream pending k c = concat (map req_image cmds) @ in_stream pending k' c'"
    using assms(1) unfolding advanced_def by blast
  then have "\<forall>cmd \<in> set cmds. allowed ks ns cmd" using assms(3) unfolding vocab_def by blast
  then show "in_vocab ks ns M'" using serves_all_within [OF a(1) assms(2)] by blast
  show "vocab ks ns (in_stream pending k' c')" using vocab_rest assms(3) a(2) by metis
qed

section \<open>The invariant of the whole loop\<close>

text \<open>
  The last reading of the clock bounds the times in the state, every connection has an open descriptor,
  and the clients behind the connections keep to the vocabulary.
\<close>

definition served_ok ::
  "('k \<Rightarrow> nat \<Rightarrow> bytes) \<Rightarrow> ('k \<Rightarrow> nat) \<Rightarrow> ('k \<Rightarrow> nat set) \<Rightarrow> bytes set \<Rightarrow> bytes set \<Rightarrow> 'k loop \<Rightarrow> keyspace \<Rightarrow> bool" where
  "served_ok pending clk opened ks ns st M \<longleftrightarrow> (\<exists>xs. loop_ok (usec clk (kern st)) st xs M) \<and> in_vocab ks ns M \<and>
     fds_open opened st \<and> (\<forall>p c. conns st p = Some c \<longrightarrow> vocab ks ns (in_stream pending (kern st) c))"

lemma served_okE:
  assumes "served_ok pending clk opened ks ns st M"
  obtains xs where "loop_ok (usec clk (kern st)) st xs M" "in_vocab ks ns M" "fds_open opened st"
    "\<forall>p c. conns st p = Some c \<longrightarrow> vocab ks ns (in_stream pending (kern st) c)"
  using assms unfolding served_ok_def by blast

lemma loop_ok_mono: "loop_ok t st xs M \<Longrightarrow> t \<le> t' \<Longrightarrow> loop_ok t' st xs M"
  unfolding loop_ok_def aged_def by (meson order_trans)

lemma loop_ok_kern: "loop_ok t st xs M \<Longrightarrow> loop_ok t (st\<lparr>kern := k\<rparr>) xs M"
  by (simp add: loop_ok_def loop_wf_def aged_def idle_of_def)

lemma in_stream_same: "pending k' (fd c) = pending k (fd c) \<Longrightarrow> in_stream pending k' c = in_stream pending k c"
  by (simp add: in_stream_def)

lemma served_carried:
  assumes ok: "loop_ok (usec clk (kern st)) st' xs M" "in_vocab ks ns M" and clock: "clock_ok os clk"
    and car: "carried sent pending clk opened st st'"
    and v: "\<forall>p c. conns st p = Some c \<longrightarrow> vocab ks ns (in_stream pending (kern st) c)"
  shows "served_ok pending clk opened ks ns st' M"
proof -
  have "usec clk (kern st) \<le> usec clk (kern st')" using usec_mono [OF clock] car by (simp add: carried_def)
  then have "loop_ok (usec clk (kern st')) st' xs M" using loop_ok_mono [OF ok(1)] by blast
  moreover have "vocab ks ns (in_stream pending (kern st') c)" if "conns st' p = Some c" for p c
    using car v that unfolding carried_def by (metis in_stream_same)
  ultimately show ?thesis using ok(2) car unfolding served_ok_def carried_def by blast
qed

lemma served_calm:
  assumes os: "os_ok os sent pending clk opened" and ok: "served_ok pending clk opened ks ns st M"
    and calm: "calm sent pending clk opened (kern st) k"
  shows "served_ok pending clk opened ks ns (st\<lparr>kern := k\<rparr>) M"
proof -
  obtain xs where o: "loop_ok (usec clk (kern st)) st xs M" "in_vocab ks ns M" "fds_open opened st"
    "\<forall>p c. conns st p = Some c \<longrightarrow> vocab ks ns (in_stream pending (kern st) c)" using served_okE [OF ok] by metis
  show ?thesis using served_carried [OF loop_ok_kern [OF o(1)] o(2) os_okD(1) [OF os] carried_calm [OF o(3) calm] o(4)] .
qed

lemma server_at_init: "server_at server_init Map.empty"
proof -
  have "server_ok server_init {} (\<lambda>_. \<langle>\<rangle>)" using hm_small_empty
    by (simp add: server_ok_def server_init_def keyed_def ttl_inv_def heap_ordered_def linked_def refs_def mem_finite_def)
  moreover have "represents server_init {} (\<lambda>_. \<langle>\<rangle>) Map.empty" by (simp add: represents_def)
  ultimately show ?thesis unfolding server_at_def by blast
qed

lemma loop_init_ok:
  "\<exists>st. loop_init idle raw k = ret st \<and> loop_ok 0 st [] Map.empty \<and> conns st = Map.empty \<and> kern st = k"
proof -
  obtain ds where d: "dlist_init [idle \<mapsto> raw] (Some idle) = ret ds" "dlist_at ds idle []"
    using dlist_at_init [of "[idle \<mapsto> raw]" idle raw] by auto
  then show ?thesis using server_at_init by (simp add: loop_init_def loop_ok_def loop_wf_def aged_def)
qed

lemma served_init:
  assumes "loop_ok 0 st [] Map.empty" "conns st = Map.empty"
  shows "served_ok pending clk opened ks ns st Map.empty"
proof -
  have "loop_ok (usec clk (kern st)) st [] Map.empty" using loop_ok_mono [OF assms(1)] by simp
  moreover have "in_vocab ks ns Map.empty" by (simp add: in_vocab_def)
  ultimately show ?thesis using assms(2) unfolding served_ok_def fds_open_def by auto
qed

text \<open>What happened from one state to a later one, with no connection accepted in between.\<close>

definition evolved ::
  "('k \<Rightarrow> nat \<Rightarrow> bytes) \<Rightarrow> ('k \<Rightarrow> nat \<Rightarrow> bytes) \<Rightarrow> ('k \<Rightarrow> nat set) \<Rightarrow> 'k loop \<Rightarrow> keyspace \<Rightarrow> event list \<Rightarrow> 'k loop \<Rightarrow> keyspace \<Rightarrow> bool" where
  "evolved sent pending opened st M H st' M' \<longleftrightarrow> replays M H M' \<and> follows sent pending st H st' \<and> tidy opened st st'"

lemma served_distinct: "served_ok pending clk opened ks ns st M \<Longrightarrow> distinct_fds st"
  unfolding served_ok_def loop_ok_def using wf_distinct_fds by blast

lemma evolved_trans:
  "evolved sent pending opened st M H st1 M1 \<Longrightarrow> evolved sent pending opened st1 M1 H' st2 M2 \<Longrightarrow> distinct_fds st \<Longrightarrow>
    evolved sent pending opened st M (H @ H') st2 M2"
  unfolding evolved_def by (blast intro: replays_append follows_trans tidy_trans)

lemma evolved_calm:
  assumes "fds_open opened st" and "calm sent pending clk opened (kern st) k"
  shows "evolved sent pending opened st M [] (st\<lparr>kern := k\<rparr>) M"
  using carried_follows [OF carried_calm [OF assms], of "[]"] calmD(1) [OF assms(2)] by (simp add: evolved_def tidy_same)

lemma evolved_id: "served_ok pending clk opened ks ns st M \<Longrightarrow> evolved sent pending opened st M [] st M"
  using evolved_calm [of opened st sent pending clk "kern st" M] by (simp add: served_ok_def)

section \<open>Ready connections\<close>

text \<open>A descriptor that \<open>poll\<close> was asked about: its connection is still there.\<close>

definition live :: "'k loop \<Rightarrow> nat \<Rightarrow> bool" where
  "live st f \<longleftrightarrow> (\<exists>p c. conns st p = Some c \<and> fd c = f)"

lemma live_table: "loop_wf st xs \<Longrightarrow> live st f \<Longrightarrow> \<exists>p c. f < length (fd2conn st) \<and> fd2conn st ! f = Some p \<and> conns st p = Some c \<and> fd c = f"
  unfolding live_def loop_wf_def by blast

text \<open>What a wake-up of one connection means for the kernel as the others see it.\<close>

lemma step_carried:
  assumes os: "os_ok os sent pending clk opened" and calm: "calm sent pending clk opened (kern st) k0" and fds: "fds_open opened st"
    and run: "conn_step (net os) s k0 c = ret (s', k', c')" and adv: "advanced sent pending M k0 c M' k' c'"
    and k: "k2 = (if state c' = STATE_END then sys_close os k' (int (fd c)) else k')"
  shows "clk (kern st) \<le> clk k2" "\<And>q b. conns st q = Some b \<Longrightarrow> fd b \<noteq> fd c \<Longrightarrow> fd b \<in> opened k2 \<and> pending k2 (fd b) = pending (kern st) (fd b) \<and> sent k2 (fd b) = sent (kern st) (fd b)"
    "state c' \<noteq> STATE_END \<Longrightarrow> fd c \<in> opened (kern st) \<Longrightarrow> fd c \<in> opened k2" "clk k0 \<le> clk k2"
    "opened k2 = opened (kern st) - (if state c' = STATE_END then {fd c} else {})"
proof -
  have f: "opened k' = opened k0" "clk k0 \<le> clk k'" using conn_step_frame [OF os_okD(2) [OF os] run] by simp_all
  have cl: "opened (sys_close os k' (int (fd c))) = opened k' - {fd c}" "clk k' \<le> clk (sys_close os k' (int (fd c)))"
    "same_streams sent pending (opened k' - {fd c}) k' (sys_close os k' (int (fd c)))" using os_okD(4) [OF os refl, of k' "int (fd c)"] by simp_all
  show "opened k2 = opened (kern st) - (if state c' = STATE_END then {fd c} else {})" using f(1) cl(1) calmD(1) [OF calm] k by simp
  show "clk k0 \<le> clk k2" using f(2) cl(2) k by simp
  then show "clk (kern st) \<le> clk k2" using calmD(2) [OF calm] by simp
  show "fd c \<in> opened k2" if "state c' \<noteq> STATE_END" "fd c \<in> opened (kern st)" using that f(1) calmD(1) [OF calm] k by simp
  show "fd b \<in> opened k2 \<and> pending k2 (fd b) = pending (kern st) (fd b) \<and> sent k2 (fd b) = sent (kern st) (fd b)" if b: "conns st q = Some b" "fd b \<noteq> fd c" for q b
  proof -
    have o: "fd b \<in> opened (kern st)" using fds b(1) by (auto simp: fds_open_def)
    then have "fd b \<in> opened k'" "pending k0 (fd b) = pending (kern st) (fd b)" "sent k0 (fd b) = sent (kern st) (fd b)"
      using f(1) calmD(1,3,4) [OF calm] by simp_all
    moreover have "pending k' (fd b) = pending k0 (fd b)" "sent k' (fd b) = sent k0 (fd b)" using adv b(2) by (auto simp: advanced_def)
    ultimately show ?thesis using k cl(1,3) b(2) by (auto simp: same_streams_def)
  qed
qed

text \<open>The history of that wake-up.\<close>

lemma step_follows:
  assumes os: "os_ok os sent pending clk opened" and calm: "calm sent pending clk opened (kern st) k0" and fds: "fds_open opened st"
    and d: "distinct_fds st" and c: "conns st p = Some c"
    and run: "conn_step (net os) s k0 (c\<lparr>idle_start := now\<rparr>) = ret (s', k', c')"
    and adv: "advanced sent pending M k0 (c\<lparr>idle_start := now\<rparr>) M' k' c'"
    and st': "conns st' = (conns st)(p := if state c' = STATE_END then None else Some c')"
    "kern st' = (if state c' = STATE_END then sys_close os k' (int (fd (c\<lparr>idle_start := now\<rparr>))) else k')"
  shows "\<exists>H. evolved sent pending opened st M H st' M'"
proof -
  let ?c = "c\<lparr>idle_start := now\<rparr>"
  note car = step_carried [OF os calm fds run adv st'(2)]
  have o: "fd c \<in> opened (kern st)" using fds c by (auto simp: fds_open_def)
  obtain cmds out where a: "serves_all M cmds out M'" "in_stream pending k0 ?c = concat (map req_image cmds) @ in_stream pending k' c'"
    "out_stream sent k' c' = out_stream sent k0 ?c @ out" and fd': "fd c' = fd c" using adv unfolding advanced_def by auto
  obtain H where h: "replays M H M'" "fds_of H \<subseteq> {fd c}" "reqs_of (fd c) H = concat (map req_image cmds)" "reps_of (fd c) H = out"
    using serves_all_history [OF a(1), of "fd c"] by blast
  have same: "in_stream pending k0 ?c = in_stream pending (kern st) c" "out_stream sent k0 ?c = out_stream sent (kern st) c"
    using calmD(3,4) [OF calm o] by (simp_all add: in_stream_def out_stream_def received_def unsent_def)
  have "follows sent pending st H st'" unfolding follows_def
  proof (intro conjI allI impI)
    show "dom (conns st') \<subseteq> dom (conns st)" using st'(1) c by (auto split: if_splits)
    show "fds_of H \<subseteq> conn_fds st" using h(2) conn_fdsI [of st p c] c by blast
    fix q b assume b: "conns st q = Some b"
    have ne: "fd b \<noteq> fd c" if "q \<noteq> p" using d b c that unfolding distinct_fds_def by blast
    have absent: "reqs_of (fd b) H = [] \<and> reps_of (fd b) H = []" if "q \<noteq> p" using history_absent h(2) ne [OF that] by blast
    show "\<exists>rest. in_stream pending (kern st) b = reqs_of (fd b) H @ rest"
    proof (cases "q = p")
      case True
      then show ?thesis using b c a(2) same(1) h(3) by (metis option.inject)
    qed (use absent in simp)
    fix b' assume b': "conns st' q = Some b'"
    have "fd b' = fd b \<and> in_stream pending (kern st) b = reqs_of (fd b) H @ in_stream pending (kern st') b' \<and>
      out_stream sent (kern st') b' = out_stream sent (kern st) b @ reps_of (fd b) H"
    proof (cases "q = p")
      case True
      then have "b' = c'" "b = c" "kern st' = k'" using b b' c st' by (auto split: if_splits)
      then show ?thesis using a(2,3) same h(3,4) fd' by simp
    next
      case False
      then have "b' = b" using b b' st'(1) by simp
      then show ?thesis using absent [OF False] car(2) [OF b] ne [OF False] by (simp add: in_stream_def out_stream_def)
    qed
    then show "fd b' = fd b" "in_stream pending (kern st) b = reqs_of (fd b) H @ in_stream pending (kern st') b'"
      "out_stream sent (kern st') b' = out_stream sent (kern st) b @ reps_of (fd b) H" by blast+
  qed
  moreover have "tidy opened st st'" by (rule tidy_upd [OF st'(1)]) (use car(5) c fd' in \<open>auto split: if_splits\<close>)
  ultimately show ?thesis using h(1) unfolding evolved_def by blast
qed

lemma io_step_served:
  assumes os: "os_ok os sent pending clk opened" and net: "net_ok (net os) sent pending intr" "fresh_alloc (net os)" and v: "small_vocab ks ns"
    and ok: "served_ok pending clk opened ks ns st M" and f: "live st f"
  shows "\<exists>st' H M'. io_step os f st = ret st' \<and> served_ok pending clk opened ks ns st' M' \<and> (\<forall>g. g \<noteq> f \<longrightarrow> live st g \<longrightarrow> live st' g) \<and>
    evolved sent pending opened st M H st' M'"
proof -
  obtain xs where o: "loop_ok (usec clk (kern st)) st xs M" "in_vocab ks ns M" "fds_open opened st"
    and vo: "\<forall>p c. conns st p = Some c \<longrightarrow> vocab ks ns (in_stream pending (kern st) c)" using served_okE [OF ok] by metis
  have wf: "loop_wf st xs" using o(1) by (simp add: loop_ok_def)
  obtain p c where p: "f < length (fd2conn st)" "fd2conn st ! f = Some p" "conns st p = Some c" "fd c = f"
    using live_table [OF wf f] by blast
  obtain now_us k0 where clock: "get_monotonic_usec os (kern st) = (now_us, k0)" by (cases "get_monotonic_usec os (kern st)")
  note calm = get_monotonic_calm [OF os clock]
  have fo: "fd c \<in> opened (kern st)" using o(3) p(3) by (auto simp: fds_open_def)
  have t: "usec clk (kern st) \<le> now_us" using usec_mono [OF os_okD(1) [OF os]] calm by (simp add: calmD)
  have vc: "vocab ks ns (in_stream pending k0 c)" using vo p(3) in_stream_same [of pending k0 c "kern st"] calmD(4) [OF calm(2) fo] by simp
  note sr = vocab_roomy [OF v o(2) vc]
  let ?c = "c\<lparr>idle_start := now_us\<rparr>"
  obtain st' xs' M' s' k' c' where s: "io_step os f st = ret st'" "loop_ok now_us st' xs' M'"
    "conn_step (net os) (srv st) k0 ?c = ret (s', k', c')" "advanced sent pending M k0 ?c M' k' c'"
    "conns st' = (conns st)(p := if state c' = STATE_END then None else Some c')"
    "kern st' = (if state c' = STATE_END then sys_close os k' (int (fd c)) else k')"
    using io_step_ok [OF net o(1) clock t p(1-3) sr] .
  have k': "kern st' = (if state c' = STATE_END then sys_close os k' (int (fd ?c)) else k')" using s(6) by simp
  note car = step_carried [OF os calm(2) o(3) s(3,4) k']
  have "in_stream pending k0 ?c = in_stream pending k0 c" by (simp add: in_stream_def received_def)
  then have w: "in_vocab ks ns M'" "vocab ks ns (in_stream pending k' c')" using advanced_within [OF s(4) o(2)] vc by simp_all
  have fd': "fd c' = f" using s(4) p(4) by (simp add: advanced_def)
  have other: "fd b \<noteq> fd ?c" if "conns st q = Some b" "q \<noteq> p" for q b using wf_fd_inj [OF wf that(1) p(3)] that(2) by auto
  have "loop_ok (usec clk (kern st')) st' xs' M'"
    using loop_ok_mono [OF s(2)] calm(1) usec_mono [OF os_okD(1) [OF os] car(4)] by simp
  moreover have "fd b \<in> opened (kern st') \<and> vocab ks ns (in_stream pending (kern st') b)" if b: "conns st' q = Some b" for q b
  proof (cases "q = p")
    case True
    then have "state c' \<noteq> STATE_END" "b = c'" using b s(5) by (auto split: if_splits)
    then show ?thesis using car(3) fo w(2) s(6) fd' p(4) by simp
  next
    case False
    then have "conns st q = Some b" using b s(5) by simp
    then show ?thesis using car(2) [OF _ other] False vo by (auto simp: in_stream_def)
  qed
  moreover have "live st' g" if "g \<noteq> f" "live st g" for g
    using that s(5) p(3,4) unfolding live_def by (metis fun_upd_other option.inject)
  moreover obtain H where "evolved sent pending opened st M H st' M'"
    using step_follows [OF os calm(2) o(3) wf_distinct_fds [OF wf] p(3) s(3,4,5) k'] by blast
  ultimately show ?thesis using s(1) w(1) unfolding served_ok_def fds_open_def by blast
qed

lemma io_loop_served:
  assumes os: "os_ok os sent pending clk opened" and net: "net_ok (net os) sent pending intr" "fresh_alloc (net os)" and v: "small_vocab ks ns"
  shows "served_ok pending clk opened ks ns st M \<Longrightarrow> (\<forall>a \<in> set args. live st (nat (pfd a))) \<Longrightarrow> distinct (map (nat \<circ> pfd) args) \<Longrightarrow>
    \<exists>st' H M'. io_loop os revents i args st = ret st' \<and> served_ok pending clk opened ks ns st' M' \<and> evolved sent pending opened st M H st' M'"
proof (induction args arbitrary: i st M)
  case (Cons a args)
  have "\<exists>st1 H1 M1. (if revents i \<noteq> 0 then io_step os (nat (pfd a)) st else ret st) = ret st1 \<and> served_ok pending clk opened ks ns st1 M1 \<and>
      (\<forall>g. g \<noteq> nat (pfd a) \<longrightarrow> live st g \<longrightarrow> live st1 g) \<and> evolved sent pending opened st M H1 st1 M1"
    using io_step_served [OF os net v Cons.prems(1), of "nat (pfd a)"] Cons.prems(1,2) evolved_id [OF Cons.prems(1)]
    by (cases "revents i = 0") auto
  then obtain st1 H1 M1 where s: "(if revents i \<noteq> 0 then io_step os (nat (pfd a)) st else ret st) = ret st1" "served_ok pending clk opened ks ns st1 M1"
    "\<forall>g. g \<noteq> nat (pfd a) \<longrightarrow> live st g \<longrightarrow> live st1 g" "evolved sent pending opened st M H1 st1 M1" by blast
  have "nat (pfd b) \<noteq> nat (pfd a)" if "b \<in> set args" for b using Cons.prems(3) that by (auto simp: image_iff)
  then have "\<forall>b \<in> set args. live st1 (nat (pfd b))" using s(3) Cons.prems(2) by simp
  moreover have "distinct (map (nat \<circ> pfd) args)" using Cons.prems(3) by (simp add: comp_def)
  ultimately obtain st2 H2 M2 where "io_loop os revents (Suc i) args st1 = ret st2" "served_ok pending clk opened ks ns st2 M2"
    "evolved sent pending opened st1 M1 H2 st2 M2" using Cons.IH [OF s(2), of "Suc i"] by blast
  moreover from this(3) have "evolved sent pending opened st M (H1 @ H2) st2 M2" using evolved_trans [OF s(4) _ served_distinct [OF Cons.prems(1)]] by blast
  ultimately have "io_loop os revents i (a # args) st = ret st2" "served_ok pending clk opened ks ns st2 M2"
    "evolved sent pending opened st M (H1 @ H2) st2 M2" using s(1) by simp_all
  then show ?case by blast
next
  case Nil
  then show ?case using evolved_id [OF Nil.prems(1)] by (simp, blast)
qed

section \<open>Timers and new connections\<close>

lemma process_timers_served:
  assumes os: "os_ok os sent pending clk opened" and ok: "served_ok pending clk opened ks ns st M"
  shows "\<exists>st' H M'. process_timers os st = ret st' \<and> served_ok pending clk opened ks ns st' M' \<and> evolved sent pending opened st M H st' M'"
proof -
  obtain xs where o: "loop_ok (usec clk (kern st)) st xs M" "in_vocab ks ns M" "fds_open opened st"
    and vo: "\<forall>p c. conns st p = Some c \<longrightarrow> vocab ks ns (in_stream pending (kern st) c)" using served_okE [OF ok] by metis
  obtain clock k where clock: "get_monotonic_usec os (kern st) = (clock, k)" by (cases "get_monotonic_usec os (kern st)")
  have calm: "calm sent pending clk opened (kern st) k" using get_monotonic_calm [OF os clock] by blast
  note usec = usec_mono [OF os_okD(1) [OF os] calmD(2) [OF calm]] usec_small [OF os_okD(1) [OF os]]
  obtain st' xs' where s: "process_timers os st = ret st'" "loop_ok (usec clk (kern st)) st' xs' (expired (clock + 1000) M)"
    "carried sent pending clk opened (st\<lparr>kern := k\<rparr>) st'" "tidy opened st st'"
    using process_timers_ok [OF os o(1) usec(2) o(3) clock] .
  have "in_vocab ks ns (expired (clock + 1000) M)"
    using o(2) by (auto simp: in_vocab_def expired_def dom_def subset_iff split: option.splits if_splits)
  moreover have car: "carried sent pending clk opened st st'" using carried_trans [OF carried_calm [OF o(3) calm] s(3)] .
  moreover have "evolved sent pending opened st M [Expired (clock + 1000)] st' (expired (clock + 1000) M)"
    using carried_follows [OF car] s(4) replays.Expired [OF replays.Nil] by (simp add: evolved_def)
  ultimately show ?thesis using served_carried [OF s(2) _ os_okD(1) [OF os] _ vo] s(1) by blast
qed

text \<open>What the results rely on of the clients: behind every accepted connection is one that keeps to the vocabulary.\<close>

definition polite :: "'k os \<Rightarrow> ('k \<Rightarrow> nat \<Rightarrow> bytes) \<Rightarrow> bytes set \<Rightarrow> bytes set \<Rightarrow> bool" where
  "polite os pending ks ns \<longleftrightarrow> (\<forall>k l f k'. sys_accept os k l = (f, k') \<longrightarrow> 0 \<le> f \<longrightarrow> vocab ks ns (pending k' (nat f)))"

text \<open>The kernel after \<open>accept\<close>, seen by the connections that were there before.\<close>

lemma accept_carried:
  assumes os: "os_ok os sent pending clk opened" and fds: "fds_open opened st" and acc: "sys_accept os (kern st) lfd = (f, k)"
  shows "carried sent pending clk opened st (st\<lparr>kern := k\<rparr>)" "0 \<le> f \<Longrightarrow> nat f \<in> opened k" "0 \<le> f \<Longrightarrow> \<not> live st (nat f)"
proof -
  note a = os_okD(5) [OF os acc]
  show "carried sent pending clk opened st (st\<lparr>kern := k\<rparr>)" "0 \<le> f \<Longrightarrow> nat f \<in> opened k" "0 \<le> f \<Longrightarrow> \<not> live st (nat f)"
    using a fds by (fastforce simp: carried_def fds_open_def same_streams_def live_def split: if_splits)+
qed

lemma served_accept_fails:
  assumes os: "os_ok os sent pending clk opened" and ok: "served_ok pending clk opened ks ns st M"
    and car: "carried sent pending clk opened st (st\<lparr>kern := k\<rparr>)"
  shows "served_ok pending clk opened ks ns (st\<lparr>kern := k\<rparr>) M"
proof -
  obtain xs where o: "loop_ok (usec clk (kern st)) st xs M" "in_vocab ks ns M" "fds_open opened st"
    and vo: "\<forall>p c. conns st p = Some c \<longrightarrow> vocab ks ns (in_stream pending (kern st) c)" using served_okE [OF ok] by metis
  show ?thesis using served_carried [OF loop_ok_kern [OF o(1)] o(2) os_okD(1) [OF os] car vo] .
qed

text \<open>A connection that could be accepted, with its descriptor non-blocking and memory allocated.\<close>

lemma served_accepted:
  assumes os: "os_ok os sent pending clk opened" and pol: "polite os pending ks ns" and mem: "fresh_conn os"
    and ok: "served_ok pending clk opened ks ns st M" and acc: "sys_accept os (kern st) lfd = (f, k1)" "0 \<le> f"
    and nb: "fd_set_nb os k1 f = ret k2" "calm sent pending clk opened k1 k2"
    and al: "conn_alloc os k2 (conns st) (dnodes st) = (Some a, raw, node)"
  shows "\<exists>st'. accept_new_conn os lfd st = ret (0, st') \<and> served_ok pending clk opened ks ns st' M \<and> tidy opened st st'"
proof -
  obtain xs where o: "loop_ok (usec clk (kern st)) st xs M" "in_vocab ks ns M" "fds_open opened st"
    and vo: "\<forall>p c. conns st p = Some c \<longrightarrow> vocab ks ns (in_stream pending (kern st) c)" using served_okE [OF ok] by metis
  have wf: "loop_wf st xs" using o(1) by (simp add: loop_ok_def)
  obtain now_us k3 where clock: "get_monotonic_usec os k2 = (now_us, k3)" by (cases "get_monotonic_usec os k2")
  note ac = accept_carried [OF os o(3) acc(1)] and gm = get_monotonic_calm [OF os clock]
  have calm: "calm sent pending clk opened k1 k3" using calm_trans [OF nb(2) gm(2)] .
  have "fds_open opened (st\<lparr>kern := k1\<rparr>)" using ac(1) by (simp add: carried_def)
  then have car: "carried sent pending clk opened st (st\<lparr>kern := k3\<rparr>)"
    using carried_trans [OF ac(1)] carried_calm [of opened "st\<lparr>kern := k1\<rparr>"] calm by fastforce
  have t: "usec clk (kern st) \<le> now_us" using usec_mono [OF os_okD(1) [OF os]] car gm(1) by (simp add: carried_def)
  have free: "nat f < length (fd2conn st) \<longrightarrow> fd2conn st ! nat f = None"
    using ac(3) [OF acc(2)] wf unfolding loop_wf_def live_def by (metis not_Some_eq)
  from accept_ok [OF o(1) t acc nb(1) al mem clock free] obtain st' where
    s: "accept_new_conn os lfd st = ret (0, st')" "loop_ok now_us st' (xs @ [a]) M" "kern st' = k3"
      "conns st' = (conns st)(a \<mapsto> raw\<lparr>fd := nat f, state := STATE_REQ, rbuf_size := 0, wbuf_size := 0, wbuf_sent := 0, idle_start := now_us\<rparr>)"
    by blast
  have new: "nat f \<in> opened k3" "vocab ks ns (pending k3 (nat f))"
    using ac(2) [OF acc(2)] pol acc calmD(1,4) [OF calm] unfolding polite_def by auto
  have "fd c \<in> opened k3 \<and> vocab ks ns (in_stream pending k3 c)" if "conns st' q = Some c" for q c
    using car vo that s(4) new in_stream_same [of pending k3 c "kern st"]
    by (cases "q = a") (auto simp: in_stream_def received_def carried_def fds_open_def)
  moreover have "tidy opened st st'"
  proof (rule tidy_upd [OF s(4)])
    show "opened (kern st') \<subseteq> opened (kern st) \<union> fd ` set_option (Some (raw\<lparr>fd := nat f, state := STATE_REQ, rbuf_size := 0,
        wbuf_size := 0, wbuf_sent := 0, idle_start := now_us\<rparr>))"
      using os_okD(5) [OF os acc(1)] acc(2) calmD(1) [OF calm] s(3) by auto
    have "conns st a = None" using al mem unfolding fresh_conn_def by blast
    then show "\<forall>c. conns st a = Some c \<longrightarrow> (case Some (raw\<lparr>fd := nat f, state := STATE_REQ, rbuf_size := 0, wbuf_size := 0, wbuf_sent := 0,
        idle_start := now_us\<rparr>) of None \<Rightarrow> fd c \<notin> opened (kern st') | Some c' \<Rightarrow> fd c' = fd c)" by simp
  qed
  ultimately show ?thesis using s(1,2,3) o(2) gm(1) unfolding served_ok_def fds_open_def by blast
qed

lemma accept_served:
  assumes os: "os_ok os sent pending clk opened" and pol: "polite os pending ks ns" and mem: "fresh_conn os"
    and ok: "served_ok pending clk opened ks ns st M"
  shows "(\<exists>rv st'. accept_new_conn os lfd st = ret (rv, st') \<and> served_ok pending clk opened ks ns st' M \<and> tidy opened st st') \<or> dies os (accept_new_conn os lfd st) ''fcntl error''"
proof -
  obtain f k1 where acc: "sys_accept os (kern st) lfd = (f, k1)" by (cases "sys_accept os (kern st) lfd")
  have fds: "fds_open opened st" using ok by (simp add: served_ok_def)
  note ac = accept_carried [OF os fds acc]
  show ?thesis
  proof (cases "f < 0")
    case True
    then have "tidy opened st (st\<lparr>kern := k1\<rparr>)" using os_okD(5) [OF os acc] by (simp add: tidy_same)
    then show ?thesis using True acc served_accept_fails [OF os ok ac(1)] by (simp add: accept_new_conn_def)
  next
    case False
    then have f: "0 \<le> f" by simp
    consider (ok) k2 where "fd_set_nb os k1 f = ret k2" "calm sent pending clk opened k1 k2"
      | (dies) "dies os (fd_set_nb os k1 f) ''fcntl error''" using fd_set_nb_calm [OF os] by blast
    then show ?thesis
    proof cases
      case dies
      then have "dies os (accept_new_conn os lfd st) ''fcntl error''" using acc False by (simp add: accept_new_conn_def dies_bindE)
      then show ?thesis by blast
    next
      case (ok k2)
      obtain p raw node where al: "conn_alloc os k2 (conns st) (dnodes st) = (p, raw, node)" by (cases "conn_alloc os k2 (conns st) (dnodes st)")
      show ?thesis
      proof (cases p)
        case None
        have "carried sent pending clk opened st (st\<lparr>kern := sys_close os k2 f\<rparr>)"
          using ac fds os_okD(4) [OF os refl, of k2 f] calmD [OF ok(2)] f
          by (auto simp: carried_def fds_open_def same_streams_def live_def)
        moreover have "tidy opened st (st\<lparr>kern := sys_close os k2 f\<rparr>)"
          using os_okD(4) [OF os refl, of k2 f] os_okD(5) [OF os acc] calmD(1) [OF ok(2)] False by (simp add: tidy_same)
        ultimately show ?thesis using acc False ok(1) al None served_accept_fails [OF os assms(4)] by (simp add: accept_new_conn_def)
      next
        case (Some a)
        then show ?thesis using served_accepted [OF os pol mem assms(4) acc f ok] al by blast
      qed
    qed
  qed
qed

section \<open>Runs of the loop\<close>

text \<open>The entry of a connection among the arguments of \<open>poll\<close>.\<close>

definition entry_of :: "Conn \<Rightarrow> pollfd" where
  "entry_of c = \<lparr>pfd = int (fd c), events = (if state c = STATE_REQ then POLLIN else POLLOUT) OR POLLERR\<rparr>"

lemma nat_pfd_entry [simp]: "nat (pfd (entry_of c)) = fd c"
  by (simp add: entry_of_def)

lemma poll_args_eq:
  "\<forall>p. Some p \<in> set tab \<longrightarrow> (\<exists>c. conns st p = Some c) \<Longrightarrow>
    poll_args st tab = ret (map (\<lambda>p. entry_of (the (conns st (the p)))) (filter (\<lambda>p. p \<noteq> None) tab))"
proof (induction tab)
  case (Cons q tab)
  then show ?case by (cases q) (auto simp: entry_of_def)
qed simp

lemma poll_args_live:
  assumes wf: "loop_wf st xs"
  shows "\<exists>args. poll_args st (fd2conn st) = ret args \<and> distinct (map (nat \<circ> pfd) args) \<and> (\<forall>a \<in> set args. live st (nat (pfd a))) \<and>
    (\<forall>p c. conns st p = Some c \<longrightarrow> entry_of c \<in> set args)"
proof -
  let ?tab = "fd2conn st" and ?e = "\<lambda>p. entry_of (the (conns st (the p)))"
  let ?args = "map ?e (filter (\<lambda>p. p \<noteq> None) ?tab)"
  have ent: "\<exists>c. conns st p = Some c \<and> fd c = f" if "f < length ?tab" "?tab ! f = Some p" for f p
    using wf that by (simp add: loop_wf_def)
  then have mem: "\<exists>c. conns st p = Some c" if "Some p \<in> set ?tab" for p using that by (metis in_set_conv_nth)
  have "fd (the (conns st (the (?tab ! f)))) = f" if "f < length ?tab" "?tab ! f \<noteq> None" for f using ent that by fastforce
  then have "map (nat \<circ> pfd) (map ?e (filter (\<lambda>p. p \<noteq> None) (map ((!) ?tab) [0..<length ?tab]))) =
      filter (\<lambda>f. ?tab ! f \<noteq> None) [0..<length ?tab]" by (auto simp: filter_map o_def intro!: map_idI)
  then have "map (nat \<circ> pfd) ?args = filter (\<lambda>f. ?tab ! f \<noteq> None) [0..<length ?tab]" by (simp add: map_nth)
  then have "distinct (map (nat \<circ> pfd) ?args)" by simp
  moreover have "live st (nat (pfd a))" if "a \<in> set ?args" for a using that mem by (auto simp: live_def) fastforce
  moreover have "entry_of c \<in> set ?args" if "conns st p = Some c" for p c
  proof -
    have "Some p \<in> set ?tab" using wf that by (auto simp: loop_wf_def in_set_conv_nth)
    then show ?thesis using that by (force simp: image_iff)
  qed
  ultimately show ?thesis using poll_args_eq [of ?tab st] mem by blast
qed

text \<open>
  One iteration: it served requests and fired timers, and then may have accepted a connection, unless
  \<open>die\<close> aborted the process.
\<close>

lemma loop_body_served:
  assumes os: "os_ok os sent pending clk opened" and net: "net_ok (net os) sent pending intr" "fresh_alloc (net os)"
    and pol: "polite os pending ks ns" and mem: "fresh_conn os" and v: "small_vocab ks ns" and ok: "served_ok pending clk opened ks ns st M"
  shows "(\<exists>st2 H M' st'. loop_body os lfd st = ret st' \<and> evolved sent pending opened st M H st2 M' \<and>
      (st' = st2 \<or> (\<exists>rv. accept_new_conn os lfd st2 = ret (rv, st'))) \<and> served_ok pending clk opened ks ns st' M' \<and> tidy opened st st') \<or>
    dies os (loop_body os lfd st) ''poll'' \<or> dies os (loop_body os lfd st) ''fcntl error''"
proof -
  obtain xs where o: "loop_ok (usec clk (kern st)) st xs M" "fds_open opened st" using served_okE [OF ok] by metis
  then have wf: "loop_wf st xs" by (simp add: loop_ok_def)
  from poll_args_live [OF this] obtain args where args: "poll_args st (fd2conn st) = ret args" "distinct (map (nat \<circ> pfd) args)"
    "\<forall>a \<in> set args. live st (nat (pfd a))" by blast
  obtain now_us k0 where clock: "get_monotonic_usec os (kern st) = (now_us, k0)" by (cases "get_monotonic_usec os (kern st)")
  let ?tmo = "wait_ms now_us (next_due st xs)" and ?pf = "\<lparr>pfd = lfd, events = POLLIN\<rparr>"
  have tm: "next_timer_ms os st = ret (?tmo, st\<lparr>kern := k0\<rparr>)" using next_timer_eq [OF o(1) clock] .
  obtain rv err revs k where poll: "sys_poll os k0 (?pf # args) (sint ?tmo) = (rv, err, revs, k)" by (cases "sys_poll os k0 (?pf # args) (sint ?tmo)")
  have calm: "calm sent pending clk opened (kern st) k"
    using calm_trans [OF get_monotonic_calm(2) [OF os clock] os_okD(3) [OF os poll]] .
  then have ok1: "served_ok pending clk opened ks ns (st\<lparr>kern := k\<rparr>) M" using served_calm [OF os ok] by blast
  have "\<forall>a \<in> set args. live (st\<lparr>kern := k\<rparr>) (nat (pfd a))" using args(3) by (simp add: live_def)
  from io_loop_served [OF os net v ok1 this args(2)] obtain st1 H1 M1 where s1: "io_loop os revs 1 args (st\<lparr>kern := k\<rparr>) = ret st1"
    "served_ok pending clk opened ks ns st1 M1" "evolved sent pending opened (st\<lparr>kern := k\<rparr>) M H1 st1 M1" by blast
  obtain st2 H2 M2 where s2: "process_timers os st1 = ret st2" "served_ok pending clk opened ks ns st2 M2"
    "evolved sent pending opened st1 M1 H2 st2 M2" using process_timers_served [OF os s1(2)] by blast
  have r: "evolved sent pending opened st M ([] @ H1 @ H2) st2 M2"
    using evolved_trans [OF evolved_calm [OF o(2) calm] evolved_trans [OF s1(3) s2(3) served_distinct [OF ok1]] served_distinct [OF ok]] .
  then have td: "tidy opened st st2" by (simp add: evolved_def)
  have body: "loop_body os lfd st = (if rv < 0 then die err ''poll'' else
      if revs 0 \<noteq> 0 then bindE (accept_new_conn os lfd st2) (\<lambda>(_, st). ret st) else ret st2)"
    using args(1) tm poll s1(1) s2(1) by (simp add: loop_body_def)
  consider (poll) "rv < 0" | (none) "0 \<le> rv" "revs 0 = 0" | (accept) "0 \<le> rv" "revs 0 \<noteq> 0" by linarith
  then show ?thesis
  proof cases
    case poll': poll
    then have "\<not> obliging os" using poll unfolding obliging_def by (metis fst_conv not_less)
    then show ?thesis using body poll' by (simp add: dies_die)
  next
    case none
    then show ?thesis using body r s2(2) td by auto
  next
    case accept
    then have b: "loop_body os lfd st = bindE (accept_new_conn os lfd st2) (\<lambda>(_, st). ret st)" using body by simp
    from accept_served [OF os pol mem s2(2), of lfd] show ?thesis
    proof (elim disjE exE conjE)
      fix rv st' assume a: "accept_new_conn os lfd st2 = ret (rv, st')" "served_ok pending clk opened ks ns st' M2" "tidy opened st2 st'"
      then have "loop_body os lfd st = ret st'" "tidy opened st st'" using b tidy_trans [OF td] by simp_all
      then show ?thesis using r a by blast
    qed (simp add: b dies_bindE)
  qed
qed

text \<open>Any number of iterations: either they all return, or the process was aborted by \<open>die\<close> on the way.\<close>

lemma loop_run_served:
  assumes os: "os_ok os sent pending clk opened" and net: "net_ok (net os) sent pending intr" "fresh_alloc (net os)"
    and pol: "polite os pending ks ns" and mem: "fresh_conn os" and v: "small_vocab ks ns" and ok: "served_ok pending clk opened ks ns st M"
  shows "(\<exists>st' H M'. loop_run os lfd n st = ret st' \<and> served_ok pending clk opened ks ns st' M' \<and> replays M H M' \<and> tidy opened st st') \<or>
    dies os (loop_run os lfd n st) ''poll'' \<or> dies os (loop_run os lfd n st) ''fcntl error''"
proof (induction n)
  case (Suc n)
  then show ?case
  proof (elim disjE exE conjE)
    fix st1 H M1
    assume s: "loop_run os lfd n st = ret st1" "served_ok pending clk opened ks ns st1 M1" "replays M H M1" "tidy opened st st1"
    have "(\<exists>st' H' M'. loop_body os lfd st1 = ret st' \<and> served_ok pending clk opened ks ns st' M' \<and> replays M1 H' M' \<and> tidy opened st1 st') \<or>
        dies os (loop_body os lfd st1) ''poll'' \<or> dies os (loop_body os lfd st1) ''fcntl error''"
      using loop_body_served [OF os net pol mem v s(2), of lfd] unfolding evolved_def by blast
    then show ?thesis using s(1) replays_append [OF s(3)] tidy_trans [OF s(4)] by (auto; blast)
  qed (simp_all add: dies_bindE)
qed (use ok in \<open>auto simp: tidy_same intro: replays.Nil\<close>)

end
