(* ===== verification/Thread_Pool.thy ===== *)
theory Thread_Pool
  imports Prelude "HOL-Library.Multiset"
begin

text \<open>
  The thread pool of \<open>thread_pool.h\<close> and \<open>thread_pool.cpp\<close>: worker threads that take jobs from a
  queue under a mutex, a condition variable on which they sleep, and the producer that appends a
  job and signals. Every statement of \<open>worker\<close> and \<open>thread_pool_queue\<close> that touches shared state is
  one step of an interleaving semantics. A job \<open>'w\<close> stands for a pair of function and argument.

  The mutex and the condition variable behave as POSIX says: a lock is granted only when no thread
  holds the mutex, \<open>pthread_cond_wait\<close> releases the mutex and falls asleep in one step and takes the
  mutex again before it returns, a sleeping thread may wake up without a signal, and
  \<open>pthread_cond_signal\<close> wakes a sleeping thread if there is one.
\<close>

section \<open>State\<close>

text \<open>Where a worker is in its loop, named after the statement it executes next.\<close>

datatype 'w worker_pc =
    WLock              \<comment> \<open>\<open>pthread_mutex_lock\<close>\<close>
  | WTest              \<comment> \<open>\<open>while (tp->queue.empty())\<close>, holding the mutex\<close>
  | WBlocked           \<comment> \<open>asleep in \<open>pthread_cond_wait\<close>\<close>
  | WWoken             \<comment> \<open>about to return from \<open>pthread_cond_wait\<close>, waiting for the mutex\<close>
  | WPop 'w            \<comment> \<open>\<open>queue.front()\<close> copied, \<open>queue.pop_front()\<close> next\<close>
  | WUnlock 'w         \<comment> \<open>\<open>pthread_mutex_unlock\<close>\<close>
  | WRun 'w            \<comment> \<open>\<open>w.f(w.arg)\<close>\<close>

datatype 'w producer_pc =
    PIdle              \<comment> \<open>outside \<open>thread_pool_queue\<close>\<close>
  | PLock 'w
  | PPush 'w
  | PSignal
  | PUnlock

datatype owner = Free | Producer | Worker nat

text \<open>\<open>pushed\<close>, \<open>popped\<close> and \<open>ran\<close> record the history: jobs appended, taken and started, in order.\<close>

record 'w ThreadPool =
  threads :: "'w worker_pc list"
  queue :: "'w list"
  mu :: owner
  caller :: "'w producer_pc"
  pushed :: "'w list"
  popped :: "'w list"
  ran :: "'w list"

text \<open>
  \<open>mutex_rv\<close> and \<open>cond_rv\<close> are the results of \<open>pthread_mutex_init\<close> and \<open>pthread_cond_init\<close>, and \<open>create_rv i\<close>
  that of the \<open>i\<close>-th \<open>pthread_create\<close>, which the code does not look at: \<open>threads\<close> are the workers that
  were started, so there are fewer of them when a call fails.
\<close>

definition thread_pool_init :: "int \<Rightarrow> int \<Rightarrow> (nat \<Rightarrow> int) \<Rightarrow> nat \<Rightarrow> 'w ThreadPool exec" where
  "thread_pool_init mutex_rv cond_rv create_rv num_of_threads =
     bindE (assertE (num_of_threads > 0)) (\<lambda>_.
     bindE (assertE (mutex_rv = 0)) (\<lambda>_.
     bindE (assertE (cond_rv = 0)) (\<lambda>_.
     ret \<lparr>threads = map (\<lambda>_. WLock) (filter (\<lambda>i. create_rv i = 0) [0..<num_of_threads]), queue = [], mu = Free, caller = PIdle,
          pushed = [], popped = [], ran = []\<rparr>)))"

section \<open>Steps\<close>

inductive worker_step :: "nat \<Rightarrow> 'w ThreadPool \<Rightarrow> 'w ThreadPool \<Rightarrow> bool" where
  lock: "i < length (threads tp) \<Longrightarrow> threads tp ! i = WLock \<Longrightarrow> mu tp = Free \<Longrightarrow>
    worker_step i tp (tp\<lparr>mu := Worker i, threads := (threads tp)[i := WTest]\<rparr>)"
| wait: "i < length (threads tp) \<Longrightarrow> threads tp ! i = WTest \<Longrightarrow> queue tp = [] \<Longrightarrow>
    worker_step i tp (tp\<lparr>mu := Free, threads := (threads tp)[i := WBlocked]\<rparr>)"
| spurious: "i < length (threads tp) \<Longrightarrow> threads tp ! i = WBlocked \<Longrightarrow>
    worker_step i tp (tp\<lparr>threads := (threads tp)[i := WWoken]\<rparr>)"
| relock: "i < length (threads tp) \<Longrightarrow> threads tp ! i = WWoken \<Longrightarrow> mu tp = Free \<Longrightarrow>
    worker_step i tp (tp\<lparr>mu := Worker i, threads := (threads tp)[i := WTest]\<rparr>)"
| front: "i < length (threads tp) \<Longrightarrow> threads tp ! i = WTest \<Longrightarrow> queue tp = w # ws \<Longrightarrow>
    worker_step i tp (tp\<lparr>threads := (threads tp)[i := WPop w]\<rparr>)"
| pop: "i < length (threads tp) \<Longrightarrow> threads tp ! i = WPop w \<Longrightarrow> queue tp = v # vs \<Longrightarrow>
    worker_step i tp (tp\<lparr>queue := vs, popped := popped tp @ [v], threads := (threads tp)[i := WUnlock w]\<rparr>)"
| unlock: "i < length (threads tp) \<Longrightarrow> threads tp ! i = WUnlock w \<Longrightarrow>
    worker_step i tp (tp\<lparr>mu := Free, threads := (threads tp)[i := WRun w]\<rparr>)"
| run: "i < length (threads tp) \<Longrightarrow> threads tp ! i = WRun w \<Longrightarrow>
    worker_step i tp (tp\<lparr>ran := ran tp @ [w], threads := (threads tp)[i := WLock]\<rparr>)"

inductive queue_step :: "'w ThreadPool \<Rightarrow> 'w ThreadPool \<Rightarrow> bool" where
  plock: "caller tp = PLock w \<Longrightarrow> mu tp = Free \<Longrightarrow> queue_step tp (tp\<lparr>mu := Producer, caller := PPush w\<rparr>)"
| push: "caller tp = PPush w \<Longrightarrow>
    queue_step tp (tp\<lparr>queue := queue tp @ [w], pushed := pushed tp @ [w], caller := PSignal\<rparr>)"
| signal_one: "caller tp = PSignal \<Longrightarrow> i < length (threads tp) \<Longrightarrow> threads tp ! i = WBlocked \<Longrightarrow>
    queue_step tp (tp\<lparr>threads := (threads tp)[i := WWoken], caller := PUnlock\<rparr>)"
| signal_none: "caller tp = PSignal \<Longrightarrow> WBlocked \<notin> set (threads tp) \<Longrightarrow>
    queue_step tp (tp\<lparr>caller := PUnlock\<rparr>)"
| punlock: "caller tp = PUnlock \<Longrightarrow> queue_step tp (tp\<lparr>mu := Free, caller := PIdle\<rparr>)"

text \<open>A call of \<open>thread_pool_queue\<close> by the event loop starts when the previous one has returned.\<close>

definition thread_pool_queue :: "'w \<Rightarrow> 'w ThreadPool \<Rightarrow> 'w ThreadPool option" where
  "thread_pool_queue w tp = (if caller tp = PIdle then Some (tp\<lparr>caller := PLock w\<rparr>) else None)"

inductive pool_step :: "'w ThreadPool \<Rightarrow> 'w ThreadPool \<Rightarrow> bool" where
  worker: "worker_step i tp tp' \<Longrightarrow> pool_step tp tp'"
| producer: "queue_step tp tp' \<Longrightarrow> pool_step tp tp'"

text \<open>\<open>reachable n tp\<close>: the states of a pool in which \<open>n\<close> workers, at least one, were started.\<close>

inductive reachable :: "nat \<Rightarrow> 'w ThreadPool \<Rightarrow> bool" for n where
  init: "thread_pool_init 0 0 create_rv m = ret tp \<Longrightarrow> length (threads tp) = n \<Longrightarrow> 0 < n \<Longrightarrow> reachable n tp"
| step: "reachable n tp \<Longrightarrow> pool_step tp tp' \<Longrightarrow> reachable n tp'"
| call: "reachable n tp \<Longrightarrow> thread_pool_queue w tp = Some tp' \<Longrightarrow> reachable n tp'"

section \<open>Invariants\<close>

fun in_worker_section :: "'w worker_pc \<Rightarrow> bool" where
  "in_worker_section WTest = True"
| "in_worker_section (WPop w) = True"
| "in_worker_section (WUnlock w) = True"
| "in_worker_section _ = False"

fun in_producer_section :: "'w producer_pc \<Rightarrow> bool" where
  "in_producer_section (PPush w) = True"
| "in_producer_section PSignal = True"
| "in_producer_section PUnlock = True"
| "in_producer_section _ = False"

fun in_hand :: "'w worker_pc \<Rightarrow> 'w multiset" where
  "in_hand (WUnlock w) = {#w#}"
| "in_hand (WRun w) = {#w#}"
| "in_hand _ = {#}"

text \<open>A thread is between its lock and its unlock exactly when it owns the mutex.\<close>

definition exclusive :: "'w ThreadPool \<Rightarrow> bool" where
  "exclusive tp \<longleftrightarrow> (\<forall>i < length (threads tp). in_worker_section (threads tp ! i) \<longleftrightarrow> mu tp = Worker i) \<and>
     (in_producer_section (caller tp) \<longleftrightarrow> mu tp = Producer) \<and>
     (\<forall>i. mu tp = Worker i \<longrightarrow> i < length (threads tp))"

definition front_held :: "'w ThreadPool \<Rightarrow> bool" where
  "front_held tp \<longleftrightarrow> (\<forall>i < length (threads tp). \<forall>w. threads tp ! i = WPop w \<longrightarrow> (\<exists>ws. queue tp = w # ws))"

definition fifo :: "'w ThreadPool \<Rightarrow> bool" where
  "fifo tp \<longleftrightarrow> pushed tp = popped tp @ queue tp"

definition accounted :: "'w ThreadPool \<Rightarrow> bool" where
  "accounted tp \<longleftrightarrow> mset (popped tp) = mset (ran tp) + sum_list (map in_hand (threads tp))"

definition no_lost_wakeup :: "'w ThreadPool \<Rightarrow> bool" where
  "no_lost_wakeup tp \<longleftrightarrow> (queue tp \<noteq> [] \<longrightarrow> (\<exists>x \<in> set (threads tp). x \<noteq> WBlocked) \<or> caller tp = PSignal)"

definition pool_inv :: "nat \<Rightarrow> 'w ThreadPool \<Rightarrow> bool" where
  "pool_inv n tp \<longleftrightarrow> length (threads tp) = n \<and> 0 < n \<and> exclusive tp \<and> front_held tp \<and> fifo tp \<and>
     accounted tp \<and> no_lost_wakeup tp"

inductive_cases worker_stepE: "worker_step i tp tp'"
inductive_cases queue_stepE: "queue_step tp tp'"
inductive_simps pool_step_simps: "pool_step tp tp'"

lemma sum_in_hand_upd:
  "i < length xs \<Longrightarrow> sum_list (map in_hand (xs[i := x])) + in_hand (xs ! i) = sum_list (map in_hand xs) + in_hand x"
proof (induction xs arbitrary: i)
  case (Cons y ys)
  then show ?case by (cases i) (simp_all add: ac_simps)
qed simp

lemma sum_in_hand_none: "sum_list (map (\<lambda>_. {#}) xs) = {#}"
  by (induction xs) simp_all

lemma init_inv: "thread_pool_init 0 0 create_rv m = ret tp \<Longrightarrow> length (threads tp) = n \<Longrightarrow> 0 < n \<Longrightarrow> pool_inv n tp"
  by (cases "m > 0") (auto simp: thread_pool_init_def pool_inv_def exclusive_def front_held_def fifo_def
      accounted_def no_lost_wakeup_def comp_def sum_in_hand_none)

lemma call_inv: "pool_inv n tp \<Longrightarrow> thread_pool_queue w tp = Some tp' \<Longrightarrow> pool_inv n tp'"
  by (auto simp: thread_pool_queue_def pool_inv_def exclusive_def front_held_def fifo_def accounted_def
      no_lost_wakeup_def split: if_splits)

subsection \<open>Steps of a worker\<close>

lemma worker_exclusive: "worker_step i tp tp' \<Longrightarrow> exclusive tp \<Longrightarrow> exclusive tp'"
  by (erule worker_stepE) (auto simp: exclusive_def nth_list_update)

lemma worker_front_held:
  assumes "worker_step i tp tp'" "exclusive tp" "front_held tp"
  shows "front_held tp'"
  using assms(1)
proof cases
  case (pop w v vs)
  have "threads tp ! j \<noteq> WPop u" if "j < length (threads tp)" "j \<noteq> i" for j u
  proof
    assume "threads tp ! j = WPop u"
    then have "mu tp = Worker j" "mu tp = Worker i"
      using assms(2) that pop by (auto simp: exclusive_def)
    then show False using that by simp
  qed
  then show ?thesis unfolding front_held_def using pop by (auto simp: nth_list_update)
qed (use assms(3) in \<open>auto simp: front_held_def nth_list_update\<close>)

lemma worker_fifo: "worker_step i tp tp' \<Longrightarrow> fifo tp \<Longrightarrow> fifo tp'"
  by (erule worker_stepE) (auto simp: fifo_def)

lemma worker_accounted:
  assumes "worker_step i tp tp'" "front_held tp" "accounted tp"
  shows "accounted tp'"
  using assms(1)
proof cases
  case (pop w v vs)
  then have "v = w" using assms(2) by (auto simp: front_held_def)
  then show ?thesis using pop assms(3) sum_in_hand_upd [of i "threads tp" "WUnlock w"] by (simp add: accounted_def)
next
  case (run w)
  then show ?thesis using assms(3) sum_in_hand_upd [of i "threads tp" WLock] by (simp add: accounted_def)
next
  case lock
  then show ?thesis using assms(3) sum_in_hand_upd [of i "threads tp" WTest] by (simp add: accounted_def)
next
  case wait
  then show ?thesis using assms(3) sum_in_hand_upd [of i "threads tp" WBlocked] by (simp add: accounted_def)
next
  case spurious
  then show ?thesis using assms(3) sum_in_hand_upd [of i "threads tp" WWoken] by (simp add: accounted_def)
next
  case relock
  then show ?thesis using assms(3) sum_in_hand_upd [of i "threads tp" WTest] by (simp add: accounted_def)
next
  case (front w ws)
  then show ?thesis using assms(3) sum_in_hand_upd [of i "threads tp" "WPop w"] by (simp add: accounted_def)
next
  case (unlock w)
  then show ?thesis using assms(3) sum_in_hand_upd [of i "threads tp" "WRun w"] by (simp add: accounted_def)
qed

lemma awake_upd: "i < length xs \<Longrightarrow> x \<noteq> WBlocked \<Longrightarrow> \<exists>y \<in> set (xs[i := x]). y \<noteq> WBlocked"
  by (meson set_update_memI)

lemma worker_no_lost_wakeup: "worker_step i tp tp' \<Longrightarrow> no_lost_wakeup tp \<Longrightarrow> no_lost_wakeup tp'"
  by (erule worker_stepE) (simp_all add: no_lost_wakeup_def awake_upd)

lemmas worker_keeps = worker_exclusive worker_front_held worker_fifo worker_accounted worker_no_lost_wakeup

lemma worker_length: "worker_step i tp tp' \<Longrightarrow> length (threads tp') = length (threads tp)"
  by (erule worker_stepE) simp_all

lemma worker_inv: "worker_step i tp tp' \<Longrightarrow> pool_inv n tp \<Longrightarrow> pool_inv n tp'"
  using worker_keeps worker_length unfolding pool_inv_def by metis

subsection \<open>Steps of the producer\<close>

lemma queue_exclusive: "queue_step tp tp' \<Longrightarrow> exclusive tp \<Longrightarrow> exclusive tp'"
  by (erule queue_stepE) (auto simp: exclusive_def nth_list_update)

lemma queue_front_held: "queue_step tp tp' \<Longrightarrow> front_held tp \<Longrightarrow> front_held tp'"
  by (erule queue_stepE) (fastforce simp: front_held_def nth_list_update)+

lemma queue_fifo: "queue_step tp tp' \<Longrightarrow> fifo tp \<Longrightarrow> fifo tp'"
  by (erule queue_stepE) (auto simp: fifo_def)

lemma queue_accounted: "queue_step tp tp' \<Longrightarrow> accounted tp \<Longrightarrow> accounted tp'"
proof (erule queue_stepE)
  fix i
  assume "accounted tp" "tp' = tp\<lparr>threads := (threads tp)[i := WWoken], caller := PUnlock\<rparr>"
    "i < length (threads tp)" "threads tp ! i = WBlocked"
  then show "accounted tp'" using sum_in_hand_upd [of i "threads tp" WWoken] by (simp add: accounted_def)
qed (simp_all add: accounted_def)

lemma queue_no_lost_wakeup:
  assumes "queue_step tp tp'" "threads tp \<noteq> []" "no_lost_wakeup tp"
  shows "no_lost_wakeup tp'"
  using assms(1)
proof cases
  case signal_none
  then have "hd (threads tp) \<noteq> WBlocked" using assms(2) hd_in_set by metis
  then show ?thesis using signal_none assms(2) hd_in_set by (auto simp: no_lost_wakeup_def)
qed (use assms(3) in \<open>auto simp: no_lost_wakeup_def awake_upd\<close>)

lemma queue_length: "queue_step tp tp' \<Longrightarrow> length (threads tp') = length (threads tp)"
  by (erule queue_stepE) simp_all

lemma queue_inv: "queue_step tp tp' \<Longrightarrow> pool_inv n tp \<Longrightarrow> pool_inv n tp'"
  using queue_exclusive queue_front_held queue_fifo queue_accounted queue_no_lost_wakeup queue_length
  unfolding pool_inv_def by (metis list.size(3) less_irrefl)

lemma reachable_inv: "reachable n tp \<Longrightarrow> pool_inv n tp"
proof (induction rule: reachable.induct)
  case (step tp tp')
  then show ?case by (auto simp: pool_step_simps intro: worker_inv queue_inv)
qed (auto intro: init_inv call_inv)

section \<open>Progress\<close>

text \<open>As long as a job is queued, some thread can take a step; no job is left behind by sleeping workers.\<close>

lemma section_enabled:
  assumes "i < length (threads tp)" "in_worker_section (threads tp ! i)" "front_held tp"
  shows "\<exists>tp'. worker_step i tp tp'"
proof (cases "threads tp ! i")
  case WTest
  then show ?thesis using assms(1) by (cases "queue tp") (auto intro: wait front)
next
  case (WPop w)
  then obtain ws where "queue tp = w # ws" using assms(1,3) by (auto simp: front_held_def)
  then show ?thesis using WPop assms(1) by (auto intro: pop)
qed (use assms in \<open>auto intro: unlock\<close>)

lemma awake_enabled:
  assumes "i < length (threads tp)" "threads tp ! i \<noteq> WBlocked" "mu tp = Free" "exclusive tp"
  shows "\<exists>tp'. worker_step i tp tp'"
proof -
  have "\<not> in_worker_section (threads tp ! i)" using assms(1,3,4) by (simp add: exclusive_def)
  then show ?thesis using assms(1-3) by (cases "threads tp ! i") (auto intro: lock relock run)
qed

lemma producer_enabled: "in_producer_section (caller tp) \<Longrightarrow> \<exists>tp'. queue_step tp tp'"
proof (cases "caller tp")
  case PSignal
  show ?thesis
  proof (cases "WBlocked \<in> set (threads tp)")
    case True
    then show ?thesis using PSignal by (auto simp: in_set_conv_nth intro: signal_one)
  qed (use PSignal in \<open>auto intro: signal_none\<close>)
qed (auto intro: push punlock)

lemma queued_job_enabled:
  assumes inv: "pool_inv n tp" and "queue tp \<noteq> []"
  shows "\<exists>tp'. pool_step tp tp'"
proof (cases "mu tp")
  case Free
  have "caller tp \<noteq> PSignal" using inv Free by (auto simp: pool_inv_def exclusive_def)
  then obtain i where "i < length (threads tp)" "threads tp ! i \<noteq> WBlocked"
    using inv assms(2) by (auto simp: pool_inv_def no_lost_wakeup_def in_set_conv_nth)
  then show ?thesis using awake_enabled Free inv pool_step.worker by (metis pool_inv_def)
next
  case Producer
  then have "in_producer_section (caller tp)" using inv by (simp add: pool_inv_def exclusive_def)
  then show ?thesis using producer_enabled pool_step.producer by metis
next
  case (Worker i)
  then have "i < length (threads tp)" "in_worker_section (threads tp ! i)"
    using inv by (auto simp: pool_inv_def exclusive_def)
  then show ?thesis using section_enabled inv pool_step.worker by (metis pool_inv_def)
qed

end
