(* ===== verification/Startup.thy ===== *)
theory Startup
  imports Event_Loop_Reach Thread_Pool
begin

unbundle bit_operations_syntax

text \<open>
  The \<open>main\<close> function of \<open>server.cpp\<close> from its start: the listening socket, the idle list and the thread
  pool are set up, and the loop is entered. The results of \<open>pthread_mutex_init\<close>, \<open>pthread_cond_init\<close> and \<open>pthread_create\<close>
  and the memory of the list head are arguments. \<open>server_main\<close> is the run up to the end of the \<open>n\<close>-th
  iteration of the endless loop.
\<close>

section \<open>Definitions\<close>

text \<open>Port 1234 on every local address.\<close>

definition server_addr :: sockaddr_in where
  "server_addr = \<lparr>sin_port = ntohs 1234, sin_addr = ntohl 0\<rparr>"

definition server_start ::
  "'k os \<Rightarrow> addr \<Rightarrow> DList \<Rightarrow> int \<Rightarrow> int \<Rightarrow> (nat \<Rightarrow> int) \<Rightarrow> 'k \<Rightarrow> (int \<times> addr ThreadPool \<times> 'k loop) exec" where
  "server_start os idle raw mutex_rv cond_rv create_rv k =
     (case sys_socket os k of (lfd, _, k) \<Rightarrow>
      let k = sys_setsockopt os k lfd in
      bindE (loop_init idle raw k) (\<lambda>st.
      bindE (thread_pool_init mutex_rv cond_rv create_rv 4) (\<lambda>tp.
      case sys_bind os (kern st) lfd server_addr of (rv, err, k) \<Rightarrow>
      if rv \<noteq> 0 then die err ''bind()''
      else
        case sys_listen os k lfd of (rv, err, k) \<Rightarrow>
        if rv \<noteq> 0 then die err ''listen()''
        else bindE (fd_set_nb os k lfd) (\<lambda>k. ret (lfd, tp, st\<lparr>kern := k\<rparr>)))))"

definition server_main ::
  "'k os \<Rightarrow> addr \<Rightarrow> DList \<Rightarrow> int \<Rightarrow> int \<Rightarrow> (nat \<Rightarrow> int) \<Rightarrow> nat \<Rightarrow> 'k \<Rightarrow> 'k loop exec" where
  "server_main os idle raw mutex_rv cond_rv create_rv n k =
     bindE (server_start os idle raw mutex_rv cond_rv create_rv k) (\<lambda>(lfd, tp, st). loop_run os lfd n st)"

section \<open>Starting\<close>

lemma server_start_served:
  assumes os: "os_ok os sent pending clk opened"
  shows "(\<exists>lfd tp st. server_start os idle raw 0 0 create_rv k = ret (lfd, tp, st) \<and> ((\<exists>i < 4. create_rv i = 0) \<longrightarrow> reachable (length (threads tp)) tp) \<and> served_ok pending clk opened ks ns st Map.empty) \<or>
    (\<exists>m \<in> {''bind()'', ''listen()'', ''fcntl error''}. dies os (server_start os idle raw 0 0 create_rv k) m)"
proof -
  obtain lfd e0 k0 where so: "sys_socket os k = (lfd, e0, k0)" by (cases "sys_socket os k")
  obtain st where st: "loop_init idle raw (sys_setsockopt os k0 lfd) = ret st" "loop_ok 0 st [] Map.empty" "conns st = Map.empty"
    using loop_init_ok [of idle raw "sys_setsockopt os k0 lfd"] by blast
  obtain tp :: "addr ThreadPool" where tp: "thread_pool_init 0 0 create_rv 4 = ret tp" by (simp add: thread_pool_init_def)
  obtain r1 e1 k1 where b: "sys_bind os (kern st) lfd server_addr = (r1, e1, k1)" by (cases "sys_bind os (kern st) lfd server_addr")
  obtain r2 e2 k2 where l: "sys_listen os k1 lfd = (r2, e2, k2)" by (cases "sys_listen os k1 lfd")
  have run: "server_start os idle raw 0 0 create_rv k = (if r1 \<noteq> 0 then die e1 ''bind()'' else if r2 \<noteq> 0 then die e2 ''listen()''
      else bindE (fd_set_nb os k2 lfd) (\<lambda>k. ret (lfd, tp, st\<lparr>kern := k\<rparr>)))"
    using so st(1) tp b l by (simp add: server_start_def Let_def)
  have "served_ok pending clk opened ks ns (st\<lparr>kern := k'\<rparr>) Map.empty" for k'
    using served_init [OF loop_ok_kern [OF st(2)]] st(3) by simp
  moreover have "(\<exists>i < 4. create_rv i = 0) \<longrightarrow> reachable (length (threads tp)) tp"
  proof
    assume "\<exists>i < 4. create_rv i = 0"
    then have "filter (\<lambda>i. create_rv i = 0) [0..<4] \<noteq> []" by (auto simp: filter_empty_conv)
    then have "0 < length (threads tp)" using tp by (auto simp: thread_pool_init_def)
    then show "reachable (length (threads tp)) tp" using reachable.init [OF tp refl] by blast
  qed
  moreover have "\<not> obliging os" if "r1 \<noteq> 0 \<or> r2 \<noteq> 0" using that b l unfolding obliging_def by (metis fst_conv)
  ultimately show ?thesis using run fd_set_nb_calm [OF os, of k2 lfd]
    by (cases "r1 = 0"; cases "r2 = 0") (auto intro: dies_die dies_bindE)
qed

text \<open>
  The whole run. The process ends only by \<open>die\<close>, when a system call that it can not do without
  fails; otherwise every iteration returns, in a consistent state.
\<close>

definition fatal :: "string set" where
  "fatal = {''bind()'', ''listen()'', ''fcntl error'', ''poll''}"

lemma server_main_served:
  assumes os: "os_ok os sent pending clk opened" and net: "net_ok (net os) sent pending intr" "fresh_alloc (net os)"
    and pol: "polite os pending ks ns" and mem: "fresh_conn os" and v: "small_vocab ks ns"
  shows "(\<exists>st M. server_main os idle raw 0 0 create_rv n k = ret st \<and> served_ok pending clk opened ks ns st M) \<or>
    (\<exists>m \<in> fatal. dies os (server_main os idle raw 0 0 create_rv n k) m)"
  using server_start_served [OF os, where idle = idle and raw = raw and create_rv = create_rv and k = k and ks = ks and ns = ns]
proof (elim disjE exE conjE)
  fix lfd tp st
  assume s: "server_start os idle raw 0 0 create_rv k = ret (lfd, tp, st)" "served_ok pending clk opened ks ns st Map.empty"
  then show ?thesis using loop_run_served [OF os net pol mem v s(2), of lfd n] by (auto simp: server_main_def fatal_def)
next
  assume "\<exists>m \<in> {''bind()'', ''listen()'', ''fcntl error''}. dies os (server_start os idle raw 0 0 create_rv k) m"
  then show ?thesis unfolding server_main_def fatal_def using dies_bindE by blast
qed

text \<open>
  After any number of iterations, the descriptors in use are those from before the loop and those of the
  connections.
\<close>

lemma loop_after_start:
  assumes os: "os_ok os sent pending clk opened" and net: "net_ok (net os) sent pending intr" "fresh_alloc (net os)"
    and pol: "polite os pending ks ns" and mem: "fresh_conn os" and v: "small_vocab ks ns"
    and start: "server_start os idle raw 0 0 create_rv k = ret (lfd, tp, st0)" and run: "loop_run os lfd n st0 = ret st"
  shows "\<exists>H M. served_ok pending clk opened ks ns st M \<and> replays Map.empty H M" "opened (kern st) \<subseteq> opened (kern st0) \<union> conn_fds st"
proof -
  have "served_ok pending clk opened ks ns st0 Map.empty"
    using server_start_served [OF os, where idle = idle and raw = raw and create_rv = create_rv and k = k and ks = ks and ns = ns] start by (auto simp: dies_def)
  then have "(\<exists>H M. served_ok pending clk opened ks ns st M \<and> replays Map.empty H M) \<and> tidy opened st0 st"
    using loop_run_served [OF os net pol mem v, of st0 Map.empty lfd n] run by (auto simp: dies_def)
  then show "\<exists>H M. served_ok pending clk opened ks ns st M \<and> replays Map.empty H M" "opened (kern st) \<subseteq> opened (kern st0) \<union> conn_fds st"
    by (auto simp: tidy_def)
qed

text \<open>
  The sequential meaning of the run: after \<open>n\<close> iterations the server stands for the key space that the
  history of served requests leads to, and the next iteration continues this history. The connections
  are compared before an iteration and after its timers, when a new one may be accepted.
\<close>

lemma loop_history:
  assumes os: "os_ok os sent pending clk opened" and net: "net_ok (net os) sent pending intr" "fresh_alloc (net os)"
    and pol: "polite os pending ks ns" and mem: "fresh_conn os" and v: "small_vocab ks ns"
    and start: "server_start os idle raw 0 0 create_rv k = ret (lfd, tp, st0)" and run: "loop_run os lfd n st0 = ret st"
    and body: "loop_body os lfd st = ret st'"
  obtains H0 M H M' st2 where "replays Map.empty H0 M" "server_at (srv st) M" "replays M H M'" "server_at (srv st') M'"
    "st' = st2 \<or> (\<exists>rv. accept_new_conn os lfd st2 = ret (rv, st'))" "follows sent pending st H st2"
proof -
  obtain H0 M where a: "served_ok pending clk opened ks ns st M" "replays Map.empty H0 M"
    using loop_after_start(1) [OF os net pol mem v start run] by blast
  obtain st2 H M' where b: "evolved sent pending opened st M H st2 M'" "served_ok pending clk opened ks ns st' M'"
    "st' = st2 \<or> (\<exists>rv. accept_new_conn os lfd st2 = ret (rv, st'))"
    using loop_body_served [OF os net pol mem v a(1), of lfd] body by (auto simp: dies_def)
  have "server_at (srv st) M" "server_at (srv st') M'" using a(1) b(2) unfolding served_ok_def loop_ok_def by blast+
  then show thesis using that a(2) b(1,3) unfolding evolved_def by blast
qed

section \<open>The address\<close>

text \<open>In memory the port is the two bytes 4 and 210 in this order, 1234 in network byte order.\<close>

lemma server_port: "le_bytes 2 (sin_port server_addr) = [4, 210]" "4 * 256 + 210 = (1234 :: nat)"
  by code_simp+

end
