(* ===== verification/Response_Size.thy ===== *)
theory Response_Size
  imports Event_Loop_Reach
begin

text \<open>
  How large responses get. Requests bound the lengths of the keys, values and names that get into the key
  space, so every response is far below the \<open>2 ^ 32\<close> bytes at which a length field would wrap; the
  response that is sent is the one that was computed, or the error that replaces it when it is larger
  than a message may be.
\<close>

definition short_item :: "item \<Rightarrow> bool" where
  "short_item it \<longleftrightarrow> length (it_val it) \<le> K_MAX_MSG \<and> (\<forall>Z nm. it_set it = Some Z \<longrightarrow> nm \<in> dom Z \<longrightarrow> length nm \<le> K_MAX_MSG)"

definition short :: "keyspace \<Rightarrow> bool" where
  "short M \<longleftrightarrow> (\<forall>k it. M k = Some it \<longrightarrow> length k \<le> K_MAX_MSG \<and> short_item it)"

lemma short_empty [simp]: "short Map.empty"
  by (simp add: short_def)

lemma short_upd: "short M \<Longrightarrow> length k \<le> K_MAX_MSG \<Longrightarrow> short_item it \<Longrightarrow> short (M(k \<mapsto> it))"
  by (auto simp: short_def)

lemma shortD: "short M \<Longrightarrow> M k = Some it \<Longrightarrow> length k \<le> K_MAX_MSG \<and> short_item it"
  by (auto simp: short_def)

lemma short_base: "short M \<Longrightarrow> short_item (zadd_base (M k))"
  by (auto simp: zadd_base_def short_item_def short_def split: option.splits)

lemma short_set_upd:
  "short_item it \<Longrightarrow> it_set it = Some Z \<Longrightarrow> length nm \<le> K_MAX_MSG \<Longrightarrow> short_item (it\<lparr>it_set := Some (Z(nm := x))\<rparr>)"
  by (cases x) (auto simp: short_item_def split: if_splits)

lemma serves_short:
  assumes "serves M cmd v M'" "short M" "small_args cmd"
  shows "short M'"
  using assms
proof (induction rule: serves.induct)
  case (set c M k v)
  have "short_item (set_item (M k) v)" using set shortD [of M k]
    by (auto simp: set_item_def short_item_def small_args_def split: option.splits)
  moreover have "length k \<le> K_MAX_MSG" using set by (simp add: small_args_def)
  ultimately show ?case using set(2) short_upd by blast
next
  case (del c M k)
  then show ?case by (auto simp: del_spec_def short_def)
next
  case (zadd c M k sc nm)
  have "length k \<le> K_MAX_MSG" "length nm \<le> K_MAX_MSG" using zadd by (simp_all add: small_args_def)
  then show ?case using zadd(2) short_base [of M k] short_set_upd short_upd
    by (auto simp: zadd_spec_def Let_def split: prod.splits option.splits)
next
  case (zrem c M k nm)
  have "length k \<le> K_MAX_MSG" "length nm \<le> K_MAX_MSG" using zrem by (simp_all add: small_args_def)
  then show ?case using zrem(2) shortD [of M k] short_set_upd short_upd
    by (auto simp: zrem_spec_def split: option.splits)
qed simp_all

lemma sum_list_le: "(\<And>v. v \<in> set vs \<Longrightarrow> val_size v \<le> b) \<Longrightarrow> sum_list (map val_size vs) \<le> length vs * b"
  by (induction vs) (simp_all add: add_mono)

definition RES_MAX :: nat where "RES_MAX = 5 + 62 * (9 + K_MAX_MSG)"

lemma arr_size:
  assumes "length vs \<le> 62" "\<And>v. v \<in> set vs \<Longrightarrow> val_size v \<le> 9 + K_MAX_MSG"
  shows "val_size (VArr vs) \<le> RES_MAX"
proof -
  have "sum_list (map val_size vs) \<le> length vs * (9 + K_MAX_MSG)" using sum_list_le assms(2) by blast
  also have "\<dots> \<le> 62 * (9 + K_MAX_MSG)" using assms(1) by (rule mult_le_mono1)
  finally show ?thesis by (simp add: RES_MAX_def)
qed

lemma window_size:
  assumes "ranked Z xs" "card (dom Z) + 1 < 32" "\<And>nm. nm \<in> dom Z \<Longrightarrow> length nm \<le> K_MAX_MSG"
  shows "val_size (VArr (zpairs (zwindow xs sc nm off lim))) \<le> RES_MAX"
proof (rule arr_size)
  have "dom Z = fst ` set xs" "distinct (map fst xs)" using assms(1) by (simp_all add: ranked_def dom_map_of_conv_image_fst [symmetric])
  then have len: "length xs = card (dom Z)" using distinct_card [of "map fst xs"] by simp
  have sub: "set (zwindow xs sc nm off lim) \<subseteq> set xs" "length (zwindow xs sc nm off lim) \<le> length xs"
    using set_take_subset set_drop_subset by (fastforce simp: zwindow_def Let_def)+
  show "length (zpairs (zwindow xs sc nm off lim)) \<le> 62" using sub(2) len assms(2) by (simp add: length_zpairs)
  fix v assume "v \<in> set (zpairs (zwindow xs sc nm off lim))"
  then obtain x where x: "x \<in> set xs" "v = VStr (fst x) \<or> v = VDbl (snd x)" using sub(1) by (auto simp: zpairs_def)
  then have "length (fst x) \<le> K_MAX_MSG" using assms(3) \<open>dom Z = fst ` set xs\<close> by blast
  then show "val_size v \<le> 9 + K_MAX_MSG" using x(2) by auto
qed

lemma served_size:
  assumes "serves M cmd v M'" "short M" "roomy M"
  shows "val_size v \<le> RES_MAX"
  using assms
proof (induction rule: serves.induct)
  case (keys c ks M)
  have "length ks = card (dom M)" using keys(2,3) distinct_card by metis
  then have "length (map VStr ks) \<le> 62" using keys(5) by (simp add: roomy_def)
  moreover have "val_size v \<le> 9 + K_MAX_MSG" if "v \<in> set (map VStr ks)" for v
    using that keys(3,4) shortD by fastforce
  ultimately show ?case by (rule arr_size)
next
  case (get c M k)
  then show ?case using shortD [of M k] by (auto simp: get_spec_def short_item_def RES_MAX_def K_MAX_MSG_def split: option.splits)
next
  case (zquery c M k sc nm off lim r)
  have "val_size (VArr (zpairs (zwindow xs a nm b d))) \<le> RES_MAX" if "M k = Some it" "it_set it = Some Z" "ranked Z xs" for it Z xs a b d
    using that zquery(3,4) shortD [of M k it] unfolding short_item_def roomy_def by (intro window_size) blast+
  then show ?case using zquery(2)
    by (auto simp: zquery_spec_def RES_MAX_def lit_def K_MAX_MSG_def split: if_splits option.splits)
qed (auto simp: del_spec_def zadd_spec_def zrem_spec_def zscore_spec_def Let_def RES_MAX_def K_MAX_MSG_def lit_def split: prod.splits option.splits)

text \<open>What the server sends fits a message, and is read by the client as the value it is.\<close>

lemma reply_size:
  assumes "serves M cmd v M'" "short M" "roomy M"
  shows "val_size (reply v) \<le> K_MAX_MSG"
proof -
  have "val_size v < 2 ^ 32" using served_size [OF assms] by (simp add: RES_MAX_def K_MAX_MSG_def)
  then show ?thesis using length_encode [of v] by (auto simp: reply_def lit_def K_MAX_MSG_def)
qed

lemma reply_id: "val_size v + 4 \<le> K_MAX_MSG \<Longrightarrow> reply v = v"
  using length_encode [of v] by (simp add: reply_def K_MAX_MSG_def)

end
