(* ===== verification/Answer.thy ===== *)
theory Answer
  imports Response_Size
begin

text \<open>
  A request is answered. On a connection that works, however the kernel cuts the request into pieces, the
  wake-up in which its last byte is read sends the whole response, whatever the event loop's other
  connections do; the connection is then idle again.
\<close>

section \<open>A stream determines its requests\<close>

lemma req_image_nonempty [simp]: "req_image cmd \<noteq> []"
  using length_req_payload [of cmd] by (force simp: req_image_def)

lemma req_image_prefix:
  assumes "req_image a @ xs = req_image b @ ys" and a: "length (req_payload a) \<le> K_MAX_MSG" and b: "length (req_payload b) \<le> K_MAX_MSG"
  shows "a = b \<and> xs = ys"
proof -
  let ?n = "\<lambda>c. of_nat (length (req_payload c)) :: u32"
  have "le32 (?n a) @ req_payload a @ xs = le32 (?n b) @ req_payload b @ ys" using assms(1) by (simp add: req_image_def)
  then have e: "le32 (?n a) = le32 (?n b)" "req_payload a @ xs = req_payload b @ ys" by (metis append_eq_append_conv length_le32)+
  then have "unat (?n a) = unat (?n b)" by (metis word_of_le32)
  moreover have "unat (?n a) = length (req_payload a)" "unat (?n b) = length (req_payload b)"
    using a b by (intro unat_of_nat_u32; simp add: K_MAX_MSG_def)+
  ultimately have "length (req_payload a) = length (req_payload b)" by simp
  then have p: "req_payload a = req_payload b" "xs = ys" using e(2) by (metis append_eq_append_conv)+
  have args: "length c \<le> K_MAX_ARGS" if "length (req_payload c) \<le> K_MAX_MSG" for c :: "bytes list"
    using that args_image_bounds(1) [of c] by (simp add: length_req_payload K_MAX_ARGS_def K_MAX_MSG_def)
  have "ret (0, a) = ret (0 :: int, b)"
    using parse_req_payload [OF args [OF a] a, of "[]" "[]"] parse_req_payload [OF args [OF b] b, of "[]" "[]"] p(1) by simp
  then show ?thesis using p(2) by simp
qed

lemma small_payload:
  assumes "concat (map req_image cmds) @ rest = req_image cmd" "length (req_payload cmd) \<le> K_MAX_MSG" "c \<in> set cmds"
  shows "length (req_payload c) \<le> K_MAX_MSG"
proof -
  have "length (req_image c) \<le> length (concat (map req_image cmds))" using assms(3) by (induction cmds) auto
  also have "\<dots> \<le> length (req_image cmd)" using arg_cong [OF assms(1), of length] by simp
  finally show ?thesis using assms(2) by (simp add: req_image_def)
qed

lemma one_request:
  assumes eq: "concat (map req_image cmds) @ rest = req_image cmd" and len: "length (req_payload cmd) \<le> K_MAX_MSG"
  shows "cmds = [] \<and> rest = req_image cmd \<or> cmds = [cmd] \<and> rest = []"
proof (cases cmds)
  case (Cons a as)
  have "req_image a @ concat (map req_image as) @ rest = req_image cmd @ []" using eq Cons by simp
  then have "a = cmd \<and> concat (map req_image as) @ rest = []"
    using req_image_prefix small_payload [OF eq len] len Cons by (metis list.set_intros(1))
  then show ?thesis using Cons by (cases as) auto
qed (use eq in simp)

lemma complete_request: "length (req_payload cmd) \<le> K_MAX_MSG \<Longrightarrow> \<not> incomplete (req_image cmd)"
  by (simp add: incomplete_def req_image_def unat_of_nat_u32 K_MAX_MSG_def)

lemma vocab_one: "allowed ks ns cmd \<Longrightarrow> length (req_payload cmd) \<le> K_MAX_MSG \<Longrightarrow> vocab ks ns (req_image cmd)"
  using one_request unfolding vocab_def by (metis list.set_cases list.distinct(1) set_ConsD empty_iff empty_set)

section \<open>A working connection\<close>

text \<open>
  On the descriptor \<open>f\<close> writes are accepted, if only in part; reads do not fail, and the peer does not close
  its end.
\<close>

definition healthy :: "'k env \<Rightarrow> nat \<Rightarrow> bool" where
  "healthy env f \<longleftrightarrow> (\<forall>k buf. buf \<noteq> [] \<longrightarrow> (\<exists>n. fst (sys_write env k f buf) = Count n)) \<and>
     (\<forall>k cap. 0 < cap \<longrightarrow> fst (sys_read env k f cap) \<noteq> Eother \<and> fst (sys_read env k f cap) \<noteq> Count 0)"

lemma try_flush_healthy:
  assumes h: "healthy env (fd c)" and ok: "conn_ok c" "state c = STATE_RES" and run: "try_flush_buffer env k c = ret (b, k', c')"
  shows "\<not> b \<Longrightarrow> state c' = STATE_REQ"
proof -
  note eq = try_flush_eq(1) [OF ok, of env k] try_flush_eq(2) [OF ok]
  have "unsent c \<noteq> []" using eq(2) by auto
  then obtain n k1 where "sys_write env k (fd c) (unsent c) = (Count n, k1)" using h unfolding healthy_def by (metis prod.collapse)
  then have "write_retry env k (fd c) (unsent c) = ret (Count n, k1)" by (subst write_retry.simps) simp
  then show "\<not> b \<Longrightarrow> state c' = STATE_REQ" using run eq(1) by (auto simp: bindE_eq_ret_iff split: if_splits)
qed

lemma state_res_healthy:
  assumes net: "net_ok env sent pending intr" and h: "healthy env f"
  shows "fd c = f \<Longrightarrow> conn_ok c \<Longrightarrow> state c = STATE_RES \<Longrightarrow> state_res env k c = ret (k', c') \<Longrightarrow> state c' = STATE_REQ"
proof (induction "length (unsent c)" arbitrary: k c rule: less_induct)
  case less
  obtain b k1 c1 where t: "try_flush_buffer env k c = ret (b, k1, c1)" "conn_ok c1"
    "b \<longrightarrow> state c1 = STATE_RES \<and> length (unsent c1) < length (unsent c)" "same_input c c1"
    using try_flush_ok [OF net less.prems(2,3)] by blast
  have fd: "fd c1 = f" using t(4) less.prems(1) by (simp add: same_input_def)
  show ?case
  proof (cases b)
    case True
    then have "state_res env k1 c1 = ret (k', c')" using t(1) less.prems(4) by (subst (asm) state_res.simps) simp
    then show ?thesis using less.hyps [OF _ fd t(2)] t(3) True by blast
  next
    case False
    then have "c' = c1" using t(1) less.prems(4) by (subst (asm) state_res.simps) simp
    then show ?thesis using try_flush_healthy [of env c k b k1 c1] h less.prems(1-3) t(1) False by simp
  qed
qed

lemma read_retry_healthy:
  assumes net: "net_ok env sent pending intr" and h: "healthy env f" and cap: "0 < cap"
  shows "read_retry env k f cap = ret (rv, bs, k') \<Longrightarrow> rv \<noteq> Eother \<and> rv \<noteq> Count 0"
proof (induction "intr k" arbitrary: k rule: less_induct)
  case less
  obtain r b k1 where c: "sys_read env k f cap = (r, b, k1)" by (cases "sys_read env k f cap")
  show ?case
  proof (cases "r = Eintr")
    case True
    then have "read_retry env k1 f cap = ret (rv, bs, k')" using c less.prems by (subst (asm) read_retry.simps) simp
    then show ?thesis using less.hyps net_readD(3) [OF net c True] by blast
  next
    case False
    then have "rv = r" using c less.prems by (subst (asm) read_retry.simps) simp
    then show ?thesis using h c cap unfolding healthy_def by (metis fst_conv)
  qed
qed

text \<open>On a stream that holds one request, or nothing, no step finds anything to complain about.\<close>

lemma try_one_healthy:
  assumes net: "net_ok env sent pending intr" and fresh: "fresh_alloc env" and h: "healthy env (fd c)" and at: "server_at s M" and room: "roomy M"
    and ok: "conn_ok c" "state c = STATE_REQ" and len: "length (req_payload cmd) \<le> K_MAX_MSG"
    and stream: "in_stream pending k c \<in> {req_image cmd, []}" and run: "try_one_request env s k c = ret (b, s', k', c')"
  shows "state c' = STATE_REQ"
proof -
  let ?n = "length (req_payload cmd)" and ?w = "word_of_le (take 4 (rbuf c)) :: u32"
  have lens: "length (rbuf c) = BUF_SIZE" "rbuf_size c \<le> BUF_SIZE" using ok by (simp_all add: conn_ok_def)
  have rd: "read_u32 (rbuf c) 0 = ret ?w" using lens by (simp add: read_u32_ret BUF_SIZE_def)
  have idle: ?thesis if "try_one_request env s k c = ret (False, s, k, c)" using that run ok(2) by simp
  show ?thesis
  proof (cases "rbuf_size c < 4")
    case True
    then show ?thesis by (intro idle) (simp add: try_one_request_def)
  next
    case ge: False
    then have "received c \<noteq> []" using lens by (auto simp: received_def BUF_SIZE_def)
    then have img: "received c @ pending k (fd c) = req_image cmd" using stream by (auto simp: in_stream_def)
    have "take 4 (rbuf c) = take 4 (received c @ pending k (fd c))" using ge lens by (simp add: received_def min_def)
    then have w: "unat ?w = ?n" using img len by (simp add: req_image_def unat_of_nat_u32 K_MAX_MSG_def)
    then have u: "unat (4 + ?w) = 4 + ?n" using len unat_of_nat_u32 [of "4 + ?n"] by (simp add: K_MAX_MSG_def word_unat_eq_iff unat_word_ariths)
    show ?thesis
    proof (cases "4 + ?n > rbuf_size c")
      case True
      then show ?thesis using ge rd w u len by (intro idle) (simp add: try_one_request_def)
    next
      case fits: False
      have "length (received c) = rbuf_size c" using lens by (simp add: received_def)
      then have "length (pending k (fd c)) = 0"
        using fits arg_cong [OF img, of length] unfolding req_image_def length_append length_le32 by linarith
      then have rec: "received c = req_image cmd" using img by simp
      then have "take (4 + ?n) (rbuf c) = req_image cmd" using fits by (metis \<open>length (received c) = rbuf_size c\<close> received_def req_image_def length_append length_le32)
      then have "rbuf c = req_image cmd @ drop (4 + ?n) (rbuf c)" by (metis append_take_drop_id)
      then have d4: "drop 4 (rbuf c) = req_payload cmd @ drop (4 + ?n) (rbuf c)" by (metis append_assoc append_eq_conv_conj length_le32 req_image_def)
      have args: "length cmd \<le> K_MAX_ARGS" using len args_image_bounds(1) [of cmd] by (simp add: length_req_payload K_MAX_ARGS_def K_MAX_MSG_def)
      have p: "parse_req (drop 4 (rbuf c)) (unat ?w) [] = ret (0, cmd)" "take (unat ?w) (drop 4 (rbuf c)) = req_payload cmd"
        using parse_req_payload [OF args len, of _ "[]"] d4 w by simp_all
      have le: "4 \<le> rbuf_size c" "unat ?w \<le> K_MAX_MSG" "4 + unat ?w \<le> rbuf_size c" using ge w len fits by simp_all
      obtain c1 s1 where c1: "try_one_request env s k c = bindE (state_res env k c1) (\<lambda>(k, conn). ret (state conn = STATE_REQ, s1, k, conn))"
        "conn_ok c1" "state c1 = STATE_RES" "fd c1 = fd c" by (rule handle_request_eq [OF fresh at ok room le(1) refl le(2,3) p])
      have "state_res env k c1 = ret (k', c')" using run unfolding c1(1) bindE_eq_ret_iff by auto
      then show ?thesis by (rule state_res_healthy [OF net h c1(4,2,3)])
    qed
  qed
qed

lemma advanced_one:
  assumes "advanced sent pending M k c M' k' c'" and "length (req_payload cmd) \<le> K_MAX_MSG" and "in_stream pending k c \<in> {req_image cmd, []}"
  shows "in_stream pending k' c' \<in> {req_image cmd, []}"
proof -
  obtain cmds where c: "in_stream pending k c = concat (map req_image cmds) @ in_stream pending k' c'"
    using assms(1) unfolding advanced_def by blast
  then show ?thesis using one_request [of cmds "in_stream pending k' c'" cmd] assms(2,3) by auto
qed

lemma request_loop_healthy:
  assumes net: "net_ok env sent pending intr" and fresh: "fresh_alloc env" and h: "healthy env f" and len: "length (req_payload cmd) \<le> K_MAX_MSG"
  shows "server_at s M \<Longrightarrow> conn_ok c \<Longrightarrow> state c = STATE_REQ \<Longrightarrow> stays_roomy M (in_stream pending k c) \<Longrightarrow>
    in_stream pending k c \<in> {req_image cmd, []} \<Longrightarrow> request_loop env s k c = ret (s', k', c') \<Longrightarrow> fd c = f \<Longrightarrow> state c' = STATE_REQ"
proof (induction "rbuf_size c" arbitrary: s M k c rule: less_induct)
  case less
  note room = stays_roomyD [OF less.prems(4)]
  obtain b s1 k1 c1 M1 where t: "try_one_request env s k c = ret (b, s1, k1, c1)" "conn_ok c1"
    "b \<longrightarrow> state c1 = STATE_REQ \<and> rbuf_size c1 < rbuf_size c" "server_at s1 M1" "advanced sent pending M k c M1 k1 c1"
    using try_one_request_ok [OF net fresh less.prems(1-3) room, of k] by (elim exE conjE) (rule that; assumption)
  have fd: "fd c1 = f" using t(5) less.prems(7) by (simp add: advanced_def)
  show ?case
  proof (cases b)
    case True
    then have "request_loop env s1 k1 c1 = ret (s', k', c')" using t(1) less.prems(6) by (subst (asm) request_loop.simps) simp
    then show ?thesis
      using less.hyps [OF _ t(4,2) _ advanced_roomy [OF t(5) less.prems(4)] advanced_one [OF t(5) len less.prems(5)]] t(3) True fd by blast
  next
    case False
    then have "c' = c1" using t(1) less.prems(6) by (subst (asm) request_loop.simps) simp
    then show ?thesis using try_one_healthy [OF net fresh _ less.prems(1) room less.prems(2,3) len less.prems(5) t(1)] h less.prems(7) by simp
  qed
qed

lemma try_fill_healthy:
  assumes net: "net_ok env sent pending intr" and fresh: "fresh_alloc env" and h: "healthy env (fd c)" and len: "length (req_payload cmd) \<le> K_MAX_MSG"
    and at: "server_at s M" and ok: "conn_ok c" "state c = STATE_REQ" "not_full c" and room: "stays_roomy M (in_stream pending k c)"
    and stream: "in_stream pending k c \<in> {req_image cmd, []}" and run: "try_fill_buffer env s k c = ret (b, s', k', c')"
  shows "state c' = STATE_REQ"
proof -
  let ?cap = "BUF_SIZE - rbuf_size c"
  have full: "rbuf_size c < BUF_SIZE" using ok(2,3) by (simp add: not_full_def)
  obtain rv bs k1 where r: "read_retry env k (fd c) ?cap = ret (rv, bs, k1)" "rv \<noteq> Eintr" "sent k1 = sent k"
    "case rv of Count n \<Rightarrow> n \<le> ?cap \<and> length bs = n \<and> pending k (fd c) = bs @ pending k1 (fd c) \<and>
        (\<forall>g. g \<noteq> fd c \<longrightarrow> pending k1 g = pending k g)
     | _ \<Rightarrow> pending k1 = pending k" using read_retry_ok [OF net] by blast
  have fine: "rv \<noteq> Eother" "rv \<noteq> Count 0" using read_retry_healthy [OF net h _ r(1)] full by simp_all
  show ?thesis
  proof (cases rv)
    case (Count n)
    with r(4) have n: "n \<le> ?cap" "length bs = n" "pending k (fd c) = bs @ pending k1 (fd c)"
      "\<And>g. g \<noteq> fd c \<Longrightarrow> pending k1 g = pending k g" by simp_all
    have le: "rbuf_size c + length bs \<le> BUF_SIZE" using n(1,2) full by simp
    from filled_conn [where M = M and sent = sent and pending = pending and k = k and k' = k1, OF ok(1,2) this n(3,4) r(3)] obtain rb where
      f: "write_bytes (rbuf c) (rbuf_size c) bs = ret rb" "conn_ok (c\<lparr>rbuf_size := rbuf_size c + length bs, rbuf := rb\<rparr>)"
        "in_stream pending k1 (c\<lparr>rbuf_size := rbuf_size c + length bs, rbuf := rb\<rparr>) = in_stream pending k c" by blast
    let ?c = "c\<lparr>rbuf_size := rbuf_size c + length bs, rbuf := rb\<rparr>"
    have st: "state ?c = STATE_REQ" "stays_roomy M (in_stream pending k1 ?c)" "in_stream pending k1 ?c \<in> {req_image cmd, []}"
      using ok(2) room stream f(3) by simp_all
    have "request_loop env s k1 ?c = ret (s', k', c')"
      using run full r(1) Count fine f(1) n(2) le by (auto simp: try_fill_buffer_def Let_def bindE_eq_ret_iff)
    then show ?thesis using request_loop_healthy [OF net fresh h len at f(2) st] by simp
  qed (use run full r(1,2) ok(2) fine in \<open>auto simp: try_fill_buffer_def\<close>)
qed

lemma state_req_healthy:
  assumes net: "net_ok env sent pending intr" and fresh: "fresh_alloc env" and h: "healthy env f" and len: "length (req_payload cmd) \<le> K_MAX_MSG"
  shows "server_at s M \<Longrightarrow> conn_ok c \<Longrightarrow> state c = STATE_REQ \<Longrightarrow> not_full c \<Longrightarrow> stays_roomy M (in_stream pending k c) \<Longrightarrow>
    in_stream pending k c \<in> {req_image cmd, []} \<Longrightarrow> state_req env s k c = ret (s', k', c') \<Longrightarrow> fd c = f \<Longrightarrow> state c' = STATE_REQ"
proof (induction "length (pending k (fd c))" arbitrary: s M k c rule: less_induct)
  case less
  obtain b s1 k1 c1 M1 where t: "try_fill_buffer env s k c = ret (b, s1, k1, c1)" "conn_ok c1" "not_full c1"
    "b \<longrightarrow> state c1 = STATE_REQ \<and> length (pending k1 (fd c)) < length (pending k (fd c))"
    "server_at s1 M1" "advanced sent pending M k c M1 k1 c1"
    using try_fill_ok [OF net fresh less.prems(1-5)] by (elim exE conjE) (rule that; assumption)
  have fd: "fd c1 = fd c" using t(6) by (simp add: advanced_def)
  show ?case
  proof (cases b)
    case True
    then have run: "state_req env s1 k1 c1 = ret (s', k', c')" using t(1) less.prems(7) by (subst (asm) state_req.simps) simp
    have "length (pending k1 (fd c1)) < length (pending k (fd c))" "state c1 = STATE_REQ" using True t(4) fd by simp_all
    from less.hyps [OF this(1) t(5,2) this(2) t(3) advanced_roomy [OF t(6) less.prems(5)] advanced_one [OF t(6) len less.prems(6)] run]
    show ?thesis using fd less.prems(8) by simp
  next
    case False
    then have "c' = c1" using t(1) less.prems(7) by (subst (asm) state_req.simps) simp
    then show ?thesis using try_fill_healthy [OF net fresh _ len less.prems(1-6) t(1)] h less.prems(8) by simp
  qed
qed

section \<open>A request is answered\<close>

inductive_cases serves_all_oneE: "serves_all M [cmd] out M'"
inductive_cases serves_all_noneE: "serves_all M [] out M'"

text \<open>What happened on a connection that held one request and now holds nothing.\<close>

lemma advanced_answer:
  assumes adv: "advanced sent pending M k c M' k' c'" and st: "in_stream pending k c = req_image cmd" "in_stream pending k' c' = []"
    and ok: "conn_ok c" "state c = STATE_REQ" "conn_ok c'" "state c' = STATE_REQ" and len: "length (req_payload cmd) \<le> K_MAX_MSG"
  shows "\<exists>v. serves M cmd v M' \<and> sent k' (fd c) = sent k (fd c) @ res_image (reply v)"
proof -
  obtain cmds out where a: "serves_all M cmds out M'" "in_stream pending k c = concat (map req_image cmds) @ in_stream pending k' c'"
    "out_stream sent k' c' = out_stream sent k c @ out" "fd c' = fd c" using adv unfolding advanced_def by blast
  have one: "cmds = [cmd]" using one_request [of cmds "[]" cmd] a(2) st len by auto
  from a(1) obtain v where v: "serves M cmd v M'" "out = res_image (reply v)"
    unfolding one by (elim serves_all_oneE serves_all_noneE) simp
  have "unsent c = []" "unsent c' = []" using ok by (auto simp: unsent_def conn_ok_def)
  then show ?thesis using a(3,4) v by (auto simp: out_stream_def)
qed

text \<open>
  One wake-up of an idle connection on which one request has arrived: it takes the request from the kernel
  and is idle again.
\<close>

lemma request_answered:
  assumes net: "net_ok env sent pending intr" and pr: "prompt env pending" and h: "healthy env (fd c)" and fresh: "fresh_alloc env"
    and at: "server_at s M" and ok: "conn_ok c" "state c = STATE_REQ" "received c = []" "not_full c"
    and pend: "pending k (fd c) = req_image cmd" and len: "length (req_payload cmd) \<le> K_MAX_MSG" and room: "stays_roomy M (req_image cmd)"
    and run: "conn_step env s k c = ret (s', k', c')"
  shows "state c' = STATE_REQ" "in_stream pending k' c' = []" "conn_ok c'"
proof -
  have st: "in_stream pending k c = req_image cmd" using ok(3) pend by (simp add: in_stream_def)
  have rm: "stays_roomy M (in_stream pending k c)" using room st by simp
  have sr: "state_req env s k c = ret (s', k', c')" using run ok(2) by (simp add: conn_step_def)
  from state_req_ok [OF net fresh at ok(1,2,4) rm] obtain M' where r: "conn_ok c'"
    "incomplete (received c) \<longrightarrow> state c' = STATE_REQ \<longrightarrow> incomplete (received c')" "advanced sent pending M k c M' k' c'"
    unfolding sr by auto
  show req: "state c' = STATE_REQ" using state_req_healthy [OF net fresh h len at ok(1,2,4) rm _ sr] st by simp
  obtain cmds where a: "in_stream pending k c = concat (map req_image cmds) @ in_stream pending k' c'"
    using r(3) unfolding advanced_def by blast
  have p: "in_stream pending k' c' = received c'" using state_req_drains [OF net pr sr ok(2) req] by (simp add: in_stream_def)
  have "incomplete (received c')" using r(2) req ok(3) by (simp add: incomplete_def)
  then show "in_stream pending k' c' = []"
    using one_request [of cmds "received c'" cmd] complete_request [OF len] a st p len by auto
  show "conn_ok c'" by (rule r(1))
qed

section \<open>The loop answers\<close>

text \<open>A state of the loop that stands for the key space \<open>M\<close>, which keeps to the vocabulary.\<close>

definition serving :: "('k \<Rightarrow> nat) \<Rightarrow> ('k \<Rightarrow> nat set) \<Rightarrow> bytes set \<Rightarrow> bytes set \<Rightarrow> 'k loop \<Rightarrow> keyspace \<Rightarrow> bool" where
  "serving clk opened ks ns st M \<longleftrightarrow>
     (\<exists>xs. loop_ok (usec clk (kern st)) st xs M) \<and> fds_open opened st \<and> in_vocab ks ns M \<and> short M"

text \<open>
  A ready descriptor whose connection is idle and has one request waiting: the event loop applies the
  request, and the kernel has the whole response to send.
\<close>

lemma io_step_answers:
  assumes os: "os_ok os sent pending clk opened" and net: "net_ok (net os) sent pending intr" "fresh_alloc (net os)"
    and pr: "prompt (net os) pending" "healthy (net os) (fd c)" and v: "small_vocab ks ns" "allowed ks ns cmd" and st: "serving clk opened ks ns st M"
    and c: "conns st p = Some c" "state c = STATE_REQ" "received c = []"
    and pend: "pending (kern st) (fd c) = req_image cmd" and len: "length (req_payload cmd) \<le> K_MAX_MSG"
  shows "\<exists>st' v M' c'. io_step os (fd c) st = ret st' \<and> serves M cmd v M' \<and> serving clk opened ks ns st' M' \<and>
    sent (kern st') (fd c) = sent (kern st) (fd c) @ res_image (reply v) \<and>
    conns st' p = Some c' \<and> fd c' = fd c \<and> state c' = STATE_REQ \<and> received c' = []"
proof -
  obtain xs where o: "loop_ok (usec clk (kern st)) st xs M" "fds_open opened st" "in_vocab ks ns M" "short M"
    using st unfolding serving_def by blast
  have wf: "loop_wf st xs" and at: "server_at (srv st) M" using o(1) by (simp_all add: loop_ok_def)
  have tab: "fd c < length (fd2conn st)" "fd2conn st ! fd c = Some p" using wf c(1) by (simp_all add: loop_wf_def)
  obtain now_us k0 where clock: "get_monotonic_usec os (kern st) = (now_us, k0)" by (cases "get_monotonic_usec os (kern st)")
  note calm = get_monotonic_calm [OF os clock]
  have fo: "fd c \<in> opened (kern st)" using o(2) c(1) by (auto simp: fds_open_def)
  have t: "usec clk (kern st) \<le> now_us" using usec_mono [OF os_okD(1) [OF os]] calm by (simp add: calmD)
  have same: "sent k0 (fd c) = sent (kern st) (fd c)" "pending k0 (fd c) = req_image cmd" using calmD(3,4) [OF calm(2) fo] pend by simp_all
  have room: "stays_roomy M (req_image cmd)" using vocab_roomy [OF v(1) o(3) vocab_one [OF v(2) len]] .
  then have rm: "stays_roomy M (in_stream pending k0 c)" using same(2) c(3) by (simp add: in_stream_def)
  let ?c = "c\<lparr>idle_start := now_us\<rparr>"
  obtain st' xs' M' s' k' c' where s: "io_step os (fd c) st = ret st'" "loop_ok now_us st' xs' M'"
    "conn_step (net os) (srv st) k0 ?c = ret (s', k', c')" "advanced sent pending M k0 ?c M' k' c'"
    "conns st' = (conns st)(p := if state c' = STATE_END then None else Some c')"
    "kern st' = (if state c' = STATE_END then sys_close os k' (int (fd c)) else k')"
    using io_step_ok [OF net o(1) clock t tab c(1) rm] .
  have cc: "conn_ok ?c" "state ?c = STATE_REQ" "received ?c = []" "not_full ?c" "pending k0 (fd ?c) = req_image cmd"
    using loop_ok_fine [OF o(1) c(1)] c(2,3) same(2) by (simp_all add: conn_ok_def not_full_def received_def)
  have "healthy (net os) (fd ?c)" using pr(2) by simp
  note a = request_answered [OF net(1) pr(1) this net(2) at cc len room s(3)]
  have in0: "in_stream pending k0 ?c = req_image cmd" using cc(3,5) by (simp add: in_stream_def)
  obtain r where r: "serves M cmd r M'" "sent k' (fd c) = sent k0 (fd c) @ res_image (reply r)"
    using advanced_answer [OF s(4) in0 a(2) cc(1,2) a(3,1) len] by auto
  have k': "kern st' = k'" "kern st' = (if state c' = STATE_END then sys_close os k' (int (fd ?c)) else k')"
    "conns st' = (conns st)(p \<mapsto> c')" using s(5,6) a(1) by simp_all
  note car = step_carried [OF os calm(2) o(2) s(3,4) k'(2)]
  have fd': "fd c' = fd c" using s(4) by (simp add: advanced_def)
  moreover have "fd b \<noteq> fd ?c" if "conns st q = Some b" "q \<noteq> p" for q b using wf_fd_inj [OF wf that(1) c(1)] that(2) by auto
  ultimately have "fds_open opened st'" using car(2,3) a(1) fo k'(3) unfolding fds_open_def by (auto split: if_splits)
  moreover have "loop_ok (usec clk (kern st')) st' xs' M'"
    using loop_ok_mono [OF s(2)] calm(1) usec_mono [OF os_okD(1) [OF os] car(4)] by simp
  moreover have "in_vocab ks ns M'" "short M'" using serves_within [OF r(1) o(3) v(2)] serves_short [OF r(1) o(4) payload_args [OF len]] .
  ultimately have "serving clk opened ks ns st' M'" unfolding serving_def by blast
  moreover have "received c' = []" using a(2) by (simp add: in_stream_def)
  ultimately show ?thesis using s(1) r k'(1,3) same(1) fd' a(1) by auto
qed

end
