(* ===== verification/Exchange.thy ===== *)
theory Exchange
  imports Startup Answer
begin

text \<open>
  The client program and the server together. The client's \<open>main\<close> sends its arguments as a request and
  prints the response; the server's event loop answers it. So what a user sees is the meaning of the
  command on the key space, and later commands see the effect of earlier ones.
\<close>

section \<open>The client\<close>

text \<open>
  The system calls of the client process; its socket is a blocking one. \<open>cl_stack\<close> is what the memory of the
  uninitialised receive buffer happens to hold.
\<close>

record 'k client_os =
  cl_socket :: "'k \<Rightarrow> int \<times> nat \<times> 'k"
  cl_connect :: "'k \<Rightarrow> int \<Rightarrow> sockaddr_in \<Rightarrow> int \<times> nat \<times> 'k"
  cl_write :: "int \<Rightarrow> 'k \<Rightarrow> bytes \<Rightarrow> int \<times> 'k"
  cl_read :: "int \<Rightarrow> 'k \<Rightarrow> nat \<Rightarrow> int \<times> bytes \<times> 'k"
  cl_close :: "'k \<Rightarrow> int \<Rightarrow> 'k"
  cl_stack :: "nat \<Rightarrow> u8"

text \<open>Port 1234 on the local host, 127.0.0.1.\<close>

definition client_addr :: sockaddr_in where
  "client_addr = \<lparr>sin_port = ntohs 1234, sin_addr = ntohl 0x7F000001\<rparr>"

definition client_main :: "'k client_os \<Rightarrow> 'k \<Rightarrow> bytes list \<Rightarrow> (printed list \<times> 'k) exec" where
  "client_main os k argv =
     (case cl_socket os k of (f, err, k) \<Rightarrow>
      if f < 0 then die err ''socket()''
      else
        case cl_connect os k f client_addr of (rv, err, k) \<Rightarrow>
        if rv \<noteq> 0 then die err ''connect''
        else bindE (client_run (cl_stack os) (cl_write os f) (cl_read os f) k argv) (\<lambda>(printed, k). ret (printed, cl_close os k f)))"

text \<open>
  A connection that works, from the client's side: a write takes some of the bytes, and a read returns some
  of those that the server has sent. \<open>csent\<close> and \<open>cpend\<close> are the bytes sent and still to be read.
\<close>

definition client_ok :: "('k \<Rightarrow> bytes \<Rightarrow> int \<times> 'k) \<Rightarrow> ('k \<Rightarrow> nat \<Rightarrow> int \<times> bytes \<times> 'k) \<Rightarrow> ('k \<Rightarrow> bytes) \<Rightarrow> ('k \<Rightarrow> bytes) \<Rightarrow> bool" where
  "client_ok cw cr csent cpend \<longleftrightarrow> writes_prefix cw csent \<and> reads_prefix cr cpend \<and>
     (\<forall>k buf. buf \<noteq> [] \<longrightarrow> 0 < fst (cw k buf)) \<and> (\<forall>k n. 0 < n \<longrightarrow> cpend k \<noteq> [] \<longrightarrow> 0 < fst (cr k n))"

lemma write_all_succeeds:
  assumes ok: "client_ok cw cr csent cpend"
  shows "\<exists>k'. write_all cw k buf = ret (0, k') \<and> csent k' = csent k @ buf"
proof -
  have "writes_prefix cw csent" and "\<And>k b. b \<noteq> [] \<Longrightarrow> \<not> fst (cw k b) \<le> 0" using ok by (auto simp: client_ok_def not_le)
  with write_all_outcome [of cw csent k buf] show ?thesis by fastforce
qed

lemma read_full_succeeds:
  assumes ok: "client_ok cw cr csent cpend"
  shows "n \<le> length (cpend k) \<Longrightarrow> \<exists>k'. read_full cr k n buf = ret (0, buf @ take n (cpend k), k') \<and> cpend k' = drop n (cpend k)"
proof (induction n arbitrary: k buf rule: less_induct)
  case (less n)
  show ?case
  proof (cases "n = 0")
    case False
    obtain rv bs k1 where call: "cr k n = (rv, bs, k1)" by (cases "cr k n")
    have "cpend k \<noteq> []" using less.prems False by auto
    then have "0 < fst (cr k n)" using ok False unfolding client_ok_def by simp
    then have rv: "0 < rv" using call by simp
    have r: "rv \<le> int n" "length bs = nat rv" "cpend k = bs @ cpend k1"
      using ok call unfolding client_ok_def reads_prefix_def by blast+
    have "n - nat rv < n" "n - nat rv \<le> length (cpend k1)" using rv False less.prems r by auto
    from less.IH [OF this, of "buf @ bs"] show ?thesis
      using False call rv r by (auto simp: read_full.simps [of _ _ n] nat_le_iff)
  qed (simp add: read_full.simps)
qed

lemma read_res_prints:
  assumes ok: "client_ok cw cr csent cpend" and pend: "cpend k = res_image v @ rest" and size: "val_size v \<le> K_MAX_MSG"
  shows "\<exists>k'. read_res raw cr k = ret (int (val_size v), shown v, k') \<and> cpend k' = rest"
proof -
  let ?w = "of_nat (val_size v) :: u32"
  have len: "length (encode v) = val_size v" using size by (simp add: length_encode K_MAX_MSG_def)
  then have p: "cpend k = le32 ?w @ encode v @ rest" using pend by (simp add: res_image_def)
  obtain k1 where 1: "read_full cr k 4 [] = ret (0, le32 ?w, k1)" "cpend k1 = encode v @ rest"
    using read_full_succeeds [OF ok, of 4 k "[]"] p by auto
  obtain k2 where 2: "read_full cr k1 (val_size v) [] = ret (0, encode v, k2)" "cpend k2 = rest"
    using read_full_succeeds [OF ok, of "val_size v" k1 "[]"] 1(2) len by auto
  show ?thesis using read_res_encoded [OF 1(1) size 2(1)] 2(2) by blast
qed

section \<open>Both ends\<close>

text \<open>
  One run of the client program with the arguments \<open>argv\<close>, served by one ready descriptor in the event
  loop: the client (kernel state \<open>kc\<close>) gets a socket \<open>f\<close> and is connected to an idle connection \<open>c\<close> of the
  server, and both ends of the connection work. The bytes that the client has written when \<open>send_req\<close> is done are those that wait for the server,
  and the bytes that the server sends are those that wait for the client.
\<close>

definition joined ::
  "'k os \<Rightarrow> ('k \<Rightarrow> nat \<Rightarrow> bytes) \<Rightarrow> ('k \<Rightarrow> nat \<Rightarrow> bytes) \<Rightarrow> 'c client_os \<Rightarrow> ('c \<Rightarrow> bytes) \<Rightarrow> ('c \<Rightarrow> bytes) \<Rightarrow>
   'k loop \<Rightarrow> 'c \<Rightarrow> bytes list \<Rightarrow> 'k loop \<Rightarrow> bool" where
  "joined os sent pending cos csent cpend st kc argv st' \<longleftrightarrow> (\<exists>p c f e1 k1 e2 k2.
     conns st p = Some c \<and> state c = STATE_REQ \<and> received c = [] \<and> io_step os (fd c) st = ret st' \<and>
     cl_socket cos kc = (f, e1, k1) \<and> 0 \<le> f \<and> cl_connect cos k1 f client_addr = (0, e2, k2) \<and>
     healthy (net os) (fd c) \<and> client_ok (cl_write cos f) (cl_read cos f) csent cpend \<and>
     (\<forall>rv k3. send_req (cl_write cos f) k2 (map c_string (tl argv)) = ret (rv, k3) \<longrightarrow>
        csent k3 = csent k2 @ pending (kern st) (fd c) \<and> sent (kern st') (fd c) = sent (kern st) (fd c) @ cpend k3))"

text \<open>The client prints the meaning of its command.\<close>

lemma joined_prints:
  assumes os: "os_ok os sent pending clk opened" and net: "net_ok (net os) sent pending intr" "fresh_alloc (net os)"
    and pr: "prompt (net os) pending" and v: "small_vocab ks ns" "allowed ks ns (map c_string (tl argv))"
    and st: "serving clk opened ks ns st M" and len: "length (req_payload (map c_string (tl argv))) \<le> K_MAX_MSG"
    and j: "joined os sent pending cos csent cpend st kc argv st'"
  shows "\<exists>v M' kc'. serves M (map c_string (tl argv)) v M' \<and> serving clk opened ks ns st' M' \<and>
    client_main cos kc argv = ret (shown (reply v), kc')"
proof -
  let ?cmd = "map c_string (tl argv)"
  from j obtain p c f e1 k1 e2 k2 where c: "conns st p = Some c" "state c = STATE_REQ" "received c = []"
    and step: "io_step os (fd c) st = ret st'" and h: "healthy (net os) (fd c)"
    and cl: "cl_socket cos kc = (f, e1, k1)" "0 \<le> f" "cl_connect cos k1 f client_addr = (0, e2, k2)"
      "client_ok (cl_write cos f) (cl_read cos f) csent cpend"
    and link: "\<forall>rv k3. send_req (cl_write cos f) k2 ?cmd = ret (rv, k3) \<longrightarrow>
      csent k3 = csent k2 @ pending (kern st) (fd c) \<and> sent (kern st') (fd c) = sent (kern st) (fd c) @ cpend k3"
    unfolding joined_def by (elim exE conjE) (rule that; assumption)
  obtain k3 where w: "send_req (cl_write cos f) k2 ?cmd = ret (0, k3)" "csent k3 = csent k2 @ req_image ?cmd"
    using write_all_succeeds [OF cl(4), of k2 "req_image ?cmd"] send_req_image [OF len, of "cl_write cos f" k2] by auto
  then have l: "pending (kern st) (fd c) = req_image ?cmd" "sent (kern st') (fd c) = sent (kern st) (fd c) @ cpend k3"
    using link by (metis same_append_eq)+
  obtain v M' where a: "serves M ?cmd v M'" "serving clk opened ks ns st' M'"
    "sent (kern st') (fd c) = sent (kern st) (fd c) @ res_image (reply v)"
    using io_step_answers [OF os net pr h v st c l(1) len] step by auto
  have "in_vocab ks ns M" "short M" using st by (simp_all add: serving_def)
  then have size: "val_size (reply v) \<le> K_MAX_MSG" using reply_size [OF a(1) _ within_roomy [OF v(1)]] by blast
  have "cpend k3 = res_image (reply v) @ []" using l(2) a(3) by simp
  from read_res_prints [OF cl(4) this size, of "cl_stack cos"] obtain k5 where "read_res (cl_stack cos) (cl_read cos f) k3 = ret (int (val_size (reply v)), shown (reply v), k5)" by blast
  then have "client_main cos kc argv = ret (shown (reply v), cl_close cos k5 f)" using cl w(1) by (simp add: client_main_def client_run_def)
  then show ?thesis using a(1,2) by blast
qed

text \<open>
  A value that one client stores is what the next one reads, if what the server does in between leaves the
  key space as it is: accepting and closing connections, answering queries.
\<close>

lemma serves_set: "serves M [lit ''set'', k, v] r M' \<Longrightarrow> r = VNil \<and> M' = M(k \<mapsto> set_item (M k) v)"
  by (erule serves.cases) (simp_all add: cmd_is_def c_string_def lit_def tolower_def known_def commands_def)

lemma serves_get: "serves M [lit ''get'', k] r M' \<Longrightarrow> r = get_spec M k \<and> M' = M"
  by (erule serves.cases) (simp_all add: cmd_is_def c_string_def lit_def tolower_def known_def commands_def)

lemma joined_set_get:
  assumes os: "os_ok os sent pending clk opened" and net: "net_ok (net os) sent pending intr" "fresh_alloc (net os)"
    and pr: "prompt (net os) pending" and v: "small_vocab ks ns" "key \<in> ks"
    and st: "serving clk opened ks ns st M"
    and str: "0 \<notin> set key" "0 \<notin> set x" and len: "length key + length x \<le> K_MAX_MSG - 19"
    and j1: "joined os sent pending cos csent cpend st kc1 [prog, lit ''set'', key, x] st1"
    and between: "\<forall>N. serving clk opened ks ns st1 N \<longrightarrow> serving clk opened ks ns st2 N"
    and j2: "joined os sent pending cos csent cpend st2 kc2 [prog, lit ''get'', key] st3"
  shows "(\<exists>kc'. client_main cos kc1 [prog, lit ''set'', key, x] = ret ([PNil], kc')) \<and>
    (\<exists>kc'. client_main cos kc2 [prog, lit ''get'', key] = ret ([PStr x], kc'))"
proof -
  have cs: "c_string w = w" if "0 \<notin> set w" for w using that by (auto simp: c_string_def takeWhile_eq_all_conv)
  have lits: "c_string (lit ''set'') = lit ''set''" "c_string (lit ''get'') = lit ''get''" by (simp_all add: c_string_def lit_def)
  have l: "length (req_payload [lit ''set'', key, x]) \<le> K_MAX_MSG" "length (req_payload [lit ''get'', key]) \<le> K_MAX_MSG"
    using len by (simp_all add: length_req_payload lit_def K_MAX_MSG_def)
  have al: "allowed ks ns [lit ''set'', key, x]" "allowed ks ns [lit ''get'', key]" using v(2) by (simp_all add: allowed_def)
  obtain r1 M1 kc1' where 1: "serves M [lit ''set'', key, x] r1 M1" "serving clk opened ks ns st1 M1"
    "client_main cos kc1 [prog, lit ''set'', key, x] = ret (shown (reply r1), kc1')"
    using joined_prints [OF os net pr v(1) _ st _ j1] cs [OF str(1)] cs [OF str(2)] lits l(1) al(1) by auto
  obtain r2 M2 kc2' where 2: "serves M1 [lit ''get'', key] r2 M2"
    "client_main cos kc2 [prog, lit ''get'', key] = ret (shown (reply r2), kc2')"
    using joined_prints [OF os net pr v(1) _ between [rule_format, OF 1(2)] _ j2] cs [OF str(1)] lits l(2) al(2) by auto
  have "r1 = VNil" "M1 = M(key \<mapsto> set_item (M key) x)" using serves_set [OF 1(1)] by simp_all
  moreover from this have "r2 = VStr x" using serves_get [OF 2(1)] by (simp add: get_spec_def set_item_def split: option.splits)
  moreover have "reply VNil = VNil" "reply (VStr x) = VStr x" using len by (simp_all add: reply_id K_MAX_MSG_def)
  ultimately show ?thesis using 1(3) 2(2) cs [OF str(2)] by simp
qed

end
