(* ===== verification/Blocking_Server.thy ===== *)
theory Blocking_Server
  imports Client
begin

text \<open>
  The two handlers at the top of \<open>server.cpp\<close> that served one connection with blocking reads and writes.
  Nothing calls them any more (the call in \<open>main\<close> is commented out); they are the counterpart of \<open>query\<close> in
  \<open>client.cpp\<close>. Both print what the client says and answer \<open>world\<close>.
\<close>

definition do_something ::
  "('k \<Rightarrow> bytes \<Rightarrow> int \<times> 'k) \<Rightarrow> ('k \<Rightarrow> nat \<Rightarrow> int \<times> bytes \<times> 'k) \<Rightarrow> 'k \<Rightarrow> (printed list \<times> 'k) exec" where
  "do_something sys_write sys_read k =
     (case sys_read k 63 of (n, bs, k) \<Rightarrow>
      if n < 0 then ret ([], k)
      else
        bindE (write_bytes (replicate 64 0) 0 (take (nat n) bs)) (\<lambda>read_buf.
        case sys_write k (lit ''world'') of (_, k) \<Rightarrow> ret ([PSays (c_string read_buf)], k)))"

definition parse_single_request ::
  "('k \<Rightarrow> bytes \<Rightarrow> int \<times> 'k) \<Rightarrow> ('k \<Rightarrow> nat \<Rightarrow> int \<times> bytes \<times> 'k) \<Rightarrow> 'k \<Rightarrow> (int \<times> printed list \<times> 'k) exec" where
  "parse_single_request sys_write sys_read k =
     bindE (read_full sys_read k 4 []) (\<lambda>(err, read_buf, k).
     if err \<noteq> 0 then ret (err, [], k)
     else bindE (read_u32 read_buf 0) (\<lambda>len.
       if unat len > K_MAX_MSG then ret (-1, [], k)
       else bindE (read_full sys_read k (unat len) []) (\<lambda>(err, body, k).
         if err \<noteq> 0 then ret (err, [], k)
         else
           let reply = lit ''world'' in
           bindE (write_all sys_write k (le32 (of_nat (length reply)) @ reply)) (\<lambda>(err, k).
           ret (err, [PSays (c_string (body @ [0]))], k)))))"

lemma read_full_keeps:
  assumes "\<And>k n. f (snd (snd (sys_read k n))) = f k"
  shows "read_full sys_read k n buf = ret (rv, bs, k') \<Longrightarrow> f k' = f k"
proof (induction n arbitrary: k buf rule: less_induct)
  case (less n)
  obtain r b k1 where c: "sys_read k n = (r, b, k1)" by (cases "sys_read k n") auto
  then have "f k1 = f k" using assms [of k n] by simp
  then show ?case using less.prems less.IH [of "n - nat r"] c
    by (subst (asm) read_full.simps) (auto simp: bindE_eq_ret_iff assertE_def split: if_splits)
qed

text \<open>
  A message of at most \<open>K_MAX_MSG\<close> bytes, however the kernel splits it, is printed as \<open>query\<close> sent it, and the
  reply is handed over in full exactly when 0 is returned.
\<close>

lemma parse_single_request_ok:
  assumes rp: "reads_prefix sys_read pending" and wp: "writes_prefix sys_write sent"
    and sep: "\<And>k n. sent (snd (snd (sys_read k n))) = sent k"
    and pend: "pending k = le32 (of_nat (length body)) @ body @ rest" and len: "length body \<le> K_MAX_MSG"
  shows "\<exists>rv p k'. parse_single_request sys_write sys_read k = ret (rv, p, k') \<and>
    (p = [] \<and> rv = -1 \<or> p = [PSays (c_string (body @ [0]))] \<and>
       (rv = 0 \<longrightarrow> sent k' = sent k @ le32 5 @ lit ''world''))"
proof -
  let ?w = "of_nat (length body) :: u32"
  have w: "unat ?w = length body" using len by (intro unat_of_nat_u32) (simp add: K_MAX_MSG_def)
  obtain rv1 b1 k1 where h: "read_full sys_read k 4 [] = ret (rv1, b1, k1)" "pending k = b1 @ pending k1"
    "rv1 = 0 \<and> length b1 = 4 \<or> rv1 = -1 \<and> length b1 < 4" using read_full_prefix [OF rp, of k 4 "[]"] by auto
  show ?thesis
  proof (cases "rv1 = 0")
    case False
    then show ?thesis using h by (auto simp: parse_single_request_def)
  next
    case True
    then have b1: "b1 = le32 ?w" "pending k1 = body @ rest" using h(2,3) pend by (simp_all add: append_eq_append_conv)
    then have ru: "read_u32 b1 0 = ret ?w" using read_u32_at [of b1 "[]" ?w "[]"] by simp
    obtain rv2 b2 k2 where g: "read_full sys_read k1 (length body) [] = ret (rv2, b2, k2)" "pending k1 = b2 @ pending k2"
      "rv2 = 0 \<and> length b2 = length body \<or> rv2 = -1 \<and> length b2 < length body"
      using read_full_prefix [OF rp, of k1 "length body" "[]"] by auto
    show ?thesis
    proof (cases "rv2 = 0")
      case False
      then show ?thesis using h(1) True ru g w len by (auto simp: parse_single_request_def)
    next
      case t2: True
      then have b2: "b2 = body" using g(2,3) b1(2) by (simp add: append_eq_append_conv)
      let ?out = "le32 5 @ lit ''world''"
      obtain rv3 k3 n where o: "write_all sys_write k2 ?out = ret (rv3, k3)" "sent k3 = sent k2 @ take n ?out"
        "rv3 = 0 \<and> n = length ?out \<or> rv3 = -1 \<and> n < length ?out" using write_all_prefix [OF wp, of k2 ?out] by blast
      have l5: "of_nat (length (lit ''world'')) = (5 :: u32)" by (simp add: lit_def)
      have run: "parse_single_request sys_write sys_read k = ret (rv3, [PSays (c_string (body @ [0]))], k3)"
        using h(1) True ru g(1) w len t2 b2 o(1) by (simp add: parse_single_request_def Let_def l5)
      have "sent k2 = sent k" using read_full_keeps [of sent, OF sep h(1)] read_full_keeps [of sent, OF sep g(1)] by simp
      then have "rv3 = 0 \<longrightarrow> sent k3 = sent k @ ?out" using o(2,3) by auto
      then show ?thesis using run by blast
    qed
  qed
qed

end
