(* ===== verification/Test_Avl.thy ===== *)
theory Test_Avl
  imports Avl_Insert "HOL-Library.Multiset"
begin

text \<open>
  The test program \<open>test_avl.cpp\<close> of the AVL tree: a container of numbers built on the tree, the checks of
  its structure, and the test runs. \<open>dtree\<close> and \<open>dvals\<close> are the two members of \<open>Data\<close>; a container is its
  root pointer. \<open>new\<close> returns \<open>alloc m\<close>, and the \<open>i\<close>-th call of \<open>rand\<close> returns \<open>rnd i\<close>. A failed \<open>assert\<close>
  is a fault, so that a run that returns has passed all of them.
\<close>

section \<open>The container\<close>

record dmem =
  dtree :: avl_store
  dvals :: "u32 store"

definition data_new :: "dmem \<Rightarrow> addr \<Rightarrow> dmem" where
  "data_new m a = m\<lparr>dtree := (dtree m)(a \<mapsto> \<lparr>depth = 0, cnt = 0, left = None, right = None, parent = None\<rparr>),
     dvals := (dvals m)(a \<mapsto> 0)\<rparr>"

definition data_delete :: "dmem \<Rightarrow> ptr \<Rightarrow> dmem exec" where
  "data_delete m p =
     (case p of None \<Rightarrow> ret m
      | Some a \<Rightarrow> if dvals m a = None then fault Dangling
          else ret (m\<lparr>dtree := (dtree m)(a := None), dvals := (dvals m)(a := None)\<rparr>))"

partial_function (option) add_loop :: "avl_store \<Rightarrow> u32 store \<Rightarrow> ptr \<Rightarrow> u32 \<Rightarrow> ptr \<Rightarrow> (avl_store \<times> ptr) exec" where
  "add_loop ts vs node v cur =
     bindE (rd vs cur) (\<lambda>w.
     bindE (rd ts cur) (\<lambda>c.
     let from = (if v < w then LeftLink cur else RightLink cur);
         child = (if v < w then left c else right c) in
     if child = None then
       bindE (set_link ts from node) (\<lambda>ts.
       bindE (wr ts node (\<lambda>n. n\<lparr>parent := cur\<rparr>)) (\<lambda>ts.
       avl_rebalance ts node))
     else add_loop ts vs node v child))"

definition add :: "addr \<Rightarrow> dmem \<Rightarrow> ptr \<Rightarrow> u32 \<Rightarrow> (dmem \<times> ptr) exec" where
  "add a m root v =
     (let m = data_new m a in
      bindE (avl_init (dtree m) (Some a)) (\<lambda>ts.
      bindE (wr (dvals m) (Some a) (\<lambda>_. v)) (\<lambda>vs.
      let m = m\<lparr>dtree := ts, dvals := vs\<rparr> in
      if root = None then ret (m, Some a)
      else
        bindE (add_loop ts vs (Some a) v root) (\<lambda>(ts, root).
        ret (m\<lparr>dtree := ts\<rparr>, root)))))"

partial_function (option) find_loop :: "avl_store \<Rightarrow> u32 store \<Rightarrow> u32 \<Rightarrow> ptr \<Rightarrow> ptr exec" where
  "find_loop ts vs v cur =
     (if cur = None then ret None
      else
        bindE (rd vs cur) (\<lambda>w.
        if v = w then ret cur
        else bindE (rd ts cur) (\<lambda>c. find_loop ts vs v (if v < w then left c else right c))))"

definition del :: "dmem \<Rightarrow> ptr \<Rightarrow> u32 \<Rightarrow> (dmem \<times> ptr \<times> bool) exec" where
  "del m root v =
     bindE (find_loop (dtree m) (dvals m) v root) (\<lambda>cur.
     if cur = None then ret (m, root, False)
     else
       bindE (avl_delete (dtree m) cur) (\<lambda>(ts, root).
       bindE (data_delete (m\<lparr>dtree := ts\<rparr>) cur) (\<lambda>m.
       ret (m, root, True))))"

section \<open>The checks\<close>

definition check_child :: "u32 store \<Rightarrow> avl_store \<Rightarrow> ptr \<Rightarrow> ptr \<Rightarrow> (u32 \<Rightarrow> bool) \<Rightarrow> unit exec" where
  "check_child vs ts node child ok =
     (if child \<noteq> None then
        bindE (rd ts child) (\<lambda>c.
        bindE (assertE (parent c = node)) (\<lambda>_.
        bindE (rd vs child) (\<lambda>w. assertE (ok w))))
      else ret ())"

text \<open>
  The assertions on \<open>count\<close> and \<open>depth\<close> assign instead of comparing; they fail if the assigned value is 0.
\<close>

partial_function (option) avl_verify :: "u32 store \<Rightarrow> avl_store \<Rightarrow> ptr \<Rightarrow> ptr \<Rightarrow> avl_store exec" where
  "avl_verify vs ts par node =
     (if node = None then ret ts
      else
        bindE (rd ts node) (\<lambda>n.
        bindE (assertE (parent n = par)) (\<lambda>_.
        bindE (avl_verify vs ts node (left n)) (\<lambda>ts.
        bindE (rd ts node) (\<lambda>n.
        bindE (avl_verify vs ts node (right n)) (\<lambda>ts.
        bindE (rd ts node) (\<lambda>n.
        bindE (avl_count ts (left n)) (\<lambda>l.
        bindE (avl_count ts (right n)) (\<lambda>r.
        bindE (wr ts node (\<lambda>n. n\<lparr>cnt := 1 + l + r\<rparr>)) (\<lambda>ts.
        bindE (assertE (1 + l + r \<noteq> 0)) (\<lambda>_.
        bindE (rd ts node) (\<lambda>n.
        bindE (avl_depth ts (left n)) (\<lambda>l.
        bindE (avl_depth ts (right n)) (\<lambda>r.
        bindE (assertE (l = r \<or> l = r + 1 \<or> l + 1 = r)) (\<lambda>_.
        bindE (wr ts node (\<lambda>n. n\<lparr>depth := 1 + max_u32 l r\<rparr>)) (\<lambda>ts.
        bindE (assertE (1 + max_u32 l r \<noteq> 0)) (\<lambda>_.
        bindE (rd ts node) (\<lambda>n.
        bindE (rd vs node) (\<lambda>v.
        bindE (check_child vs ts node (left n) (\<lambda>w. w \<le> v)) (\<lambda>_.
        bindE (check_child vs ts node (right n) (\<lambda>w. v \<le> w)) (\<lambda>_.
        ret ts)))))))))))))))))))))"

partial_function (option) extract_vals :: "avl_store \<Rightarrow> u32 store \<Rightarrow> ptr \<Rightarrow> u32 multiset \<Rightarrow> u32 multiset exec" where
  "extract_vals ts vs node extracted =
     (if node = None then ret extracted
      else
        bindE (rd ts node) (\<lambda>n.
        bindE (extract_vals ts vs (left n) extracted) (\<lambda>extracted.
        bindE (rd vs node) (\<lambda>v.
        extract_vals ts vs (right n) (add_mset v extracted)))))"

definition container_verify :: "dmem \<Rightarrow> ptr \<Rightarrow> u32 multiset \<Rightarrow> dmem exec" where
  "container_verify m root ref =
     bindE (avl_verify (dvals m) (dtree m) None root) (\<lambda>ts.
     bindE (avl_count ts root) (\<lambda>n.
     bindE (assertE (unat n = size ref)) (\<lambda>_.
     bindE (extract_vals ts (dvals m) root {#}) (\<lambda>extracted.
     bindE (assertE (extracted = ref)) (\<lambda>_.
     ret (m\<lparr>dtree := ts\<rparr>))))))"

partial_function (option) dispose :: "dmem \<Rightarrow> ptr \<Rightarrow> dmem exec" where
  "dispose m root =
     (if root \<noteq> None then
        bindE (avl_delete (dtree m) root) (\<lambda>r.
        bindE (data_delete (m\<lparr>dtree := fst r\<rparr>) root) (\<lambda>m. dispose m (snd r)))
      else ret m)"

section \<open>The tests\<close>

fun for_loop :: "('x \<Rightarrow> 's \<Rightarrow> 's exec) \<Rightarrow> 'x list \<Rightarrow> 's \<Rightarrow> 's exec" where
  "for_loop f [] s = ret s"
| "for_loop f (x # xs) s = bindE (f x s) (for_loop f xs)"

text \<open>The values of \<open>for (uint32_t i = 0; i < sz; ++i)\<close>, and a container with the multiset it should hold.\<close>

definition upto_u32 :: "nat \<Rightarrow> u32 list" where
  "upto_u32 sz = map of_nat [0..<sz]"

definition add_ref :: "(dmem \<Rightarrow> addr) \<Rightarrow> u32 \<Rightarrow> dmem \<times> ptr \<times> u32 multiset \<Rightarrow> (dmem \<times> ptr \<times> u32 multiset) exec" where
  "add_ref alloc v s = (case s of (m, root, ref) \<Rightarrow>
     bindE (add (alloc m) m root v) (\<lambda>(m, root). ret (m, root, add_mset v ref)))"

definition test_insert :: "(dmem \<Rightarrow> addr) \<Rightarrow> nat \<Rightarrow> dmem \<Rightarrow> dmem exec" where
  "test_insert alloc sz m = for_loop (\<lambda>v m.
     bindE (for_loop (\<lambda>i s. if i = v then ret s else add_ref alloc i s) (upto_u32 sz) (m, None, {#})) (\<lambda>(m, root, ref).
     bindE (container_verify m root ref) (\<lambda>m.
     bindE (add_ref alloc v (m, root, ref)) (\<lambda>(m, root, ref).
     bindE (container_verify m root ref) (\<lambda>m.
     dispose m root))))) (upto_u32 sz) m"

definition test_insert_dup :: "(dmem \<Rightarrow> addr) \<Rightarrow> nat \<Rightarrow> dmem \<Rightarrow> dmem exec" where
  "test_insert_dup alloc sz m = for_loop (\<lambda>v m.
     bindE (for_loop (add_ref alloc) (upto_u32 sz) (m, None, {#})) (\<lambda>(m, root, ref).
     bindE (container_verify m root ref) (\<lambda>m.
     bindE (add_ref alloc v (m, root, ref)) (\<lambda>(m, root, ref).
     bindE (container_verify m root ref) (\<lambda>m.
     dispose m root))))) (upto_u32 sz) m"

text \<open>\<open>ref.erase(val)\<close> removes every element equal to \<open>val\<close>.\<close>

definition test_remove :: "(dmem \<Rightarrow> addr) \<Rightarrow> nat \<Rightarrow> dmem \<Rightarrow> dmem exec" where
  "test_remove alloc sz m = for_loop (\<lambda>v m.
     bindE (for_loop (add_ref alloc) (upto_u32 sz) (m, None, {#})) (\<lambda>(m, root, ref).
     bindE (container_verify m root ref) (\<lambda>m.
     bindE (del m root v) (\<lambda>(m, root, ok).
     bindE (assertE ok) (\<lambda>_.
     bindE (container_verify m root (filter_mset (\<lambda>x. x \<noteq> v) ref)) (\<lambda>m.
     dispose m root)))))) (upto_u32 sz) m"

definition test_offset :: "(dmem \<Rightarrow> addr) \<Rightarrow> nat \<Rightarrow> dmem \<Rightarrow> dmem exec" where
  "test_offset alloc sz m =
     bindE (for_loop (\<lambda>i (m, root). add (alloc m) m root i) (upto_u32 sz) (m, None)) (\<lambda>(m, root).
     bindE (leftmost (dtree m) root) (\<lambda>min.
     bindE (for_loop (\<lambda>i _.
       bindE (avl_offset (dtree m) min (uint i)) (\<lambda>node.
       bindE (rd (dvals m) node) (\<lambda>v.
       bindE (assertE (v = i)) (\<lambda>_.
       bindE (for_loop (\<lambda>j _.
         bindE (avl_offset (dtree m) node (uint j - uint i)) (\<lambda>another_node.
         bindE (rd (dvals m) another_node) (\<lambda>w. assertE (w = j)))) (upto_u32 sz) ()) (\<lambda>_.
       bindE (avl_offset (dtree m) node (- uint i - 1)) (\<lambda>p.
       bindE (assertE (p = None)) (\<lambda>_.
       bindE (avl_offset (dtree m) node (uint (of_nat sz - i))) (\<lambda>p.
       assertE (p = None)))))))))
       (upto_u32 sz) ()) (\<lambda>_.
     dispose m root)))"

section \<open>\<open>main\<close>\<close>

definition test_quick :: "(dmem \<Rightarrow> addr) \<Rightarrow> dmem \<Rightarrow> (dmem \<times> ptr) exec" where
  "test_quick alloc m =
     bindE (container_verify m None {#}) (\<lambda>m.
     bindE (add (alloc m) m None 123) (\<lambda>(m, root).
     bindE (container_verify m root {#123#}) (\<lambda>m.
     bindE (del m root 124) (\<lambda>(m, root, ok).
     bindE (assertE (\<not> ok)) (\<lambda>_.
     bindE (del m root 123) (\<lambda>(m, root, ok).
     bindE (assertE ok) (\<lambda>_.
     bindE (container_verify m root {#}) (\<lambda>m. ret (m, root)))))))))"

definition add_and_verify :: "(dmem \<Rightarrow> addr) \<Rightarrow> u32 \<Rightarrow> dmem \<times> ptr \<times> u32 multiset \<Rightarrow> (dmem \<times> ptr \<times> u32 multiset) exec" where
  "add_and_verify alloc v s =
     bindE (add_ref alloc v s) (\<lambda>(m, root, ref).
     bindE (container_verify m root ref) (\<lambda>m. ret (m, root, ref)))"

definition del_and_verify :: "u32 \<Rightarrow> dmem \<times> ptr \<times> u32 multiset \<Rightarrow> (dmem \<times> ptr \<times> u32 multiset) exec" where
  "del_and_verify v s = (case s of (m, root, ref) \<Rightarrow>
     bindE (del m root v) (\<lambda>(m, root, ok).
     bindE (assertE (if v \<in># ref then ok else \<not> ok)) (\<lambda>_.
     let ref = (if v \<in># ref then ref - {#v#} else ref) in
     bindE (container_verify m root ref) (\<lambda>m. ret (m, root, ref)))))"

definition test_main :: "(dmem \<Rightarrow> addr) \<Rightarrow> (nat \<Rightarrow> u32) \<Rightarrow> dmem \<Rightarrow> (int \<times> dmem) exec" where
  "test_main alloc rnd m =
     bindE (test_quick alloc m) (\<lambda>(m, root).
     bindE (for_loop (add_and_verify alloc) (map (\<lambda>k. 3 * of_nat k) [0..<334]) (m, root, {#})) (\<lambda>s.
     bindE (for_loop (\<lambda>i. add_and_verify alloc (rnd i mod 1000)) [0..<100] s) (\<lambda>s.
     bindE (for_loop (\<lambda>i. del_and_verify (rnd i mod 1000)) [100..<300] s) (\<lambda>(m, root, ref).
     bindE (for_loop (\<lambda>i m.
       bindE (test_insert alloc i m) (\<lambda>m.
       bindE (test_insert_dup alloc i m) (\<lambda>m.
       test_remove alloc i m))) [0..<200] m) (\<lambda>m.
     bindE (for_loop (test_offset alloc) [1..<500] m) (\<lambda>m.
     ret (0, m)))))))"

end
