(* ===== verification/Test_Avl_Spec.thy ===== *)
theory Test_Avl_Spec
  imports Test_Avl
begin

text \<open>
  The test program passes: for every sequence of random numbers and every allocator that returns unused
  addresses, it returns, which includes that no assertion fails and every loop ends. The container is
  shown to implement a multiset of numbers, and the checks to hold of every container so built.
\<close>

section \<open>The container as a multiset\<close>

definition dval :: "dmem \<Rightarrow> addr \<Rightarrow> u32" where
  "dval m a = the (dvals m a)"

definition holds :: "dmem \<Rightarrow> ptr \<Rightarrow> addr tree \<Rightarrow> u32 multiset \<Rightarrow> bool" where
  "holds m root t S \<longleftrightarrow> avl_rep (dtree m) root t \<and> set_tree t \<subseteq> dom (dvals m) \<and>
     sorted (map (dval m) (inorder t)) \<and> mset (map (dval m) (inorder t)) = S"

definition mem_ok :: "dmem \<Rightarrow> bool" where
  "mem_ok m \<longleftrightarrow> finite (dom (dtree m)) \<and> finite (dom (dvals m))"

definition cont_ok :: "dmem \<Rightarrow> ptr \<Rightarrow> u32 multiset \<Rightarrow> bool" where
  "cont_ok m root S \<longleftrightarrow> mem_ok m \<and> (\<exists>t. holds m root t S)"

definition news :: "(dmem \<Rightarrow> addr) \<Rightarrow> bool" where
  "news alloc \<longleftrightarrow> (\<forall>m. mem_ok m \<longrightarrow> dtree m (alloc m) = None \<and> dvals m (alloc m) = None)"

lemma holdsD:
  assumes "holds m root t S"
  shows "avl_rep (dtree m) root t" "set_tree t \<subseteq> dom (dvals m)" "sorted (map (dval m) (inorder t))"
    "mset (map (dval m) (inorder t)) = S"
  using assms by (simp_all add: holds_def)

lemma holds_size: "holds m root t S \<Longrightarrow> size t = size S"
  using length_inorder [of t] by (auto simp: holds_def)

lemma cont_empty: "mem_ok m \<Longrightarrow> cont_ok m None {#}"
  unfolding cont_ok_def holds_def by (auto intro: exI [of _ "\<langle>\<rangle>"])

interpretation data_insertion:
  leaf_insertion "\<lambda>ts. add_loop ts vs (Some a) v" a "\<lambda>b. v < the (vs b)" "dom vs" for vs a v
  by unfold_locales (auto simp: add_loop.simps [of _ vs "Some a" v "Some b" for b] hang_def Let_def)

lemma sorted_around:
  "sorted (map f xs) \<Longrightarrow> f a = v \<Longrightarrow> sorted (map f (filter (\<lambda>x. \<not> v < f x) xs @ a # filter (\<lambda>x. v < f x) xs))"
  by (auto simp: sorted_wrt_append sorted_wrt_map not_less intro: sorted_wrt_filter order_trans less_imp_le)

lemma add_ok:
  assumes ok: "cont_ok m root S" and fresh: "dtree m a = None" "dvals m a = None" and room: "avl_fits (Suc (size S))"
  shows "\<exists>m' root'. add a m root v = ret (m', root') \<and> cont_ok m' root' (add_mset v S)"
proof -
  obtain t where t: "holds m root t S" and fin: "mem_ok m" using ok unfolding cont_ok_def by blast
  note h = holdsD [OF t]
  let ?n = "\<lparr>depth = 1, cnt = 1, left = None, right = None, parent = None\<rparr>"
  let ?ts = "(dtree m)(a \<mapsto> ?n)" and ?vs = "(dvals m)(a \<mapsto> v)"
  let ?m = "m\<lparr>dtree := ?ts, dvals := ?vs\<rparr>"
  have run: "add a m root v = (if root = None then ret (?m, Some a)
      else bindE (add_loop ?ts ?vs (Some a) v root) (\<lambda>(ts, root). ret (?m\<lparr>dtree := ts\<rparr>, root)))"
    by (simp add: add_def data_new_def avl_init_def Let_def)
  have leaf: "leaf_at ?ts a" by (simp add: leaf_at_def)
  have a: "a \<notin> set_tree t" using avl_rep_alloc [OF h(1), of a] fresh(1) by auto
  have old: "dval ?m b = dval m b" if "b \<in> set_tree t" for b using that a by (auto simp: dval_def)
  have new: "dval ?m a = v" by (simp add: dval_def)
  have fin': "mem_ok ?m" using fin by (simp add: mem_ok_def)
  show ?thesis
  proof (cases "t = \<langle>\<rangle>")
    case True
    then have "root = None" "S = {#}" using h(1,4) by auto
    moreover have "holds ?m (Some a) \<langle>\<langle>\<rangle>, a, \<langle>\<rangle>\<rangle> {#v#}" using leaf_single [OF leaf] by (simp add: holds_def dval_def)
    ultimately show ?thesis using run fin' unfolding cont_ok_def by auto
  next
    case False
    have rep: "avl_rep ?ts root t" using avl_rep_cong [of t ?ts "dtree m"] h(1) a by (metis fun_upd_other)
    have dv: "map (dval ?m) (inorder t) = map (dval m) (inorder t)" using old by simp
    have N: "set_tree t \<subseteq> dom ?vs" using h(2) by auto
    have "sorted_wrt (\<lambda>x y. dval ?m x \<le> dval ?m y) (inorder t)" using h(3) dv by (metis sorted_wrt_map)
    then have srt: "sorted_wrt (\<lambda>x y. v < the (?vs x) \<longrightarrow> v < the (?vs y)) (inorder t)"
      by (rule sorted_wrt_mono_rel [rotated]) (auto simp: dval_def)
    have "avl_fits (Suc (size t))" using room holds_size [OF t] by simp
    from data_insertion.loop_inserts [OF rep False N srt leaf a this] obtain ts' root' t' where
      l: "add_loop ?ts ?vs (Some a) v root = ret (ts', root')" "avl_rep ts' root' t'"
        "inorder t' = filter (\<lambda>x. \<not> v < the (?vs x)) (inorder t) @ a # filter (\<lambda>x. v < the (?vs x)) (inorder t)"
        "same_outside (insert a (set_tree t)) ?ts ts'" by blast
    let ?m' = "?m\<lparr>dtree := ts'\<rparr>"
    have dv': "dval ?m' = dval ?m" by (simp add: dval_def fun_eq_iff)
    have "the (?vs x) = dval ?m x" for x by (simp add: dval_def)
    note io = l(3) [unfolded this]
    have "sorted (map (dval ?m') (inorder t'))"
      unfolding io dv' by (rule sorted_around) (use h(3) dv new in \<open>simp_all only:\<close>)
    moreover have "mset (map (dval ?m') (inorder t')) = add_mset v (mset (map (dval ?m) (inorder t)))"
      unfolding io dv' using new multiset_partition [of "mset (inorder t)" "\<lambda>x. v < dval ?m x"]
      by (simp add: image_mset_union [symmetric] add.commute del: image_mset_union)
    moreover have "set_tree t' \<subseteq> dom (dvals ?m')" using arg_cong [OF l(3), of set] h(2) by auto
    moreover have "mem_ok ?m'" using fin' same_outside_dom [OF l(4)] by (simp add: mem_ok_def)
    ultimately have "cont_ok ?m' root' (add_mset v S)" using l(2) h(4) dv unfolding cont_ok_def holds_def by auto
    moreover have "root \<noteq> None" using False avl_rep_null [OF rep] by blast
    ultimately show ?thesis using run l(1) by auto
  qed
qed

lemma find_loop_ok:
  assumes "tree_at ts par p t" "set_tree t \<subseteq> dom vs" "sorted (map (\<lambda>a. the (vs a)) (inorder t))"
  shows "\<exists>q. find_loop ts vs v p = ret q \<and>
    (case q of Some a \<Rightarrow> a \<in> set_tree t \<and> the (vs a) = v | None \<Rightarrow> \<forall>a \<in> set_tree t. the (vs a) \<noteq> v)"
  using assms
proof (induction t arbitrary: par p)
  case Leaf
  then show ?case by (auto simp: find_loop.simps)
next
  case (Node l b r)
  from Node.prems(1) obtain n where n: "p = Some b" "ts b = Some n" "tree_at ts (Some b) (left n) l"
    "tree_at ts (Some b) (right n) r" by (rule tree_at_cases)
  obtain w where w: "vs b = Some w" using Node.prems(2) by auto
  have lb: "\<And>a. a \<in> set_tree l \<Longrightarrow> the (vs a) \<le> w" "\<And>a. a \<in> set_tree r \<Longrightarrow> w \<le> the (vs a)"
    using Node.prems(3) w by (auto simp: sorted_wrt_append)
  have srt: "sorted (map (\<lambda>a. the (vs a)) (inorder l))" "sorted (map (\<lambda>a. the (vs a)) (inorder r))"
    using Node.prems(3) by (auto simp: sorted_wrt_append)
  have run: "find_loop ts vs v p = (if v = w then ret (Some b) else find_loop ts vs v (if v < w then left n else right n))"
    using n w by (subst find_loop.simps) simp
  consider "v = w" | "v < w" | "w < v" by (metis linorder_neqE)
  then show ?case
  proof cases
    case 1
    then show ?thesis using run w by simp
  next
    case 2
    obtain q where q: "find_loop ts vs v (left n) = ret q"
      "case q of Some a \<Rightarrow> a \<in> set_tree l \<and> the (vs a) = v | None \<Rightarrow> \<forall>a \<in> set_tree l. the (vs a) \<noteq> v"
      using Node.IH(1) [OF n(3) _ srt(1)] Node.prems(2) by auto
    then show ?thesis using run 2 w lb(2) by (intro exI [of _ q]) (fastforce split: option.splits)
  next
    case 3
    obtain q where q: "find_loop ts vs v (right n) = ret q"
      "case q of Some a \<Rightarrow> a \<in> set_tree r \<and> the (vs a) = v | None \<Rightarrow> \<forall>a \<in> set_tree r. the (vs a) \<noteq> v"
      using Node.IH(2) [OF n(4) _ srt(2)] Node.prems(2) by auto
    moreover have "\<not> v < w" "v \<noteq> w" using 3 by auto
    ultimately show ?thesis using run 3 w lb(1) by (intro exI [of _ q]) (fastforce split: option.splits)
  qed
qed

text \<open>Deleting a node of the container and freeing it.\<close>

lemma remove_node:
  assumes t: "holds m root t S" and fin: "mem_ok m" and a: "a \<in> set_tree t"
  shows "\<exists>ts' root' m'. avl_delete (dtree m) (Some a) = ret (ts', root') \<and>
    data_delete (m\<lparr>dtree := ts'\<rparr>) (Some a) = ret m' \<and> cont_ok m' root' (S - {#dval m a#})"
proof -
  note h = holdsD [OF t]
  obtain ts' root' t' where d: "avl_delete (dtree m) (Some a) = ret (ts', root')" "avl_rep ts' root' t'"
    "inorder t' = remove1 a (inorder t)" "same_outside (set_tree t) (dtree m) ts'"
    using avl_rep_delete [OF h(1) a] .
  let ?m = "m\<lparr>dtree := ts'(a := None), dvals := (dvals m)(a := None)\<rparr>"
  have "a \<in> set (inorder t)" "distinct (inorder t)" using a avl_repD(2) [OF h(1)] by simp_all
  then have a': "a \<notin> set_tree t'" "set_tree t' \<subseteq> set_tree t"
    using arg_cong [OF d(3), of set] by (simp_all add: set_remove1_eq)
  have eq: "map (dval ?m) (inorder t') = map (dval m) (inorder t')" using a'(1) by (auto simp: dval_def)
  have "sorted (map (dval m) (inorder t'))"
    unfolding d(3) using h(3) sorted_wrt_remove1' [of "\<lambda>x y. dval m x \<le> dval m y"] by (simp add: sorted_wrt_map)
  moreover have "mset (map (dval m) (inorder t')) = S - {#dval m a#}"
    unfolding d(3) using h(4) \<open>a \<in> set (inorder t)\<close> by (auto simp: image_mset_Diff)
  moreover have "avl_rep (ts'(a := None)) root' t'"
    using avl_rep_cong [of t' "ts'(a := None)" ts'] d(2) a'(1) by (metis fun_upd_other)
  moreover have "set_tree t' \<subseteq> dom ((dvals m)(a := None))" using h(2) a' by auto
  ultimately have "holds ?m root' t' (S - {#dval m a#})" unfolding holds_def eq by simp
  moreover have "mem_ok ?m" using fin same_outside_dom [OF d(4)] by (simp add: mem_ok_def)
  moreover have "data_delete (m\<lparr>dtree := ts'\<rparr>) (Some a) = ret ?m"
    using h(2) a by (auto simp: data_delete_def)
  ultimately show ?thesis using d(1) unfolding cont_ok_def by blast
qed

lemma del_ok:
  assumes ok: "cont_ok m root S"
  shows "\<exists>m' root'. del m root v = ret (m', root', v \<in># S) \<and> cont_ok m' root' (S - {#v#})"
proof -
  obtain t where t: "holds m root t S" and fin: "mem_ok m" using ok unfolding cont_ok_def by blast
  note h = holdsD [OF t]
  have srt: "sorted (map (\<lambda>a. the (dvals m a)) (inorder t))" using h(3) unfolding dval_def .
  obtain q where q: "find_loop (dtree m) (dvals m) v root = ret q"
    "case q of Some a \<Rightarrow> a \<in> set_tree t \<and> dval m a = v | None \<Rightarrow> \<forall>a \<in> set_tree t. dval m a \<noteq> v"
    using find_loop_ok [OF avl_repD(1) [OF h(1)] h(2) srt] unfolding dval_def by blast
  have mem: "v \<in># S \<longleftrightarrow> (\<exists>a \<in> set_tree t. dval m a = v)" unfolding h(4) [symmetric] by auto
  show ?thesis
  proof (cases q)
    case None
    then have "v \<notin># S" using q(2) mem by auto
    then show ?thesis using q(1) None ok by (simp add: del_def)
  next
    case (Some a)
    then have "v \<in># S" "a \<in> set_tree t" "dval m a = v" using q(2) mem by auto
    with remove_node [OF t fin this(2)] q(1) Some show ?thesis by (auto simp: del_def)
  qed
qed

lemma dispose_ok: "cont_ok m root S \<Longrightarrow> \<exists>m'. dispose m root = ret m' \<and> mem_ok m'"
proof (induction "size S" arbitrary: m root S)
  case 0
  then obtain t where "holds m root t {#}" "mem_ok m" unfolding cont_ok_def by auto
  moreover from this have "root = None" using holds_size [of m root t "{#}"] holdsD(1) [of m root t "{#}"] by simp
  ultimately show ?case by (simp add: dispose.simps)
next
  case (Suc n)
  then obtain t where t: "holds m root t S" "mem_ok m" unfolding cont_ok_def by auto
  have "0 < size t" using Suc.hyps(2) holds_size [OF t(1)] by linarith
  then obtain l a r where node: "t = \<langle>l, a, r\<rangle>" by (cases t) auto
  then have root: "root = Some a" using avl_repD(1) [OF holdsD(1) [OF t(1)]] by simp
  obtain ts' root' m' where d: "avl_delete (dtree m) (Some a) = ret (ts', root')"
    "data_delete (m\<lparr>dtree := ts'\<rparr>) (Some a) = ret m'" "cont_ok m' root' (S - {#dval m a#})"
    using remove_node [OF t, of a] node by auto
  have "dval m a \<in># S" using holdsD(4) [OF t(1)] node by auto
  then have "n = size (S - {#dval m a#})" using Suc.hyps(2) by (simp add: size_Diff_singleton)
  then obtain m'' where "dispose m' root' = ret m''" "mem_ok m''" using Suc.hyps(1) d(3) by blast
  then show ?case using d(1,2) root by (subst dispose.simps) simp
qed

section \<open>The checks hold\<close>

lemma check_child_ok:
  "tree_at ts (Some b) p t \<Longrightarrow> set_tree t \<subseteq> dom vs \<Longrightarrow> (\<forall>a \<in> set_tree t. ok (the (vs a))) \<Longrightarrow>
   check_child vs ts (Some b) p ok = ret ()"
  by (cases t) (auto simp: check_child_def split: option.splits)

lemma height_words:
  assumes "height l \<le> height r + 1" "height r \<le> height l + 1"
  shows "of_nat (height l) = (of_nat (height r) :: u32) \<or> of_nat (height l) = (of_nat (height r) + 1 :: u32) \<or>
    of_nat (height l) + 1 = (of_nat (height r) :: u32)"
proof -
  consider "height l = height r" | "height l = height r + 1" | "height l + 1 = height r" using assms by linarith
  then show ?thesis by cases (metis of_nat_1 of_nat_add)+
qed

lemma avl_verify_ok:
  assumes "tree_at ts par p t" "avl t" "avl_fits (size t)" "set_tree t \<subseteq> dom vs" "sorted (map (\<lambda>a. the (vs a)) (inorder t))"
  shows "avl_verify vs ts par p = ret ts"
  using assms
proof (induction t arbitrary: par p)
  case Leaf
  then show ?case by (simp add: avl_verify.simps)
next
  case (Node l b r)
  from Node.prems(1) obtain n where n: "p = Some b" "ts b = Some n" "parent n = par"
    "depth n = of_nat (height \<langle>l, b, r\<rangle>)" "cnt n = of_nat (size \<langle>l, b, r\<rangle>)"
    "tree_at ts (Some b) (left n) l" "tree_at ts (Some b) (right n) r" by (auto split: option.splits)
  have srt: "sorted (map (\<lambda>a. the (vs a)) (inorder l))" "sorted (map (\<lambda>a. the (vs a)) (inorder r))"
    using Node.prems(5) by (auto simp: sorted_wrt_append)
  have fits: "avl_fits (size l)" "avl_fits (size r)" using Node.prems(3) by (simp_all add: avl_fits_def)
  have sub: "avl_verify vs ts (Some b) (left n) = ret ts" "avl_verify vs ts (Some b) (right n) = ret ts"
    using Node.IH(1) [OF n(6) _ fits(1) _ srt(1)] Node.IH(2) [OF n(7) _ fits(2) _ srt(2)] Node.prems(2,4) by auto
  obtain v where v: "vs b = Some v" using Node.prems(4) by auto
  have ord: "\<And>a. a \<in> set_tree l \<Longrightarrow> the (vs a) \<le> v" "\<And>a. a \<in> set_tree r \<Longrightarrow> v \<le> the (vs a)"
    using Node.prems(5) v by (auto simp: sorted_wrt_append)
  let ?l = "of_nat (size l) :: u32" and ?r = "of_nat (size r) :: u32"
  let ?hl = "of_nat (height l) :: u32" and ?hr = "of_nat (height r) :: u32"
  have "max_u32 ?hl ?hr = of_nat (max (height l) (height r))"
    using fits height_le_size [of l] height_le_size [of r] by (intro max_u32_of_nat) (auto simp: avl_fits_def)
  then have d: "1 + max_u32 ?hl ?hr = depth n" using n(4) by simp
  have c: "1 + ?l + ?r = cnt n" using n(5) by simp
  have nzk: "of_nat k \<noteq> (0 :: u32)" if "0 < k" "k \<le> size \<langle>l, b, r\<rangle>" for k
    using u32_of_nat_eq_iff [of k 0] that Node.prems(3) by (simp add: avl_fits_def)
  have nz: "cnt n \<noteq> 0" "depth n \<noteq> 0"
    unfolding n(4,5) by (rule nzk; use height_le_size [of "\<langle>l, b, r\<rangle>"] in simp)+
  have bal: "?hl = ?hr \<or> ?hl = ?hr + 1 \<or> ?hl + 1 = ?hr" using Node.prems(2) by (intro height_words) simp_all
  have same: "ts(b \<mapsto> n) = ts" using n(2) by (rule fun_upd_idem)
  have lc: "check_child vs ts (Some b) (left n) (\<lambda>w. w \<le> v) = ret ()" "check_child vs ts (Some b) (right n) (\<lambda>w. v \<le> w) = ret ()"
    using check_child_ok [OF n(6)] check_child_ok [OF n(7)] ord Node.prems(4) by auto
  show ?case
    by (subst avl_verify.simps)
      (simp add: n(1,2,3) sub avl_count_tree [OF n(6)] avl_count_tree [OF n(7)] avl_depth_tree [OF n(6)] avl_depth_tree [OF n(7)]
        c d nz bal same v lc)
qed

lemma extract_vals_ok:
  "tree_at ts par p t \<Longrightarrow> set_tree t \<subseteq> dom vs \<Longrightarrow>
   extract_vals ts vs p S = ret (S + mset (map (\<lambda>a. the (vs a)) (inorder t)))"
proof (induction t arbitrary: par p S)
  case Leaf
  then show ?case by (simp add: extract_vals.simps)
next
  case (Node l b r)
  from Node.prems(1) obtain n where n: "p = Some b" "ts b = Some n" "tree_at ts (Some b) (left n) l"
    "tree_at ts (Some b) (right n) r" by (rule tree_at_cases)
  obtain v where v: "vs b = Some v" using Node.prems(2) by auto
  show ?case using n v Node.IH(1) [OF n(3)] Node.IH(2) [OF n(4)] Node.prems(2)
    by (subst extract_vals.simps) simp
qed

lemma container_verify_ok:
  assumes "cont_ok m root S"
  shows "container_verify m root S = ret m"
proof -
  obtain t where t: "holds m root t S" using assms unfolding cont_ok_def by blast
  note h = holdsD [OF t] and r = avl_repD [OF holdsD(1) [OF t]]
  have "avl_verify (dvals m) (dtree m) None root = ret (dtree m)"
    using avl_verify_ok [OF r(1,3,4) h(2)] h(3) unfolding dval_def by blast
  moreover have "unat (of_nat (size t) :: u32) = size S"
    using r(4) holds_size [OF t] unat_of_nat_u32 [of "size t"] by (simp add: avl_fits_def)
  moreover have "extract_vals (dtree m) (dvals m) root {#} = ret S"
    using extract_vals_ok [OF r(1) h(2), of "{#}"] h(4) unfolding dval_def by simp
  ultimately show ?thesis using avl_count_tree [OF r(1)] by (simp add: container_verify_def)
qed

section \<open>The tests pass\<close>

lemma for_loop_inv:
  assumes "\<And>pre x post s. xs = pre @ x # post \<Longrightarrow> I pre s \<Longrightarrow> \<exists>s'. f x s = ret s' \<and> I (pre @ [x]) s'" and "I [] s"
  shows "\<exists>s'. for_loop f xs s = ret s' \<and> I xs s'"
proof -
  have "\<exists>s'. for_loop f ys s = ret s' \<and> I xs s'" if "xs = pre @ ys" "I pre s" for pre ys s
    using that
  proof (induction ys arbitrary: pre s)
    case (Cons y ys)
    then obtain s1 where s1: "f y s = ret s1" "I (pre @ [y]) s1" using assms(1) by blast
    then show ?case using Cons.IH [of "pre @ [y]" s1] Cons.prems(1) by simp
  qed simp
  then show ?thesis using assms(2) by (metis append_Nil)
qed

lemma for_loop_keep:
  assumes "\<And>x s. x \<in> set xs \<Longrightarrow> I s \<Longrightarrow> \<exists>s'. f x s = ret s' \<and> I s'" and "I s"
  shows "\<exists>s'. for_loop f xs s = ret s' \<and> I s'"
  using for_loop_inv [of xs "\<lambda>_. I" f s] assms by (metis in_set_conv_decomp)

text \<open>States of a test: a container that holds \<open>ref\<close>, whose size is bounded.\<close>

definition at_most :: "nat \<Rightarrow> dmem \<times> ptr \<times> u32 multiset \<Rightarrow> bool" where
  "at_most k s \<longleftrightarrow> (case s of (m, root, ref) \<Rightarrow> cont_ok m root ref \<and> size ref \<le> k)"

lemma add_ref_ok:
  assumes al: "news alloc" and ok: "cont_ok m root S" and k: "size S < 1000"
  shows "\<exists>m' root'. add_ref alloc v (m, root, S) = ret (m', root', add_mset v S) \<and> cont_ok m' root' (add_mset v S)"
proof -
  have "dtree m (alloc m) = None" "dvals m (alloc m) = None" using al ok by (simp_all add: news_def cont_ok_def)
  moreover have "avl_fits (Suc (size S))" using k by (simp add: avl_fits_def)
  ultimately obtain m' root' where "add (alloc m) m root v = ret (m', root')" "cont_ok m' root' (add_mset v S)"
    using add_ok [OF ok] by blast
  then show ?thesis by (simp add: add_ref_def)
qed

lemma fill_ok:
  assumes al: "news alloc" and m: "mem_ok m" and sz: "length xs \<le> 1000"
  shows "\<exists>m' root'. for_loop (\<lambda>i s. if P i then ret s else add_ref alloc i s) xs (m, None, {#}) =
    ret (m', root', mset (filter (\<lambda>i. \<not> P i) xs)) \<and> cont_ok m' root' (mset (filter (\<lambda>i. \<not> P i) xs))"
proof -
  let ?I = "\<lambda>pre (m, root, ref). cont_ok m root ref \<and> ref = mset (filter (\<lambda>i. \<not> P i) pre)"
  have "\<exists>s'. for_loop (\<lambda>i s. if P i then ret s else add_ref alloc i s) xs (m, None, {#}) = ret s' \<and> ?I xs s'"
  proof (rule for_loop_inv)
    fix pre x post s
    assume xs: "xs = pre @ x # post" and I: "?I pre s"
    obtain m root ref where s: "s = (m, root, ref)" by (cases s)
    have c: "cont_ok m root ref" "ref = mset (filter (\<lambda>i. \<not> P i) pre)" using I s by auto
    have "size ref \<le> length pre" unfolding c(2) size_mset by (rule length_filter_le)
    then have "size ref < 1000" using xs sz by simp
    from add_ref_ok [OF al c(1) this, of x] show "\<exists>s'. (if P x then ret s else add_ref alloc x s) = ret s' \<and> ?I (pre @ [x]) s'"
      using c s by auto
  next
    show "?I [] (m, None, {#})" using cont_empty [OF m] by simp
  qed
  then show ?thesis by auto
qed

lemma upto_u32_props:
  assumes "sz \<le> 1000"
  shows "distinct (upto_u32 sz)" "length (upto_u32 sz) = sz" "sorted (upto_u32 sz)" "i < sz \<Longrightarrow> upto_u32 sz ! i = of_nat i"
    "i < sz \<Longrightarrow> uint (of_nat i :: u32) = int i"
proof -
  have u: "unat (of_nat i :: u32) = i" if "i < sz" for i using that assms by (intro unat_of_nat_u32) simp
  show "distinct (upto_u32 sz)" using u by (auto simp: upto_u32_def distinct_map intro!: inj_on_inverseI [of _ unat])
  show "sorted (upto_u32 sz)" using u by (auto simp: upto_u32_def sorted_wrt_map sorted_wrt_iff_nth_less word_le_nat_alt)
  show "i < sz \<Longrightarrow> uint (of_nat i :: u32) = int i" using u by (simp add: uint_nat)
qed (simp_all add: upto_u32_def)

text \<open>The three tests that build a container, change it by one element, check and dispose it.\<close>

lemma upto_minus: "sz \<le> 1000 \<Longrightarrow> v \<in> set (upto_u32 sz) \<Longrightarrow> v \<in># mset (upto_u32 sz) \<and>
  filter_mset (\<lambda>x. x \<noteq> v) (mset (upto_u32 sz)) = mset (upto_u32 sz) - {#v#}"
  using distinct_count_atmost_1 [of "upto_u32 sz"] upto_u32_props(1) [of sz]
  by (auto simp: multiset_eq_iff)

lemma add_verify_dispose:
  assumes al: "news alloc" and ok: "cont_ok m root S" and sz: "size S < 1000"
  shows "\<exists>m'. bindE (container_verify m root S) (\<lambda>m.
     bindE (add_ref alloc v (m, root, S)) (\<lambda>(m, root, ref).
     bindE (container_verify m root ref) (\<lambda>m. dispose m root))) = ret m' \<and> mem_ok m'"
proof -
  obtain m2 r2 where a: "add_ref alloc v (m, root, S) = ret (m2, r2, add_mset v S)" "cont_ok m2 r2 (add_mset v S)"
    using add_ref_ok [OF assms] by blast
  obtain m3 where "dispose m2 r2 = ret m3" "mem_ok m3" using dispose_ok [OF a(2)] by blast
  then show ?thesis using a(1) container_verify_ok [OF ok] container_verify_ok [OF a(2)] by simp
qed

lemma test_insert_ok:
  assumes al: "news alloc" and m: "mem_ok m" and sz: "sz \<le> 500"
  shows "\<exists>m'. test_insert alloc sz m = ret m' \<and> mem_ok m'"
  unfolding test_insert_def
proof (rule for_loop_keep [where I = mem_ok, OF _ m])
  fix v m assume "mem_ok m"
  let ?S = "mset (filter (\<lambda>i. i \<noteq> v) (upto_u32 sz))"
  have len: "length (upto_u32 sz) \<le> 1000" using sz upto_u32_props(2) [of sz] by simp
  obtain m1 r1 where f: "for_loop (\<lambda>i s. if i = v then ret s else add_ref alloc i s) (upto_u32 sz) (m, None, {#}) = ret (m1, r1, ?S)"
    "cont_ok m1 r1 ?S" using fill_ok [OF al \<open>mem_ok m\<close> len, of "\<lambda>i. i = v"] by blast
  have "size ?S \<le> length (upto_u32 sz)" unfolding size_mset by (rule length_filter_le)
  then have "size ?S < 1000" using sz upto_u32_props(2) [of sz] by simp
  from add_verify_dispose [OF al f(2) this, of v] show "\<exists>m'. bindE (for_loop (\<lambda>i s. if i = v then ret s else add_ref alloc i s) (upto_u32 sz) (m, None, {#})) (\<lambda>(m, root, ref).
     bindE (container_verify m root ref) (\<lambda>m.
     bindE (add_ref alloc v (m, root, ref)) (\<lambda>(m, root, ref).
     bindE (container_verify m root ref) (\<lambda>m. dispose m root)))) = ret m' \<and> mem_ok m'"
    using f(1) by simp
qed

lemma fill_all:
  assumes "news alloc" "mem_ok m" "sz \<le> 500"
  shows "\<exists>m' root'. for_loop (add_ref alloc) (upto_u32 sz) (m, None, {#}) = ret (m', root', mset (upto_u32 sz)) \<and>
    cont_ok m' root' (mset (upto_u32 sz))"
  using fill_ok [OF assms(1,2), of "upto_u32 sz" "\<lambda>_. False"] upto_u32_props(2) [of sz] assms(3) by simp

lemma test_insert_dup_ok:
  assumes al: "news alloc" and m: "mem_ok m" and sz: "sz \<le> 500"
  shows "\<exists>m'. test_insert_dup alloc sz m = ret m' \<and> mem_ok m'"
  unfolding test_insert_dup_def
proof (rule for_loop_keep [where I = mem_ok, OF _ m])
  fix v m assume "mem_ok m"
  let ?S = "mset (upto_u32 sz)"
  obtain m1 r1 where f: "for_loop (add_ref alloc) (upto_u32 sz) (m, None, {#}) = ret (m1, r1, ?S)" "cont_ok m1 r1 ?S"
    using fill_all [OF al \<open>mem_ok m\<close> sz] by blast
  have "size ?S < 1000" using sz upto_u32_props(2) [of sz] by simp
  from add_verify_dispose [OF al f(2) this, of v] show "\<exists>m'. bindE (for_loop (add_ref alloc) (upto_u32 sz) (m, None, {#})) (\<lambda>(m, root, ref).
     bindE (container_verify m root ref) (\<lambda>m.
     bindE (add_ref alloc v (m, root, ref)) (\<lambda>(m, root, ref).
     bindE (container_verify m root ref) (\<lambda>m. dispose m root)))) = ret m' \<and> mem_ok m'"
    using f(1) by simp
qed

lemma test_remove_ok:
  assumes al: "news alloc" and m: "mem_ok m" and sz: "sz \<le> 500"
  shows "\<exists>m'. test_remove alloc sz m = ret m' \<and> mem_ok m'"
  unfolding test_remove_def
proof (rule for_loop_keep [where I = mem_ok, OF _ m])
  fix v m assume v: "v \<in> set (upto_u32 sz)" and "mem_ok m"
  let ?S = "mset (upto_u32 sz)"
  obtain m1 r1 where f: "for_loop (add_ref alloc) (upto_u32 sz) (m, None, {#}) = ret (m1, r1, ?S)" "cont_ok m1 r1 ?S"
    using fill_all [OF al \<open>mem_ok m\<close> sz] by blast
  have S: "v \<in># ?S" "filter_mset (\<lambda>x. x \<noteq> v) ?S = ?S - {#v#}" using upto_minus [of sz v] v sz by simp_all
  obtain m2 r2 where d: "del m1 r1 v = ret (m2, r2, True)" "cont_ok m2 r2 (?S - {#v#})"
    using del_ok [OF f(2), of v] S(1) by auto
  obtain m3 where "dispose m2 r2 = ret m3" "mem_ok m3" using dispose_ok [OF d(2)] by blast
  then show "\<exists>m'. bindE (for_loop (add_ref alloc) (upto_u32 sz) (m, None, {#})) (\<lambda>(m, root, ref).
     bindE (container_verify m root ref) (\<lambda>m.
     bindE (del m root v) (\<lambda>(m, root, ok).
     bindE (assertE ok) (\<lambda>_.
     bindE (container_verify m root (filter_mset (\<lambda>x. x \<noteq> v) ref)) (\<lambda>m. dispose m root))))) = ret m' \<and> mem_ok m'"
    using f(1) d(1) S(2) container_verify_ok [OF f(2)] container_verify_ok [OF d(2)] by simp
qed

text \<open>Offsets in a container of the numbers below \<open>sz\<close>.\<close>

lemma leftmost_first: "tree_at ts par p t \<Longrightarrow> t \<noteq> \<langle>\<rangle> \<Longrightarrow> leftmost ts p = ret (Some (inorder t ! 0))"
proof (induction t arbitrary: par p)
  case (Node l b r)
  from Node.prems(1) obtain n where n: "p = Some b" "ts b = Some n" "tree_at ts (Some b) (left n) l" by (rule tree_at_cases)
  show ?case
  proof (cases "l = \<langle>\<rangle>")
    case True
    then show ?thesis using n by (subst leftmost.simps) simp
  next
    case False
    then have "left n \<noteq> None" "inorder l \<noteq> []" using n(3) tree_at_null_iff [OF n(3)] by auto
    then show ?thesis using n Node.IH(1) [OF n(3) False] by (subst leftmost.simps) (simp add: nth_append)
  qed
qed simp

lemma fill_plain:
  assumes al: "news alloc" and m: "mem_ok m" and sz: "sz \<le> 500"
  shows "\<exists>m' root'. for_loop (\<lambda>i (m, root). add (alloc m) m root i) (upto_u32 sz) (m, None) = ret (m', root') \<and>
    cont_ok m' root' (mset (upto_u32 sz))"
proof -
  let ?I = "\<lambda>pre (m, root). cont_ok m root (mset pre)"
  have "\<exists>s'. for_loop (\<lambda>i (m, root). add (alloc m) m root i) (upto_u32 sz) (m, None) = ret s' \<and> ?I (upto_u32 sz) s'"
  proof (rule for_loop_inv)
    fix pre x post s
    assume xs: "upto_u32 sz = pre @ x # post" and I: "?I pre s"
    obtain m root where s: "s = (m, root)" by (cases s)
    have c: "cont_ok m root (mset pre)" using I s by simp
    then have "dtree m (alloc m) = None" "dvals m (alloc m) = None" using al by (simp_all add: news_def cont_ok_def)
    moreover have "length pre \<le> sz" using arg_cong [OF xs, of length] upto_u32_props(2) [of sz] sz by simp
    then have "avl_fits (Suc (size (mset pre)))" using sz by (simp add: avl_fits_def)
    ultimately show "\<exists>s'. (case s of (m, root) \<Rightarrow> add (alloc m) m root x) = ret s' \<and> ?I (pre @ [x]) s'"
      using add_ok [OF c] s by fastforce
  qed (use cont_empty [OF m] in simp)
  then show ?thesis by auto
qed

text \<open>
  Nodes \<open>xs\<close> that hold the values from 0 on, and between which \<open>avl_offset\<close> moves by position: the two
  loops of \<open>test_offset\<close> pass.
\<close>

definition numbered :: "avl_store \<Rightarrow> u32 store \<Rightarrow> addr list \<Rightarrow> bool" where
  "numbered ts vs xs \<longleftrightarrow> (\<forall>i < length xs. rd vs (Some (xs ! i)) = ret (of_nat i) \<and>
     (\<forall>k. avl_offset ts (Some (xs ! i)) k = ret (nth_opt xs (int i + k))))"

lemma numbered_holds:
  assumes t: "holds m root t (mset (upto_u32 sz))" and sz: "sz \<le> 1000"
  shows "numbered (dtree m) (dvals m) (inorder t)" "length (inorder t) = sz"
proof -
  note h = holdsD [OF t] and up = upto_u32_props [OF sz]
  let ?xs = "inorder t"
  have vals: "map (dval m) ?xs = upto_u32 sz"
    using properties_for_sort [OF h(4) h(3)] up(3) by (simp add: sort_key_id_if_sorted)
  show len: "length ?xs = sz" using arg_cong [OF vals, of length] up(2) by simp
  have "rd (dvals m) (Some (?xs ! i)) = ret (of_nat i)" if "i < sz" for i
  proof -
    have "?xs ! i \<in> set_tree t" using that len by (metis nth_mem set_inorder)
    then obtain v where "dvals m (?xs ! i) = Some v" using h(2) by auto
    moreover have "dval m (?xs ! i) = of_nat i" using arg_cong [OF vals, of "\<lambda>l. l ! i"] that len up(4) by simp
    ultimately show ?thesis by (simp add: dval_def)
  qed
  then show "numbered (dtree m) (dvals m) ?xs" using avl_rep_offset [OF h(1)] len by (simp add: numbered_def)
qed

lemma offsets_between:
  assumes num: "numbered ts vs xs" and sz: "length xs = sz" "sz \<le> 1000" and i: "i < sz"
  shows "\<exists>s'. for_loop (\<lambda>j _. bindE (avl_offset ts (Some (xs ! i)) (uint j - int i)) (\<lambda>p.
      bindE (rd vs p) (\<lambda>w. assertE (w = j)))) (upto_u32 sz) () = ret s' \<and> True"
proof (rule for_loop_keep)
  fix j s assume "j \<in> set (upto_u32 sz)"
  then obtain n where n: "n < sz" "j = of_nat n" by (auto simp: upto_u32_def)
  then show "\<exists>s'. bindE (avl_offset ts (Some (xs ! i)) (uint j - int i)) (\<lambda>p. bindE (rd vs p) (\<lambda>w. assertE (w = j))) = ret s' \<and> True"
    using num upto_u32_props(5) [OF sz(2) n(1)] sz(1) i by (simp add: numbered_def nth_opt_def)
qed simp

lemma offsets_from_each:
  assumes num: "numbered ts vs xs" and sz: "length xs = sz" "sz \<le> 1000"
  shows "\<exists>s'. for_loop (\<lambda>i _. bindE (avl_offset ts (Some (xs ! 0)) (uint i)) (\<lambda>node.
       bindE (rd vs node) (\<lambda>v.
       bindE (assertE (v = i)) (\<lambda>_.
       bindE (for_loop (\<lambda>j _.
         bindE (avl_offset ts node (uint j - uint i)) (\<lambda>another_node.
         bindE (rd vs another_node) (\<lambda>w. assertE (w = j)))) (upto_u32 sz) ()) (\<lambda>_.
       bindE (avl_offset ts node (- uint i - 1)) (\<lambda>p.
       bindE (assertE (p = None)) (\<lambda>_.
       bindE (avl_offset ts node (uint (of_nat sz - i))) (\<lambda>p.
       assertE (p = None))))))))) (upto_u32 sz) () = ret s' \<and> True" (is "\<exists>s'. for_loop ?body _ _ = _ \<and> _")
proof (rule for_loop_keep)
  fix i :: u32 and s :: unit assume "i \<in> set (upto_u32 sz)"
  then obtain n where n: "n < sz" "i = of_nat n" by (auto simp: upto_u32_def)
  have u: "uint i = int n" using upto_u32_props(5) [OF sz(2) n(1)] n(2) by simp
  have "of_nat sz - i = of_nat (sz - n)" using n by (simp add: of_nat_diff)
  moreover have "uint (of_nat (sz - n) :: u32) = int (sz - n)"
    using unat_of_nat_u32 [of "sz - n"] sz(2) by (simp add: uint_nat)
  ultimately have u': "uint (of_nat sz - i) = int (sz - n)" by simp
  have off: "avl_offset ts (Some (xs ! k)) d = ret (nth_opt xs (int k + d))" if "k < sz" for k d
    using num that sz(1) by (simp add: numbered_def)
  obtain s' where "for_loop (\<lambda>j _. bindE (avl_offset ts (Some (xs ! n)) (uint j - int n)) (\<lambda>p.
      bindE (rd vs p) (\<lambda>w. assertE (w = j)))) (upto_u32 sz) () = ret s'" using offsets_between [OF num sz n(1)] by blast
  moreover have "rd vs (Some (xs ! n)) = ret (of_nat n)" using num n(1) sz(1) by (simp add: numbered_def)
  ultimately show "\<exists>s'. ?body i s = ret s' \<and> True"
    unfolding u u' using off [of 0 "int n"] off [OF n(1), of "- int n - 1"] off [OF n(1), of "int (sz - n)"] n sz(1)
    by (simp add: nth_opt_def)
qed simp

lemma test_offset_ok:
  assumes al: "news alloc" and m: "mem_ok m" and sz: "1 \<le> sz" "sz \<le> 500"
  shows "\<exists>m'. test_offset alloc sz m = ret m' \<and> mem_ok m'"
proof -
  have le: "sz \<le> 1000" using sz by simp
  obtain m1 root where f: "for_loop (\<lambda>i (m, root). add (alloc m) m root i) (upto_u32 sz) (m, None) = ret (m1, root)"
    "cont_ok m1 root (mset (upto_u32 sz))" using fill_plain [OF al m sz(2)] by blast
  obtain t where t: "holds m1 root t (mset (upto_u32 sz))" using f(2) unfolding cont_ok_def by blast
  note num = numbered_holds [OF t le]
  have "t \<noteq> \<langle>\<rangle>" using num(2) sz(1) by auto
  then have min: "leftmost (dtree m1) root = ret (Some (inorder t ! 0))"
    using leftmost_first avl_repD(1) [OF holdsD(1) [OF t]] by blast
  obtain m2 where "dispose m1 root = ret m2" "mem_ok m2" using dispose_ok [OF f(2)] by blast
  then show ?thesis using f(1) min offsets_from_each [OF num le] by (auto simp: test_offset_def)
qed

section \<open>The whole program\<close>

lemma test_quick_ok:
  assumes al: "news alloc" and m: "mem_ok m"
  shows "\<exists>m' root. test_quick alloc m = ret (m', root) \<and> cont_ok m' root {#}"
proof -
  note c0 = cont_empty [OF m]
  have fr: "dtree m (alloc m) = None" "dvals m (alloc m) = None" using al m by (simp_all add: news_def)
  have "avl_fits (Suc (size {#}))" by (simp add: avl_fits_def)
  then obtain m1 r1 where a: "add (alloc m) m None 123 = ret (m1, r1)" "cont_ok m1 r1 {#123#}"
    using add_ok [OF c0 fr] by blast
  obtain m2 r2 where b: "del m1 r1 124 = ret (m2, r2, False)" "cont_ok m2 r2 {#123#}"
    using del_ok [OF a(2), of 124] by (auto simp: diff_single_trivial)
  obtain m3 r3 where c: "del m2 r2 123 = ret (m3, r3, True)" "cont_ok m3 r3 {#}"
    using del_ok [OF b(2), of 123] by auto
  show ?thesis using a(1) b(1) c container_verify_ok [OF c0] container_verify_ok [OF a(2)] container_verify_ok [OF c(2)]
    by (simp add: test_quick_def)
qed

text \<open>Additions may be made as long as the container stays below 1000 elements.\<close>

lemma add_and_verify_ok:
  assumes al: "news alloc" and ok: "at_most k s" and k: "k < 1000"
  shows "\<exists>s'. add_and_verify alloc v s = ret s' \<and> at_most (Suc k) s'"
proof -
  obtain m root ref where s: "s = (m, root, ref)" "cont_ok m root ref" "size ref \<le> k" using ok by (cases s) (auto simp: at_most_def)
  then obtain m1 r1 where a: "add_ref alloc v s = ret (m1, r1, add_mset v ref)" "cont_ok m1 r1 (add_mset v ref)"
    using add_ref_ok [OF al s(2)] k by fastforce
  then show ?thesis using container_verify_ok [OF a(2)] s(3) by (simp add: add_and_verify_def at_most_def)
qed

lemma del_and_verify_ok:
  assumes "at_most k s"
  shows "\<exists>s'. del_and_verify v s = ret s' \<and> at_most k s'"
proof -
  obtain m root ref where s: "s = (m, root, ref)" "cont_ok m root ref" "size ref \<le> k" using assms by (cases s) (auto simp: at_most_def)
  obtain m1 r1 where d: "del m root v = ret (m1, r1, v \<in># ref)" "cont_ok m1 r1 (ref - {#v#})" using del_ok [OF s(2)] by blast
  have "size (ref - {#v#}) \<le> k" using s(3) size_mset_mono [of "ref - {#v#}" ref] by (simp add: order_trans)
  then show ?thesis using s(1,3) d container_verify_ok [OF d(2)]
    by (cases "v \<in># ref") (simp_all add: del_and_verify_def at_most_def Let_def diff_single_trivial)
qed

lemma adds_ok:
  assumes al: "news alloc" and s: "at_most k s" and k: "k + length xs \<le> 1000"
  shows "\<exists>s'. for_loop (\<lambda>i. add_and_verify alloc (g i)) xs s = ret s' \<and> at_most (k + length xs) s'"
proof (rule for_loop_inv [where I = "\<lambda>pre. at_most (k + length pre)"])
  fix pre x post s
  assume "xs = pre @ x # post" "at_most (k + length pre) s"
  then show "\<exists>s'. add_and_verify alloc (g x) s = ret s' \<and> at_most (k + length (pre @ [x])) s'"
    using add_and_verify_ok [OF al, of "k + length pre" s "g x"] k by simp
qed (use s in simp)

lemma test_main_ok:
  assumes al: "news alloc" and m: "mem_ok m"
  shows "\<exists>m'. test_main alloc rnd m = ret (0, m')"
proof -
  obtain m1 r1 where q: "test_quick alloc m = ret (m1, r1)" "cont_ok m1 r1 {#}" using test_quick_ok [OF al m] by blast
  then have "at_most 0 (m1, r1, {#})" by (simp add: at_most_def)
  from adds_ok [OF al this, of "map (\<lambda>k. 3 * of_nat k) [0..<334]" id] obtain s2 where
    s2: "for_loop (add_and_verify alloc) (map (\<lambda>k. 3 * of_nat k) [0..<334]) (m1, r1, {#}) = ret s2" "at_most 334 s2" by auto
  from adds_ok [OF al this(2), of "[0..<100]" "\<lambda>i. rnd i mod 1000"] obtain s3 where
    s3: "for_loop (\<lambda>i. add_and_verify alloc (rnd i mod 1000)) [0..<100] s2 = ret s3" "at_most 434 s3" by auto
  obtain s4 where s4: "for_loop (\<lambda>i. del_and_verify (rnd i mod 1000)) [100..<300] s3 = ret s4" "at_most 434 s4"
    using for_loop_keep [where I = "at_most 434" and f = "\<lambda>i. del_and_verify (rnd i mod 1000)" and xs = "[100..<300]", OF _ s3(2)]
      del_and_verify_ok by blast
  obtain m4 r4 ref4 where e4: "s4 = (m4, r4, ref4)" by (cases s4)
  then have m4: "mem_ok m4" using s4(2) by (simp add: at_most_def cont_ok_def)
  let ?tests = "\<lambda>i m. bindE (test_insert alloc i m) (\<lambda>m. bindE (test_insert_dup alloc i m) (\<lambda>m. test_remove alloc i m))"
  have "\<exists>m5. for_loop ?tests [0..<200] m4 = ret m5 \<and> mem_ok m5"
  proof (rule for_loop_keep [where I = mem_ok, OF _ m4])
    fix i m assume i: "i \<in> set [0..<200]" and "mem_ok m"
    then obtain ma where a: "test_insert alloc i m = ret ma" "mem_ok ma" using test_insert_ok [OF al \<open>mem_ok m\<close>, of i] by auto
    obtain mb where b: "test_insert_dup alloc i ma = ret mb" "mem_ok mb" using test_insert_dup_ok [OF al a(2), of i] i by auto
    show "\<exists>m'. ?tests i m = ret m' \<and> mem_ok m'" using a(1) b(1) test_remove_ok [OF al b(2), of i] i by auto
  qed
  then obtain m5 where m5: "for_loop ?tests [0..<200] m4 = ret m5" "mem_ok m5" by blast
  have "\<exists>m6. for_loop (test_offset alloc) [1..<500] m5 = ret m6 \<and> mem_ok m6"
    by (rule for_loop_keep [where I = mem_ok, OF _ m5(2)]) (rule test_offset_ok [OF al], auto)
  then obtain m6 where m6: "for_loop (test_offset alloc) [1..<500] m5 = ret m6" by blast
  show ?thesis unfolding test_main_def using q(1) s2(1) s3(1) s4(1) e4 m5(1) m6 by simp
qed

end
