(* ===== verification/Examples.thy ===== *)
theory Examples
  imports Zset_Spec Ttl_Heap Client Idle_List Thread_Pool
begin

unbundle bit_operations_syntax

text \<open>
  Concrete states on which the hypotheses of the theorems are checked by evaluation.
\<close>

section \<open>A tree of three nodes\<close>

definition three_nodes :: avl_store where
  "three_nodes = [
     0 \<mapsto> \<lparr>depth = 1, cnt = 1, left = None, right = None, parent = Some 1\<rparr>,
     1 \<mapsto> \<lparr>depth = 2, cnt = 3, left = Some 0, right = Some 2, parent = None\<rparr>,
     2 \<mapsto> \<lparr>depth = 1, cnt = 1, left = None, right = None, parent = Some 1\<rparr>]"

definition three_tree :: "addr tree" where
  "three_tree = \<langle>\<langle>\<langle>\<rangle>, 0, \<langle>\<rangle>\<rangle>, 1, \<langle>\<langle>\<rangle>, 2, \<langle>\<rangle>\<rangle>\<rangle>"

lemma three_nodes_rep: "avl_rep three_nodes (Some 1) three_tree"
  by (simp add: avl_rep_def avl_fits_def three_nodes_def three_tree_def)

section \<open>A hash map with 31 nodes, all of hash code 1\<close>

definition full_nodes :: hstore where
  "full_nodes a = (if a < 32 then Some \<lparr>hnext = (if a = 0 \<or> a = 31 then None else Some (a - 1)), hcode = 1\<rparr> else None)"

definition full_map :: HMap where
  "full_map = \<lparr>ht_to = \<lparr>table = Some [None, Some 30, None, None], hmask = 3, hsize = 31\<rparr>,
     ht_from = HTable_default, resizing_pos = 0\<rparr>"

lemma full_chain: "k < 31 \<Longrightarrow> chain full_nodes (Some k) (rev [0..<Suc k])"
  by (induction k) (auto simp: full_nodes_def)

lemma full_tab: "tab_at full_nodes (ht_to full_map) [[], rev [0..<31], [], []]"
proof -
  have eq: "Suc 30 = 31" by simp
  have "chain full_nodes (Some 30) (rev [0..<Suc 30])" by (rule full_chain) simp
  then have ch: "chain full_nodes (Some 30) (rev [0..<31])" unfolding eq .
  have bk: "in_bucket full_nodes (ht_to full_map) 1 a" if "a < 31" for a
    using that by (simp add: in_bucket_def full_nodes_def bucket_of_def full_map_def)
  let ?bs = "[[], rev [0..<31], [], []] :: addr list list" and ?ps = "[None, Some 30, None, None] :: ptr list"
  have "chain full_nodes (?ps ! i) (?bs ! i) \<and> (\<forall>a \<in> set (?bs ! i). in_bucket full_nodes (ht_to full_map) i a)"
    if "i < 4" for i
  proof -
    from that consider "i = 0" | "i = 1" | "i = 2" | "i = 3" by linarith
    then show ?thesis using ch bk by cases auto
  qed
  moreover have "\<exists>k < 63. Suc (Suc (Suc (Suc 0))) = 2 ^ k" by (rule exI [of _ 2]) simp
  ultimately show ?thesis by (simp add: tab_at_def full_map_def)
qed

lemma full_map_small: "hm_small full_nodes full_map {0..<31}"
proof -
  have "hm_at full_nodes full_map [[], rev [0..<31], [], []] []"
    using full_tab by (simp add: hm_at_def full_map_def)
  then show ?thesis unfolding hm_small_def by (intro conjI exI [of _ "[[], rev [0..<31], [], []]"]) auto
qed

section \<open>Timers\<close>

definition two_timers :: "HeapItem list" where
  "two_timers = [\<lparr>val = 5, ref = Some 11\<rparr>, \<lparr>val = 9, ref = Some 10\<rparr>]"

definition two_slots :: "nat store" where
  "two_slots = [10 \<mapsto> 1, 11 \<mapsto> 0, 12 \<mapsto> SIZE_MAX]"

lemma two_timers_inv: "ttl_inv two_timers two_slots"
proof -
  have "heap_ordered two_timers"
    by (auto simp: heap_ordered_def two_timers_def less_Suc_eq par_def)
  moreover have "linked two_slots two_timers"
    by (auto simp: linked_def linked_at_def two_timers_def two_slots_def less_Suc_eq)
  moreover have "a \<in> refs two_timers" if "two_slots a = Some i" "i \<noteq> SIZE_MAX" for a i
    using that by (auto simp: two_slots_def two_timers_def refs_def split: if_splits)
  ultimately show ?thesis by (simp add: ttl_inv_def two_timers_def)
qed

section \<open>A socket that accepts one byte per call and delivers one byte per call\<close>

definition slow_write :: "bytes \<Rightarrow> bytes \<Rightarrow> int \<times> bytes" where
  "slow_write sent buf = (case buf of [] \<Rightarrow> (0, sent) | b # _ \<Rightarrow> (1, sent @ [b]))"

definition slow_read :: "bytes \<Rightarrow> nat \<Rightarrow> int \<times> bytes \<times> bytes" where
  "slow_read pending n = (case pending of [] \<Rightarrow> (0, [], [])
     | b # bs \<Rightarrow> if n = 0 then (0, [], pending) else (1, [b], bs))"

lemma slow_write_prefix: "writes_prefix slow_write (\<lambda>k. k)"
  by (auto simp: writes_prefix_def slow_write_def split: list.splits)

lemma slow_read_prefix: "reads_prefix slow_read (\<lambda>k. k)"
  by (auto simp: reads_prefix_def slow_read_def split: list.splits if_splits)

section \<open>A sorted set with one member\<close>

definition empty_mem :: zmem where
  "empty_mem = \<lparr>tnodes = Map.empty, hnodes = Map.empty, znodes = Map.empty\<rparr>"

lemma empty_mem_simps [simp]: "tnodes empty_mem a = None" "hnodes empty_mem a = None" "znodes empty_mem a = None"
  by (simp_all add: empty_mem_def)

lemma zero_not_nan [simp]: "\<not> dbl_nan 0"
  by (simp add: dbl_nan_def dbl_mag_def)

lemma empty_zscores [simp]: "zscores empty_mem \<langle>\<rangle> = Map.empty"
  by (simp add: zscores_def zview_def)

lemma one_member:
  obtains m zset t where "zset_add empty_mem ZSet_default (Some 7) [97] 0 = ret (m, zset, True)"
    "zset_ok m zset t" "set_tree t = {7}" "zscores m t [97] = Some 0"
  by (rule zset_add_new [OF zset_ok_empty, of empty_mem "[97]" 0 7])
    (auto intro: that)

section \<open>An idle list with two connections\<close>

definition two_conns :: dstore where
  "two_conns = [0 \<mapsto> \<lparr>prev = Some 2, nxt = Some 1\<rparr>, 1 \<mapsto> \<lparr>prev = Some 0, nxt = Some 2\<rparr>,
     2 \<mapsto> \<lparr>prev = Some 1, nxt = Some 0\<rparr>]"

lemma two_conns_at: "dlist_at two_conns 0 [1, 2]"
  by (simp add: dlist_at_def lnk_def nx_def pv_def two_conns_def)

section \<open>A pool of one thread with a job pushed\<close>

definition one_job :: "nat ThreadPool" where
  "one_job = \<lparr>threads = [WLock], queue = [5], mu = Producer, caller = PSignal, pushed = [5], popped = [], ran = []\<rparr>"

lemma one_job_reachable: "reachable 1 one_job"
proof -
  let ?i = "\<lparr>threads = [WLock], queue = [], mu = Free, caller = PIdle, pushed = [], popped = [], ran = []\<rparr> :: nat ThreadPool"
  have "reachable 1 ?i" by (rule reachable.init [of "\<lambda>_. 0" 1]) (simp_all add: thread_pool_init_def)
  then have "reachable 1 (?i\<lparr>caller := PLock 5\<rparr>)" by (rule reachable.call) (simp add: thread_pool_queue_def)
  moreover have "queue_step (?i\<lparr>caller := PLock 5\<rparr>) (?i\<lparr>caller := PPush 5, mu := Producer\<rparr>)"
    using plock [of "?i\<lparr>caller := PLock 5\<rparr>" 5] by simp
  ultimately have "reachable 1 (?i\<lparr>caller := PPush 5, mu := Producer\<rparr>)"
    using reachable.step pool_step.producer by blast
  moreover have "queue_step (?i\<lparr>caller := PPush 5, mu := Producer\<rparr>) one_job"
    using push [of "?i\<lparr>caller := PPush 5, mu := Producer\<rparr>" 5] by (simp add: one_job_def)
  ultimately show ?thesis using reachable.step pool_step.producer by blast
qed

end
