(* ===== verification/Examples_Server.thy ===== *)
theory Examples_Server
  imports Examples Exchange Test_Avl_Spec
begin

unbundle bit_operations_syntax

text \<open>
  Concrete kernels, servers and connections on which the hypotheses of the theorems about the key space,
  the connections and the event loop hold.
\<close>

section \<open>An allocator and a kernel\<close>

text \<open>Addresses above everything allocated.\<close>

definition above :: "nat set \<Rightarrow> nat" where
  "above A = Suc (Max (insert 0 A))"

lemma above_fresh:
  assumes "finite A"
  shows "above A \<notin> A"
proof
  assume "above A \<in> A"
  then have "above A \<le> Max (insert 0 A)" using assms by simp
  then show False by (simp add: above_def)
qed

definition bump :: "server \<Rightarrow> addr \<times> addr" where
  "bump s = (above (dom (entries s) \<union> dom (enodes s) \<union> dom (heap_idx s)),
     above (dom (tnodes (zheap s)) \<union> dom (hnodes (zheap s)) \<union> dom (znodes (zheap s))))"

text \<open>The same for the nodes of the test program.\<close>

definition fresh_data :: "dmem \<Rightarrow> addr" where
  "fresh_data m = above (dom (dtree m) \<union> dom (dvals m))"

lemma fresh_data_news: "news fresh_data"
proof -
  have "fresh_data m \<notin> dom (dtree m) \<union> dom (dvals m)" if "mem_ok m" for m
    unfolding fresh_data_def using that by (intro above_fresh) (simp add: mem_ok_def)
  then show ?thesis by (auto simp: news_def)
qed

text \<open>A kernel with the bytes sent and the bytes to be delivered per descriptor; reads and writes take all they can.\<close>

type_synonym net = "(nat \<Rightarrow> bytes) \<times> (nat \<Rightarrow> bytes)"

definition eager_write :: "net \<Rightarrow> nat \<Rightarrow> bytes \<Rightarrow> io \<times> net" where
  "eager_write k f buf = (Count (length buf), (fst k)(f := fst k f @ buf), snd k)"

definition eager_read :: "net \<Rightarrow> nat \<Rightarrow> nat \<Rightarrow> io \<times> bytes \<times> net" where
  "eager_read k f cap = (if snd k f = [] then (Eagain, [], k)
     else (Count (min cap (length (snd k f))), take cap (snd k f), fst k, (snd k)(f := drop cap (snd k f))))"

definition eager :: "net env" where
  "eager = \<lparr>sys_write = eager_write, sys_read = eager_read, alloc = \<lambda>_ s. (fst (bump s), Some (snd (bump s)))\<rparr>"

lemma eager_net: "net_ok eager fst snd (\<lambda>_. 0)"
  by (auto simp: net_ok_def eager_def eager_write_def eager_read_def split: if_splits)

lemma eager_prompt: "prompt eager snd"
  by (auto simp: prompt_def eager_def eager_read_def split: if_splits)

lemma bump_fresh: "mem_finite s \<Longrightarrow> fresh_for s (fst (bump s)) (snd (bump s))"
  using above_fresh [of "dom (entries s) \<union> dom (enodes s) \<union> dom (heap_idx s)"]
    above_fresh [of "dom (tnodes (zheap s)) \<union> dom (hnodes (zheap s)) \<union> dom (znodes (zheap s))"]
  by (auto simp: mem_finite_def fresh_for_def bump_def unused_def unused_node_def)

lemma eager_alloc: "fresh_alloc eager"
  using bump_fresh by (simp add: fresh_alloc_def eager_def)

section \<open>Servers with given keys\<close>

lemma server_with_keys:
  assumes "distinct ks" "length ks < 32"
  shows "\<exists>s M. server_at s M \<and> dom M = set ks \<and> (\<forall>k \<in> set ks. M k = Some \<lparr>it_val = [1], it_set = None, it_ttl = None\<rparr>)"
  using assms
proof (induction ks)
  case Nil
  then show ?case using server_at_init by auto
next
  case (Cons k ks)
  then obtain s M where s: "server_at s M" "dom M = set ks" "\<forall>k \<in> set ks. M k = Some \<lparr>it_val = [1], it_set = None, it_ttl = None\<rparr>"
    by auto
  have "mem_finite s" using s(1) unfolding server_at_def server_ok_def by blast
  then have u: "unused s (fst (bump s))" using bump_fresh by (auto simp: fresh_for_def)
  have n: "M k = None" using s(2) Cons.prems(1) by auto
  have "card (dom M) + 1 < 32" using s(2) Cons.prems distinct_card [of ks] by simp
  then obtain s' where s': "server_at s' (M(k \<mapsto> set_item (M k) [1]))"
    using do_set_ok [OF s(1), of "[1]" k "fst (bump s)" "[]"] u by (auto simp: K_MAX_MSG_def)
  show ?case
  proof (intro exI conjI)
    show "server_at s' (M(k \<mapsto> set_item (M k) [1]))" by (rule s')
    show "dom (M(k \<mapsto> set_item (M k) [1])) = set (k # ks)" using s(2) by simp
    show "\<forall>l \<in> set (k # ks). (M(k \<mapsto> set_item (M k) [1])) l = Some \<lparr>it_val = [1], it_set = None, it_ttl = None\<rparr>"
      using s(3) n by (simp add: set_item_def)
  qed
qed

text \<open>31 keys of one byte each.\<close>

definition many_keys :: "bytes list" where
  "many_keys = map (\<lambda>i. [of_nat i]) [0..<31]"

lemma many_keys_distinct: "distinct many_keys" "length many_keys = 31" "[200] \<notin> set many_keys" "[0] \<in> set many_keys"
proof -
  have "inj_on (\<lambda>i. [of_nat i :: u8]) {0..<31}"
    by (rule inj_on_inverseI [of _ "\<lambda>b. unat (hd b)"]) (simp add: unat_of_nat take_bit_nat_eq_self)
  then show "distinct many_keys" by (simp add: many_keys_def distinct_map)
  have "(200 :: u8) \<noteq> of_nat i" if "i < 31" for i :: nat
  proof
    assume "(200 :: u8) = of_nat i"
    then have "unat (200 :: u8) = unat (of_nat i :: u8)" by simp
    then show False using that by (simp add: unat_of_nat take_bit_nat_eq_self)
  qed
  then show "[200] \<notin> set many_keys" by (auto simp: many_keys_def)
  show "[0] \<in> set many_keys" by (auto simp: many_keys_def image_iff intro!: bexI [of _ 0])
qed (simp add: many_keys_def)

lemma full_server:
  obtains s M where "server_at s M" "card (dom M) = 31" "M [200] = None" "[0] \<in> dom M" "unused s (fst (bump s))"
proof -
  obtain s M where s: "server_at s M" "dom M = set many_keys" using server_with_keys [OF many_keys_distinct(1)] many_keys_distinct(2) by auto
  then have "mem_finite s" unfolding server_at_def server_ok_def by blast
  then have "unused s (fst (bump s))" using bump_fresh by (auto simp: fresh_for_def)
  moreover have "card (dom M) = 31" using s(2) distinct_card [OF many_keys_distinct(1)] many_keys_distinct(2) by simp
  moreover have "M [200] = None" "[0] \<in> dom M" unfolding s(2) domIff [symmetric] using many_keys_distinct(3,4) s(2) by auto
  ultimately show thesis using that s(1) by blast
qed

section \<open>Short input\<close>

text \<open>A request adds at most one key and one member, so short input can not exhaust an empty server.\<close>

definition bounded :: "nat \<Rightarrow> keyspace \<Rightarrow> bool" where
  "bounded n M \<longleftrightarrow> finite (dom M) \<and> card (dom M) \<le> n \<and>
     (\<forall>k it Z. M k = Some it \<longrightarrow> it_set it = Some Z \<longrightarrow> finite (dom Z) \<and> card (dom Z) \<le> n)"

lemma bounded_mono: "bounded n M \<Longrightarrow> n \<le> m \<Longrightarrow> bounded m M"
  unfolding bounded_def by (meson order_trans)

lemma bounded_item: "bounded n M \<Longrightarrow> M k = Some it \<Longrightarrow> it_set it = Some Z \<Longrightarrow> finite (dom Z) \<and> card (dom Z) \<le> n"
  unfolding bounded_def by blast

lemma bounded_upd:
  assumes "bounded n M" "\<And>Z. it_set it = Some Z \<Longrightarrow> finite (dom Z) \<and> card (dom Z) \<le> Suc n"
  shows "bounded (Suc n) (M(k \<mapsto> it))"
proof -
  have "card (insert k (dom M)) \<le> Suc n" using assms(1) by (simp add: bounded_def card_insert_if)
  then show ?thesis using assms bounded_mono [OF assms(1), of "Suc n"] unfolding bounded_def by simp
qed

lemma card_dom_upd: "finite (dom Z) \<Longrightarrow> card (dom Z) \<le> n \<Longrightarrow> finite (dom (Z(nm := x))) \<and> card (dom (Z(nm := x))) \<le> Suc n"
  using card_mono [of "dom Z" "dom Z - {nm}"] by (cases x) (auto simp: card_insert_if)

lemma serves_bounded:
  assumes "serves M cmd v M'" "bounded n M"
  shows "bounded (Suc n) M'"
  using assms
proof (induction rule: serves.induct)
  case (set c M k v)
  have "finite (dom Z) \<and> card (dom Z) \<le> Suc n" if "it_set (set_item (M k) v) = Some Z" for Z
    using that bounded_item [OF set(2), of k] by (fastforce simp: set_item_def split: option.splits)
  then show ?case using bounded_upd [OF set(2)] by blast
next
  case (del c M k)
  then have "finite (dom M)" "card (dom M) \<le> n" by (simp_all add: bounded_def)
  then have "finite (dom (M(k := None)))" "card (dom (M(k := None))) \<le> Suc n"
    using card_mono [of "dom M" "dom M - {k}"] by auto
  moreover have "finite (dom Z) \<and> card (dom Z) \<le> Suc n" if "(M(k := None)) l = Some it" "it_set it = Some Z" for l it Z
    using bounded_item [OF del(2), of l it Z] that by (cases "l = k") auto
  ultimately show ?case unfolding bounded_def del_spec_def snd_conv by blast
next
  case (zadd c M k sc nm)
  obtain ok d where sc: "str2double sc = (ok, d)" by (cases "str2double sc")
  have Z: "finite (dom Z) \<and> card (dom Z) \<le> n" if "it_set (zadd_base (M k)) = Some Z" for Z
    using that bounded_item [OF zadd(2), of k] by (cases "M k") (auto simp: zadd_base_def)
  have "bounded (Suc n) (M(k \<mapsto> zadd_base (M k)\<lparr>it_set := Some (Z(nm := x))\<rparr>))" if "it_set (zadd_base (M k)) = Some Z" for Z x
  proof (rule bounded_upd [OF zadd(2)])
    fix Z' assume "it_set (zadd_base (M k)\<lparr>it_set := Some (Z(nm := x))\<rparr>) = Some Z'"
    then have "Z' = Z(nm := x)" by simp
    then show "finite (dom Z') \<and> card (dom Z') \<le> Suc n" using card_dom_upd [of Z n nm x] Z [OF that] by simp
  qed
  moreover have "snd (zadd_spec M k sc nm) = M \<or> (\<exists>Z x. it_set (zadd_base (M k)) = Some Z \<and>
      snd (zadd_spec M k sc nm) = M(k \<mapsto> zadd_base (M k)\<lparr>it_set := Some (Z(nm := x))\<rparr>))"
    using sc by (cases ok; cases "it_set (zadd_base (M k))") (auto simp: zadd_spec_def Let_def)
  ultimately show ?case using bounded_mono [OF zadd(2), of "Suc n"] by (metis le_SucI order_refl)
next
  case (zrem c M k nm)
  have "bounded (Suc n) (M(k \<mapsto> it\<lparr>it_set := Some (Z(nm := None))\<rparr>))" if "M k = Some it" "it_set it = Some Z" for it Z
  proof (rule bounded_upd [OF zrem(2)])
    fix Z' assume "it_set (it\<lparr>it_set := Some (Z(nm := None))\<rparr>) = Some Z'"
    then have "Z' = Z(nm := None)" by simp
    then show "finite (dom Z') \<and> card (dom Z') \<le> Suc n" using card_dom_upd [of Z n nm None] bounded_item [OF zrem(2) that] by simp
  qed
  then show ?case using bounded_mono [OF zrem(2), of "Suc n"] by (simp add: zrem_spec_def split: option.splits)
qed (simp_all add: bounded_mono)

lemma serves_all_bounded: "serves_all M cmds out M' \<Longrightarrow> bounded n M \<Longrightarrow> bounded (n + length cmds) M'"
proof (induction arbitrary: n rule: serves_all.induct)
  case (Cons M cmd v M1 cmds out M2)
  then show ?case using serves_bounded [OF Cons(1)] Cons.IH [of "Suc n"] by simp
qed simp

lemma short_input_roomy:
  assumes "length bs < 120"
  shows "stays_roomy Map.empty bs"
  unfolding stays_roomy_def
proof (intro allI impI)
  fix cmds rest out M'
  assume a: "bs = concat (map req_image cmds) @ rest" "serves_all Map.empty cmds out M'"
  have "4 * length cs \<le> length (concat (map req_image cs))" for cs by (induction cs) (simp_all add: req_image_def)
  then have "4 * length cmds \<le> length bs" using a(1) by (simp add: trans_le_add1)
  then have "length cmds \<le> 29" using assms by simp
  moreover have "bounded 0 Map.empty" by (simp add: bounded_def)
  ultimately have "bounded 29 M'" using bounded_mono [OF serves_all_bounded [OF a(2), of 0], of 29] by simp
  then have "card (dom M') \<le> 29" "\<And>k it Z. M' k = Some it \<Longrightarrow> it_set it = Some Z \<Longrightarrow> card (dom Z) \<le> 29"
    unfolding bounded_def by blast+
  then show "roomy M'" unfolding roomy_def by force
qed

section \<open>Connections\<close>

definition new_conn :: Conn where
  "new_conn = \<lparr>fd = 3, state = STATE_REQ, rbuf_size = 0, rbuf = replicate BUF_SIZE 0, wbuf_size = 0, wbuf_sent = 0,
     wbuf = replicate BUF_SIZE 0, idle_start = 0\<rparr>"

lemma new_conn_fine: "conn_ok new_conn" "not_full new_conn" "state new_conn = STATE_REQ" "received new_conn = []" "fd new_conn = 3"
  by (simp_all add: new_conn_def conn_ok_def not_full_def received_def BUF_SIZE_def)

text \<open>A connection that still has a byte to send and already holds the next request, \<open>keys\<close>.\<close>

definition keys_request :: bytes where
  "keys_request = req_image [lit ''keys'']"

definition piped_conn :: Conn where
  "piped_conn = new_conn\<lparr>state := STATE_RES, rbuf_size := length keys_request,
     rbuf := keys_request @ replicate (BUF_SIZE - length keys_request) 0, wbuf_size := 1\<rparr>"

lemma keys_request_length: "length keys_request = 16"
  by (simp add: keys_request_def req_image_def req_payload_def arg_image_def lit_def)

lemma piped_conn_fine:
  "conn_ok piped_conn" "not_full piped_conn" "state piped_conn = STATE_RES" "received piped_conn = keys_request" "fd piped_conn = 3"
  by (simp_all add: piped_conn_def new_conn_def conn_ok_def not_full_def received_def BUF_SIZE_def K_MAX_MSG_def keys_request_length)

text \<open>A kernel with a request waiting on the descriptor of \<open>new_conn\<close>.\<close>

definition asking :: net where
  "asking = (\<lambda>_. [], (\<lambda>_. [])(3 := keys_request))"

lemma asking_roomy: "stays_roomy Map.empty (in_stream snd asking new_conn)"
  using keys_request_length by (intro short_input_roomy) (simp add: in_stream_def new_conn_fine asking_def)

section \<open>An operating system\<close>

text \<open>
  The kernel above together with a flag that descriptor 3 is in use. There is one client at a time: a new
  connection has descriptor 3, and \<open>script\<close> is what its client sends. The clock stands at \<open>ns\<close> nanoseconds,
  and every descriptor is always ready.
\<close>

type_synonym host = "net \<times> bool"

definition quiet :: net where
  "quiet = (\<lambda>_. [], \<lambda>_. [])"

definition host_net :: "host env" where
  "host_net = \<lparr>sys_write = \<lambda>k f buf. (case eager_write (fst k) f buf of (rv, n) \<Rightarrow> (rv, n, snd k)),
     sys_read = \<lambda>k f cap. (case eager_read (fst k) f cap of (rv, bs, n) \<Rightarrow> (rv, bs, n, snd k)), alloc = \<lambda>_ s. (fst (bump s), Some (snd (bump s)))\<rparr>"

definition host_accept :: "bytes \<Rightarrow> host \<Rightarrow> int \<Rightarrow> int \<times> host" where
  "host_accept script k lfd = (if snd k then (-1, k) else (3, (fst (fst k), (snd (fst k))(3 := script)), True))"

definition host :: "bytes \<Rightarrow> nat \<Rightarrow> host os" where
  "host script ns = \<lparr>net = host_net, sys_socket = \<lambda>k. (4, 0, k), sys_setsockopt = \<lambda>k _. k, sys_bind = \<lambda>k _ _. (0, 0, k),
     sys_listen = \<lambda>k _. (0, 0, k), sys_accept = host_accept script, sys_fcntl = \<lambda>k _ _. (0, 0, k),
     sys_close = \<lambda>k f. (fst k, snd k \<and> nat f \<noteq> 3), sys_poll = \<lambda>k _ _. (1, 0, \<lambda>_. 1, k),
     sys_clock = \<lambda>k. (\<lparr>tv_sec = int ns div 1000000000, tv_nsec = int ns mod 1000000000\<rparr>, k),
     conn_alloc = \<lambda>k cs ds. (if cs 7 = None \<and> ds 7 = None then Some 7 else None, new_conn, \<lparr>prev = None, nxt = None\<rparr>)\<rparr>"

abbreviation host_sent :: "host \<Rightarrow> nat \<Rightarrow> bytes" where "host_sent k \<equiv> fst (fst k)"
abbreviation host_pending :: "host \<Rightarrow> nat \<Rightarrow> bytes" where "host_pending k \<equiv> snd (fst k)"

definition host_clock :: "nat \<Rightarrow> host \<Rightarrow> nat" where "host_clock ns k = ns"
definition host_opened :: "host \<Rightarrow> nat set" where "host_opened k = (if snd k then {3} else {})"

lemma host_net_ok: "net_ok (net (host script ns)) host_sent host_pending (\<lambda>_. 0)"
  by (auto simp: net_ok_def host_def host_net_def eager_write_def eager_read_def split: if_splits)

lemma host_prompt: "prompt (net (host script ns)) host_pending"
  by (auto simp: prompt_def host_def host_net_def eager_read_def split: if_splits)

lemma host_healthy: "healthy (net (host script ns)) f"
  by (auto simp: healthy_def host_def host_net_def eager_write_def eager_read_def)

lemma host_alloc: "fresh_alloc (net (host script ns))" "fresh_conn (host script ns)"
  using bump_fresh by (auto simp: fresh_alloc_def fresh_conn_def host_def host_net_def new_conn_def split: if_splits)

lemma host_obliging: "obliging (host script ns)"
  by (simp add: obliging_def host_def)

lemma host_clock_ok: "ns < 2 ^ 63 \<Longrightarrow> clock_ok (host script ns) (host_clock ns)"
  by (auto simp: clock_ok_def host_def host_clock_def nsecs_def)

lemma host_ok: "ns < 2 ^ 63 \<Longrightarrow> os_ok (host script ns) host_sent host_pending (host_clock ns) host_opened"
proof -
  assume "ns < 2 ^ 63"
  moreover have "framed (net (host script ns)) (\<lambda>k k'. host_opened k' = host_opened k \<and> host_clock ns k \<le> host_clock ns k')"
    by (auto simp: framed_def host_def host_net_def eager_write_def eager_read_def host_opened_def host_clock_def
      intro: reflpI transpI)
  ultimately show ?thesis using host_clock_ok
    by (auto simp: os_ok_def host_def host_accept_def host_opened_def host_clock_def same_streams_def)
qed

lemma host_usec: "ns < 2 ^ 63 \<Longrightarrow> get_monotonic_usec (host script ns) k = (of_nat (ns div 1000), k)"
  using get_monotonic_usec_eq [OF host_clock_ok, of ns script k] by (simp add: host_def usec_def host_clock_def)

lemma host_polite: "vocab ks ns script \<Longrightarrow> polite (host script t) host_pending ks ns"
  by (auto simp: polite_def host_def host_accept_def split: if_splits)

lemma small_vocab_empty: "small_vocab {} {}"
  by (simp add: small_vocab_def)

lemma keys_vocab: "vocab {} {} keys_request"
  unfolding keys_request_def by (rule vocab_one) (simp_all add: allowed_def length_req_payload lit_def K_MAX_MSG_def)

section \<open>The event loop with one client\<close>

lemma one_client:
  obtains st :: "host loop" where "loop_ok 5 st [7] Map.empty" "conns st = [7 \<mapsto> new_conn\<lparr>idle_start := 5\<rparr>]"
    "kern st = ((\<lambda>_. [], (\<lambda>_. [])(3 := script)), True)" "fds_open host_opened st" "serving (host_clock 5000) host_opened ks ns st Map.empty"
proof -
  let ?d = "\<lparr>prev = None, nxt = None\<rparr>" and ?k = "((\<lambda>_. [], (\<lambda>_. [])(3 := script)), True) :: host"
  obtain st0 :: "host loop" where s0: "loop_init 0 ?d (quiet, False) = ret st0" "loop_ok 0 st0 [] Map.empty" "conns st0 = Map.empty"
    using loop_init_ok [of 0 ?d "(quiet, False)"] by blast
  have f: "dnodes st0 7 = None" "kern st0 = (quiet, False)" "fd2conn st0 = []" using s0(1) by (auto simp: loop_init_def dlist_init_def wr_def)
  have acc: "sys_accept (host script 5000) (kern st0) 4 = (3, ?k)" "fd_set_nb (host script 5000) ?k 3 = ret ?k"
    "conn_alloc (host script 5000) ?k (conns st0) (dnodes st0) = (Some 7, new_conn, ?d)"
    using f s0(3) by (simp_all add: host_def host_accept_def quiet_def fd_set_nb_def)
  have clk: "get_monotonic_usec (host script 5000) k = (5, k)" "usec (host_clock 5000) k = 5" for k
    by (simp_all add: host_usec usec_def host_clock_def)
  have "\<exists>st. accept_new_conn (host script 5000) 4 st0 = ret (0, st) \<and> loop_ok 5 st ([] @ [7]) Map.empty \<and> kern st = ?k \<and>
      conns st = (conns st0)(7 \<mapsto> new_conn\<lparr>fd := nat 3, state := STATE_REQ, rbuf_size := 0, wbuf_size := 0, wbuf_sent := 0, idle_start := 5\<rparr>)"
    by (rule accept_ok [OF s0(2) _ acc(1) _ acc(2,3) host_alloc(2) clk(1)]) (use f in simp_all)
  then obtain st where st: "loop_ok 5 st [7] Map.empty" "kern st = ?k" "conns st = [7 \<mapsto> new_conn\<lparr>idle_start := 5\<rparr>]"
    using s0(3) by (auto simp: new_conn_def)
  moreover have "fds_open host_opened st" using st(2,3) by (simp add: fds_open_def host_opened_def new_conn_def)
  moreover have "in_vocab ks ns Map.empty" by (simp add: in_vocab_def)
  ultimately show thesis using that by (simp add: serving_def clk) blast
qed

text \<open>A run of the server on this machine.\<close>

lemma host_runs:
  obtains lfd tp st0 st st' where "server_start (host keys_request 5000) 0 \<lparr>prev = None, nxt = None\<rparr> 0 0 create_rv (quiet, False) = ret (lfd, tp, st0)"
    "loop_run (host keys_request 5000) lfd 2 st0 = ret st" "loop_body (host keys_request 5000) lfd st = ret st'"
proof -
  have t: "5000 < (2 ^ 63 :: nat)" by simp
  note h = host_ok [OF t, of keys_request] host_net_ok host_alloc(1) host_polite [OF keys_vocab] host_alloc(2) small_vocab_empty
  let ?os = "host keys_request 5000" and ?raw = "\<lparr>prev = None, nxt = None\<rparr>"
  obtain lfd tp st0 where s: "server_start ?os 0 ?raw 0 0 create_rv (quiet, False) = ret (lfd, tp, st0)" "served_ok host_pending (host_clock 5000) host_opened {} {} st0 Map.empty"
    using server_start_served [OF h(1), where idle = 0 and raw = ?raw and create_rv = create_rv and k = "(quiet, False)" and ks = "{}" and ns = "{}"] host_obliging
    by (auto simp: dies_def)
  obtain st M where r: "loop_run ?os lfd 2 st0 = ret st" "served_ok host_pending (host_clock 5000) host_opened {} {} st M"
    using loop_run_served [OF h s(2), of lfd 2] host_obliging by (auto simp: dies_def)
  obtain st' where "loop_body ?os lfd st = ret st'"
    using loop_body_served [OF h r(2), of lfd] host_obliging by (auto simp: dies_def)
  then show thesis using that s(1) r(1) by blast
qed

section \<open>A client\<close>

text \<open>A client's kernel, with the bytes sent and the bytes to be read; the peer's answer to all that was sent is there at once.\<close>

definition desk :: "(bytes \<Rightarrow> bytes) \<Rightarrow> (bytes \<times> bytes) client_os" where
  "desk answer = \<lparr>cl_socket = \<lambda>k. (5, 0, k), cl_connect = \<lambda>k _ _. (0, 0, k),
     cl_write = \<lambda>f k buf. (int (length buf), fst k @ buf, answer (fst k @ buf)),
     cl_read = \<lambda>f k n. (int (min n (length (snd k))), take n (snd k), fst k, drop n (snd k)), cl_close = \<lambda>k f. k, cl_stack = \<lambda>_. 0\<rparr>"

lemma desk_ok: "client_ok (cl_write (desk answer) f) (cl_read (desk answer) f) fst snd"
  by (auto simp: client_ok_def writes_prefix_def reads_prefix_def desk_def)

lemma desk_writes: "buf \<noteq> [] \<Longrightarrow> write_all (cl_write (desk answer) f) ([], x) buf = ret (0, buf, answer buf)"
  by (simp add: write_all.simps desk_def)

lemma desk_joined:
  assumes c: "conns st p = Some c" "state c = STATE_REQ" "received c = []" and io: "io_step os (fd c) st = ret st'"
    and req: "pending (kern st) (fd c) = req_image (map c_string (tl argv))" and len: "length (req_payload (map c_string (tl argv))) \<le> K_MAX_MSG"
    and res: "sent (kern st') (fd c) = sent (kern st) (fd c) @ answer (req_image (map c_string (tl argv)))" and h: "healthy (net os) (fd c)"
  shows "joined os sent pending (desk answer) fst snd st ([], []) argv st'"
proof -
  let ?cmd = "map c_string (tl argv)"
  have "send_req (cl_write (desk answer) 5) ([], []) ?cmd = ret (0, req_image ?cmd, answer (req_image ?cmd))"
    by (simp add: send_req_image [OF len] desk_writes)
  moreover have "cl_socket (desk answer) ([], []) = (5, 0, [], [])" "cl_connect (desk answer) ([], []) 5 client_addr = (0, 0, [], [])"
    by (simp_all add: desk_def)
  ultimately show ?thesis unfolding joined_def using c io req res h desk_ok by (intro exI conjI) (assumption | simp)+
qed

section \<open>Both together\<close>

text \<open>The connection of \<open>one_client\<close>, with a request waiting for it: there is a run of a client that it serves.\<close>

lemma exchanges:
  assumes c: "conns st p = Some c" "state c = STATE_REQ" "received c = []" and v: "small_vocab ks ns" "allowed ks ns (map c_string (tl argv))"
    and st: "serving (host_clock 5000) host_opened ks ns st M" and req: "host_pending (kern st) (fd c) = req_image (map c_string (tl argv))"
    and len: "length (req_payload (map c_string (tl argv))) \<le> K_MAX_MSG"
  obtains st' res c' where "conns st' p = Some c'" "fd c' = fd c" "state c' = STATE_REQ" "received c' = []"
    "\<exists>M'. serving (host_clock 5000) host_opened ks ns st' M'"
    "\<And>answer. answer (req_image (map c_string (tl argv))) = res \<Longrightarrow>
       joined (host script 5000) host_sent host_pending (desk answer) fst snd st ([], []) argv st'"
proof -
  have t: "5000 < (2 ^ 63 :: nat)" by simp
  obtain st' v M' c' where a: "io_step (host script 5000) (fd c) st = ret st'"
    "host_sent (kern st') (fd c) = host_sent (kern st) (fd c) @ res_image (reply v)"
    "serving (host_clock 5000) host_opened ks ns st' M'" "conns st' p = Some c'" "fd c' = fd c" "state c' = STATE_REQ" "received c' = []"
    using io_step_answers [OF host_ok [OF t, of script] host_net_ok host_alloc(1) host_prompt host_healthy v st c req len] by blast
  have "joined (host script 5000) host_sent host_pending (desk answer) fst snd st ([], []) argv st'"
    if "answer (req_image (map c_string (tl argv))) = res_image (reply v)" for answer
    by (rule desk_joined [where pending = host_pending, OF c a(1) req len]) (simp_all add: a(2) that host_healthy)
  then show thesis using that [OF a(4-7)] a(3) by blast
qed

lemma one_exchange:
  obtains st answer st' where
    "joined (host keys_request 5000) host_sent host_pending (desk answer) fst snd st ([], []) [[], lit ''keys''] st'"
    "serving (host_clock 5000) host_opened {} {} st Map.empty"
proof -
  let ?argv = "[[], lit ''keys'']" and ?c = "new_conn\<lparr>idle_start := 5\<rparr>"
  obtain st :: "host loop" where st: "conns st = [7 \<mapsto> ?c]" "kern st = ((\<lambda>_. [], (\<lambda>_. [])(3 := keys_request)), True)"
    "serving (host_clock 5000) host_opened {} {} st Map.empty" by (rule one_client [of keys_request])
  have cmd: "map c_string (tl ?argv) = [lit ''keys'']" by (simp add: c_string_def lit_def)
  have c: "conns st 7 = Some ?c" "state ?c = STATE_REQ" "received ?c = []" using st(1) by (simp_all add: new_conn_def received_def)
  have p: "host_pending (kern st) (fd ?c) = req_image (map c_string (tl ?argv))" "length (req_payload (map c_string (tl ?argv))) \<le> K_MAX_MSG"
    "allowed {} {} (map c_string (tl ?argv))"
    unfolding cmd st(2) by (simp_all add: new_conn_def keys_request_def allowed_def length_req_payload lit_def K_MAX_MSG_def)
  obtain st' res where "\<And>answer. answer (req_image (map c_string (tl ?argv))) = res \<Longrightarrow>
      joined (host keys_request 5000) host_sent host_pending (desk answer) fst snd st ([], []) ?argv st'"
    using exchanges [OF c small_vocab_empty p(3) st(3) p(1,2), of keys_request] by metis
  from this [of "\<lambda>_. res"] show thesis using that st(3) by blast
qed

text \<open>Two clients one after the other; in between, the bytes of the second one arrive.\<close>

lemma two_exchanges:
  obtains st answer st1 st2 st3 where "serving (host_clock 5000) host_opened {[107]} {} st Map.empty"
    "joined (host [] 5000) host_sent host_pending (desk answer) fst snd st ([], []) [[], lit ''set'', [107], [118]] st1"
    "\<forall>N. serving (host_clock 5000) host_opened {[107]} {} st1 N \<longrightarrow> serving (host_clock 5000) host_opened {[107]} {} st2 N"
    "joined (host [] 5000) host_sent host_pending (desk answer) fst snd st2 ([], []) [[], lit ''get'', [107]] st3"
proof -
  let ?a1 = "[[], lit ''set'', [107], [118]]" and ?a2 = "[[], lit ''get'', [107]]" and ?c = "new_conn\<lparr>idle_start := 5\<rparr>"
  let ?q1 = "map c_string (tl ?a1)" and ?q2 = "map c_string (tl ?a2)" and ?J = "joined (host [] 5000) host_sent host_pending"
  let ?S = "serving (host_clock 5000) host_opened {[107]} {}"
  have sv: "small_vocab {[107]} {}" by (simp add: small_vocab_def)
  have al: "allowed {[107]} {} ?q1" "allowed {[107]} {} ?q2" by (simp_all add: allowed_def c_string_def)
  have len: "length (req_payload ?q1) \<le> K_MAX_MSG" "length (req_payload ?q2) \<le> K_MAX_MSG"
    by (simp_all add: length_req_payload lit_def c_string_def K_MAX_MSG_def)
  obtain st :: "host loop" where st: "conns st = [7 \<mapsto> ?c]" "kern st = ((\<lambda>_. [], (\<lambda>_. [])(3 := req_image ?q1)), True)" "?S st Map.empty"
    by (rule one_client [of "req_image ?q1"])
  have c: "conns st 7 = Some ?c" "state ?c = STATE_REQ" "received ?c = []" "host_pending (kern st) (fd ?c) = req_image ?q1"
    using st(1,2) by (simp_all add: new_conn_def received_def)
  obtain st1 res1 c1 M1 where e1: "conns st1 7 = Some c1" "fd c1 = fd ?c" "state c1 = STATE_REQ" "received c1 = []" "?S st1 M1"
    "\<And>answer. answer (req_image ?q1) = res1 \<Longrightarrow> ?J (desk answer) fst snd st ([], []) ?a1 st1"
    using exchanges [OF c(1-3) sv al(1) st(3) c(4) len(1), of "[]"] by metis
  let ?st2 = "st1\<lparr>kern := ((host_sent (kern st1), (\<lambda>_. [])(3 := req_image ?q2)), True)\<rparr>"
  have keep: "?S ?st2 N" if N: "?S st1 N" for N
  proof -
    obtain xs where "loop_ok 5 st1 xs N" using N by (auto simp: serving_def usec_def host_clock_def)
    then have "loop_ok 5 ?st2 xs N" by (rule loop_ok_kern)
    then show ?thesis using N by (auto simp: serving_def usec_def host_clock_def fds_open_def host_opened_def split: if_splits)
  qed
  have c2: "conns ?st2 7 = Some c1" "host_pending (kern ?st2) (fd c1) = req_image ?q2" using e1(1,2) by (simp_all add: new_conn_def)
  obtain st3 res2 where e2: "\<And>answer. answer (req_image ?q2) = res2 \<Longrightarrow> ?J (desk answer) fst snd ?st2 ([], []) ?a2 st3"
    using exchanges [OF c2(1) e1(3,4) sv al(2) keep [OF e1(5)] c2(2) len(2), of "[]"] by metis
  let ?ans = "\<lambda>b. if b = req_image ?q1 then res1 else res2"
  have "?q1 \<noteq> ?q2" by (simp add: c_string_def)
  then have "req_image ?q1 \<noteq> req_image ?q2" using req_image_prefix [of ?q1 "[]" ?q2 "[]"] len by blast
  then show thesis using that [OF st(3) e1(6) _ e2, of ?ans] keep by auto
qed

end
