(* ===== verification/Spec2Isabelle.thy ===== *)
theory Spec2Isabelle
  imports Exchange Blocking_Server Test_Avl_Spec Examples_Server
begin

unbundle bit_operations_syntax

text \<open>
  Verification of redis-c, a small Redis-like key-value server (\<open>src/src\<close>), with its client.

  \<^bold>\<open>The program.\<close> The server keeps a key space in a chaining hash map with progressive resizing
  (\<open>hashtable.cpp\<close>). A key holds a string or a sorted set (\<open>zset.cpp\<close>), which indexes its members by
  name in a hash map of its own and by \<open>(score, name)\<close> in an AVL tree (\<open>avl.cpp\<close>). Keys may carry a
  deadline; the deadlines form a binary heap (\<open>server.cpp\<close>). Connections are kept in a doubly linked
  list in the order of their last activity (\<open>list.h\<close>), large sorted sets are freed by a thread pool
  (\<open>thread_pool.cpp\<close>), requests are length-prefixed argument vectors and responses are
  type-length-value encodings (\<open>server.cpp\<close>, \<open>utils.h\<close>, \<open>client.cpp\<close>).

  \<^bold>\<open>How the code is modelled.\<close> Objects live in stores, partial maps from addresses (theory
  \<open>Prelude\<close>); an intrusive member has the address of its container, so \<open>container_of\<close> is the identity.
  An execution returns a value, faults (null or dangling access, index out of range, failed
  \<open>assert\<close>), or is \<open>None\<close> when a loop never ends; loops are \<^theory_text>\<open>partial_function\<close>s in this outcome
  type, so a theorem that an operation equals \<open>ret ...\<close> includes that it neither faults nor loops.
  32- and 64-bit integers are words. System calls, \<open>malloc\<close> and the clock are parameters.

  \<^item> \<open>Avl_Tree\<close>, \<open>Avl\<close>, \<open>Avl_Refine\<close>, \<open>Avl_Ops\<close>, \<open>Avl_Spec\<close>, \<open>Avl_Insert\<close>: the functions of \<open>avl.cpp\<close> on pointers with
    stored depths and counts, the same operations on plain trees, and the refinement between the
    two. \<open>Avl_Spec\<close> gives clients \<open>avl_rep\<close> and the contract \<open>ranked_sequence\<close> of deletion and offset.
    \<open>Avl_Insert\<close> holds the descent of an insertion, which \<open>avl.cpp\<close> leaves to its clients, as the locale
    \<open>leaf_insertion\<close> with two interpretations, the sorted set and the test program.
    The 32-bit counts are exact below \<open>2 ^ 32 - 2\<close> nodes (\<open>avl_fits\<close>).
  \<^item> \<open>Hashtable\<close>, \<open>Hashtable_Refine\<close>, \<open>Hashtable_Map\<close>, \<open>Hashtable_Spec\<close>, \<open>Hashtable_Client\<close>: the functions
    of \<open>hashtable.cpp\<close>; bucket lists as their representation; the exact condition \<open>hm_stuck\<close> under which
    the resizing loop never ends; the behaviour of maps that stay in their first table (\<open>hm_small\<close>, at
    most 31 nodes), which is all that the code supports reliably; the contract \<open>node_map\<close> with lookup
    by key; the traversal \<open>h_scan\<close>.
  \<^item> \<open>Zset\<close>, \<open>Zset_Spec\<close>: the functions of \<open>zset.cpp\<close>, doubles as IEEE-754 bit patterns; the comparison as
    a lexicographic order; the invariant \<open>zset_ok\<close> that ties the two indices together; add, pop,
    lookup, query and disposal against the abstract map \<open>zscores\<close> from names to scores.
  \<^item> \<open>Ttl_Heap\<close>: the timer heap with its back-references; \<open>entry_set_ttl\<close> against the abstract map
    \<open>deadline\<close> from entries to times (heaps below \<open>2 ^ 62\<close> items, so child positions do not wrap).
  \<^item> \<open>Wire\<close>, \<open>Request\<close>, \<open>Client\<close>: constants, serialisation, blocking read and write loops, request
    building and parsing, response decoding, and the client's request-response exchange. The decoder works
    on the memory from the received bytes to the end of their array, of which \<open>size\<close> bytes were received;
    what it prints of a string ends at the first NUL byte (\<open>shown\<close>), as with \<open>printf("%.*s")\<close>.
  \<^item> \<open>Idle_List\<close>: the linked list of \<open>list.h\<close> and the contract \<open>recency_list\<close>.
  \<^item> \<open>Thread_Pool\<close>: workers and producer as an interleaving step relation with mutex and condition
    variable, its invariants and freedom from deadlock, for the workers that \<open>pthread_create\<close> did start
    (\<open>thread_pool_init\<close> ignores its result), if there is at least one.
  \<^item> \<open>Numbers\<close>: \<open>str2int\<close> and \<open>str2double\<close> with \<open>strtoll\<close> and a correctly rounding \<open>strtod\<close>.
  \<^item> \<open>Keyspace\<close>, \<open>Keyspace_Spec\<close>, \<open>Keyspace_Zset\<close>, \<open>Keyspace_Ttl\<close>, \<open>Commands\<close>: entries, the command handlers
    \<open>do_get\<close> to \<open>do_ttl\<close>, their dispatch \<open>do_request\<close>, and the expiry of keys. \<open>server_at s M\<close> says that the
    state \<open>s\<close> (\<open>g_data\<close> with the memory it reaches) stands for the abstract map \<open>M\<close> from keys to items;
    \<open>serves M cmd v M'\<close> is the meaning of a request, and every handler is shown to implement it.
  \<^item> \<open>Connection\<close>, \<open>Connection_Spec\<close>, \<open>Connection_Frame\<close>: the buffers and states of a connection,
    \<open>try_fill_buffer\<close>, \<open>try_one_request\<close>, \<open>try_flush_buffer\<close> and the loops around them. \<open>read\<close> and \<open>write\<close> are
    arguments that satisfy \<open>net_ok\<close> (counts are honest, interruptions end); the result is about the byte
    streams, and about what reading and writing can do to the rest of the kernel.
  \<^item> \<open>System\<close>: the operating system as a record \<open>os\<close> of system calls on a kernel state, with \<open>die\<close>, \<open>fd_set_nb\<close>
    and \<open>get_monotonic_usec\<close>. \<open>os_ok\<close> is what the server relies on: new descriptors are unused ones, calls
    leave other descriptors alone, time does not run backwards.
  \<^item> \<open>Event_Loop\<close>, \<open>Event_Loop_Spec\<close>, \<open>History\<close>, \<open>Event_Loop_Reach\<close>: \<open>fd2conn\<close>, the idle list, \<open>next_timer_ms\<close>,
    \<open>process_timers\<close>, \<open>accept_new_conn\<close>, \<open>connection_io\<close> and the loop in \<open>main\<close>, with every system call threaded
    through the kernel state; the invariant \<open>loop_ok\<close>; the states of the whole run (\<open>served_ok\<close>), for any
    behaviour of the kernel and of clients that keep to a vocabulary of 30 keys and 30 member names,
    which is what the hash map has room for; and that no descriptor is lost (\<open>tidy\<close>). \<open>History\<close> has the
    histories of requests served, their sequential meaning \<open>replays\<close>, and their relation \<open>follows\<close> to the
    byte streams of the connections.
  \<^item> \<open>Startup\<close>: \<open>main\<close> of \<open>server.cpp\<close> from the listening socket to the loop.
  \<^item> \<open>Response_Size\<close>, \<open>Answer\<close>, \<open>Exchange\<close>: responses fit a message; a request that has arrived on a working
    connection (\<open>healthy\<close>, about that descriptor only) is answered in the wake-up that reads it; \<open>main\<close> of \<open>client.cpp\<close>, and the two programs
    joined: what the client prints is the meaning of its command.
  \<^item> \<open>Test_Avl\<close>, \<open>Test_Avl_Spec\<close>: the test program \<open>test_avl.cpp\<close>, and that it passes.
  \<^item> \<open>Blocking_Server\<close>: \<open>do_something\<close> and \<open>parse_single_request\<close>, which nothing calls any more.
  \<^item> \<open>Examples\<close>, \<open>Examples_Server\<close>: concrete states on which the hypotheses of the theorems below hold.

  \<^bold>\<open>What is shown.\<close> From the outside in: a run of the client prints what its command means on the key
  space, and a value that was set is what a later get prints; to all clients together the server is a
  sequential key-value store; from the start of \<open>main\<close>, every iteration of the event loop returns and
  keeps the state consistent, unless a failed system call makes the process abort; every wake-up of a connection turns a prefix of the bytes received into exactly the
  responses of the requests in it; the command interpreter implements its abstract meaning on the key
  space; and the data structures below implement theirs. For each component the operations return
  on every well-formed state; encoders and decoders are inverse to each other and the request parser stays
  within its input; timers, idle list and thread pool keep their invariants. Where the code goes
  wrong the theorems say exactly how: the resizing loop that never ends (for a hash map, and for the
  server at its 32nd key), the wrapping bounds check of the client, the wrapping deadline of a very large
  time to live, and the pipelined request that waits for more input.

  \<^bold>\<open>Bounds.\<close> Results about the key space and sorted sets hold below 32 nodes per hash map, because
  larger maps may hang; results about the running server are for clients with a vocabulary of at most 30
  keys and 30 member names, for the same reason, and for requests during which memory does not run out
  (\<open>fresh_alloc\<close>: \<open>new\<close> and \<open>malloc\<close> return unused memory; a failed \<open>malloc\<close> of a connection is covered);
  clock readings are below \<open>2 ^ 63\<close> microseconds where deadlines are added to
  them. There is no fuel: loops that may not end are \<^theory_text>\<open>partial_function\<close>s with outcome \<open>None\<close>. The endless
  loop of \<open>main\<close> is its first \<open>n\<close> iterations, for every \<open>n\<close>.

  \<^bold>\<open>Not modelled.\<close> Messages on standard error and the standard output of the server (\<open>msg\<close>, \<open>printf\<close>) have
  no effect on the state. Entries with more than 10000 members are handed to the thread pool
  (\<open>entry_del\<close> records them in \<open>tasks\<close>); the interleaving of their destruction with the event loop is not
  modelled, since a hash map of that size can not be built.
\<close>

section \<open>Commands\<close>

text \<open>
  C1. The command interpreter implements its abstract meaning: on a state that stands for a key
  space of at most 30 keys and at most 30 members per sorted set (room for one more of each),
  do_request of any argument vector with arguments of at most K_MAX_MSG bytes (which every parsed
  request satisfies) returns, answers with the encoding of a response that the abstract semantics
  allows (values, errors for bad numbers, wrong types and unknown commands included), and leaves a
  state that stands for the new key space, with hash maps, sorted sets and timers consistent.
\<close>

theorem do_request_refines:
  assumes "server_at s M" and "roomy M" and "fresh_for s a x" and "small_args cmd"
  shows "\<exists>s' v M'. do_request a (Some x) s cmd [] = ret (s', encode v) \<and> serves M cmd v M' \<and> server_at s' M'"
  using assms by (rule do_request_ok)

theorem do_request_refines_witness:
  "\<exists>s' v M'. do_request 1 (Some 1) server_init [lit ''set'', [107], [118]] [] = ret (s', encode v) \<and>
     serves Map.empty [lit ''set'', [107], [118]] v M' \<and> server_at s' M'"
  using do_request_refines [OF server_at_init, of 1 1 "[lit ''set'', [107], [118]]"]
  by (simp add: roomy_def fresh_for_def unused_def unused_node_def server_init_def small_args_def lit_def K_MAX_MSG_def)

section \<open>Connections\<close>

text \<open>
  C2. One wake-up of a connection, whatever the kernel makes of the individual reads and writes
  (short counts, EAGAIN, EINTR, errors, end of file), provided that memory does not run out and
  that the requests in the input stream never take the key space beyond 30 keys or a sorted set
  beyond 30 members (where an insertion may hang, see C13): it returns, takes complete requests
  off the front of the input stream, puts exactly their responses, in order, at the end of the
  output stream, applies their effects to the key space, leaves other descriptors alone, and keeps
  the buffers within their arrays with room for the next read.
\<close>

theorem conn_step_correct:
  assumes "net_ok env sent pending intr" and "fresh_alloc env" and "server_at s M"
    and "conn_ok c" and "not_full c" and "state c \<noteq> STATE_END" and "stays_roomy M (in_stream pending k c)"
  shows "\<exists>s' k' c' M' cmds out. conn_step env s k c = ret (s', k', c') \<and> conn_ok c' \<and> not_full c' \<and> server_at s' M' \<and>
    serves_all M cmds out M' \<and> in_stream pending k c = concat (map req_image cmds) @ in_stream pending k' c' \<and>
    out_stream sent k' c' = out_stream sent k c @ out \<and>
    (\<forall>g. g \<noteq> fd c \<longrightarrow> sent k' g = sent k g \<and> pending k' g = pending k g)"
proof -
  obtain s' k' c' M' where "conn_step env s k c = ret (s', k', c')" "conn_ok c'" "not_full c'" "server_at s' M'"
    "advanced sent pending M k c M' k' c'" using conn_step_ok [OF assms] by blast
  then show ?thesis unfolding advanced_def by blast
qed

theorem conn_step_correct_witness:
  "net_ok eager fst snd (\<lambda>_. 0) \<and> (\<exists>s' k' c' M'. conn_step eager server_init asking new_conn = ret (s', k', c') \<and>
     conn_ok c' \<and> server_at s' M')"
  using conn_step_correct [OF eager_net eager_alloc server_at_init new_conn_fine(1,2) _ asking_roomy] eager_net new_conn_fine(3)
  by (simp, blast)

text \<open>
  C3. A wake-up for reading of a connection whose buffer holds no complete request at its start,
  under the same limit of 30 keys and 30 members per set on what the requests in the input stream
  lead to, and with a kernel that reports EAGAIN only when it has no bytes: if it ends with the
  connection still open and nothing left to send, then every request that had arrived completely
  was answered: what remains in the buffer is an incomplete request, and all responses have been
  handed to the kernel. (With a complete request in the buffer at the start this fails, see C4.)
\<close>

theorem conn_step_drains:
  assumes "net_ok env sent pending intr" and "prompt env pending" and "fresh_alloc env" and "server_at s M"
    and "conn_ok c" and "not_full c" and "state c = STATE_REQ" and "incomplete (received c)"
    and "stays_roomy M (in_stream pending k c)"
  shows "\<exists>s' k' c' M' cmds out. conn_step env s k c = ret (s', k', c') \<and> serves_all M cmds out M' \<and> server_at s' M' \<and>
    (state c' = STATE_REQ \<longrightarrow> received c @ pending k (fd c) = concat (map req_image cmds) @ received c' \<and>
       incomplete (received c') \<and> sent k' (fd c) = sent k (fd c) @ out)"
proof -
  obtain s' k' c' M' where r: "state_req env s k c = ret (s', k', c')" "conn_ok c'" "server_at s' M'"
    "incomplete (received c) \<longrightarrow> state c' = STATE_REQ \<longrightarrow> incomplete (received c')" "advanced sent pending M k c M' k' c'"
    using state_req_ok [OF assms(1,3,4,5,7,6,9)] by blast
  obtain cmds out where a: "serves_all M cmds out M'" "in_stream pending k c = concat (map req_image cmds) @ in_stream pending k' c'"
    "out_stream sent k' c' = out_stream sent k c @ out" "fd c' = fd c" using r(5) unfolding advanced_def by blast
  have "unsent c = []" "state c' = STATE_REQ \<longrightarrow> unsent c' = []" using assms(5,7) r(2) by (auto simp: unsent_def conn_ok_def)
  moreover have "state c' = STATE_REQ \<longrightarrow> pending k' (fd c') = []" using state_req_drains [OF assms(1,2) r(1) assms(7)] by blast
  moreover have "conn_step env s k c = ret (s', k', c')" using r(1) assms(7) by (simp add: conn_step_def)
  ultimately show ?thesis using a r(3,4) assms(8)
    by (intro exI [of _ s'] exI [of _ k'] exI [of _ c'] exI [of _ M'] exI [of _ cmds] exI [of _ out])
      (cases "state c' = STATE_REQ"; simp add: in_stream_def out_stream_def)
qed

theorem conn_step_drains_witness:
  "prompt eager snd \<and> incomplete (received new_conn) \<and>
   (\<exists>s' k' c'. conn_step eager server_init asking new_conn = ret (s', k', c') \<and>
      (state c' = STATE_REQ \<longrightarrow> incomplete (received c')))"
proof -
  have i: "incomplete (received new_conn)" by (simp add: new_conn_fine incomplete_def)
  from conn_step_drains [OF eager_net eager_prompt eager_alloc server_at_init new_conn_fine(1-3) i asking_roomy]
  show ?thesis using i eager_prompt by blast
qed

text \<open>
  C4. Requests that wait in the buffer behind a response that could not be sent at once are not
  looked at when the response has been flushed, and a further wake-up that finds no new bytes does
  not look at them either: a complete request may stay unanswered until the client sends more.
\<close>

theorem pipelined_request_stalls:
  assumes "net_ok env sent pending intr" and "conn_ok c" and "state c = STATE_RES" and "not_full c"
  shows "\<exists>k' c'. conn_step env s k c = ret (s, k', c') \<and> received c' = received c \<and>
    (\<forall>bs k2. state c' = STATE_REQ \<longrightarrow> sys_read env k' (fd c') (BUF_SIZE - rbuf_size c') = (Eagain, bs, k2) \<longrightarrow>
       conn_step env s k' c' = ret (s, k2, c'))"
proof -
  obtain k' c' where f: "state_res env k c = ret (k', c')" "same_input c c'" using state_res_ok [OF assms(1,2,3)] by blast
  have "rbuf_size c' < BUF_SIZE" "received c' = received c"
    using f(2) assms(3,4) by (simp_all add: same_input_def not_full_def received_def)
  moreover have "conn_step env s k c = ret (s, k', c')" using f(1) assms(3) by (simp add: conn_step_def)
  ultimately show ?thesis using state_req_eagain [of c' env k' _ _ s] by (auto simp: conn_step_def)
qed

theorem pipelined_request_stalls_witness:
  "received piped_conn = req_image [lit ''keys''] \<and>
   (\<exists>k' c'. conn_step eager server_init quiet piped_conn = ret (server_init, k', c') \<and> received c' = req_image [lit ''keys''])"
  using pipelined_request_stalls [OF eager_net piped_conn_fine(1,3,2), of server_init quiet] piped_conn_fine(4)
  by (auto simp: keys_request_def)

section \<open>Event loop\<close>

text \<open>
  C5. The server never gets stuck: from the start of main, for clients that keep to a vocabulary
  of at most 30 keys and 30 member names, and while memory for request handling does not run out,
  the first n iterations of the endless loop - computing timeouts, polling, serving all ready
  connections, firing timers, accepting connections - return for every n, with no failed
  assertion, no dangling pointer and no inner loop that runs forever, however many of the threads
  could be created; the only other outcome is that die aborts the process because bind, listen,
  fcntl or poll failed.
\<close>

theorem server_main_runs:
  assumes "os_ok os sent pending clk opened" and "net_ok (net os) sent pending intr" and "fresh_alloc (net os)"
    and "polite os pending ks ns" and "fresh_conn os" and "small_vocab ks ns"
  shows "(\<exists>st. server_main os idle raw 0 0 create_rv n k = ret st) \<or>
    (\<not> obliging os \<and> (\<exists>err m. m \<in> {''bind()'', ''listen()'', ''fcntl error'', ''poll''} \<and>
       server_main os idle raw 0 0 create_rv n k = fault (Aborted err m)))"
  using server_main_served [OF assms, where idle = idle and raw = raw and create_rv = create_rv and n = n and k = k] unfolding fatal_def dies_def by blast

theorem server_main_runs_witness:
  "\<exists>st. server_main (host keys_request 5000) 0 \<lparr>prev = None, nxt = None\<rparr> 0 0 (\<lambda>_. 0) 3 (quiet, False) = ret st"
proof -
  have "5000 < (2 ^ 63 :: nat)" by simp
  from server_main_runs [OF host_ok [OF this] host_net_ok host_alloc(1) host_polite [OF keys_vocab] host_alloc(2) small_vocab_empty]
  show ?thesis using host_obliging by blast
qed

text \<open>
  C6. For clients that keep to a vocabulary of at most 30 keys and 30 member names: after any
  number of iterations of the server's main loop, the descriptor table, the idle list and the
  allocated connections describe the same connections without dangling or duplicate pointers; the
  list is ordered by the time of last activity; every connection has an open descriptor, is not
  finished, and has its buffer positions within the buffers; and no descriptor has leaked: those
  in use are the ones from before the loop and those of the connections.
\<close>

theorem loop_state_ok:
  assumes "os_ok os sent pending clk opened" and "net_ok (net os) sent pending intr" and "fresh_alloc (net os)"
    and "polite os pending ks ns" and "fresh_conn os" and "small_vocab ks ns"
    and "server_start os idle raw 0 0 create_rv k = ret (lfd, tp, st0)" and "loop_run os lfd n st0 = ret st"
  shows "(\<exists>xs. dlist_at (dnodes st) (idle_list st) xs \<and> set xs = dom (conns st) \<and>
      sorted_wrt (\<lambda>p q. idle_start (the (conns st p)) \<le> idle_start (the (conns st q))) xs) \<and>
    (\<forall>f p. f < length (fd2conn st) \<longrightarrow> fd2conn st ! f = Some p \<longrightarrow> (\<exists>c. conns st p = Some c \<and> fd c = f)) \<and>
    (\<forall>p c. conns st p = Some c \<longrightarrow> fd c < length (fd2conn st) \<and> fd2conn st ! fd c = Some p \<and> fd c \<in> opened (kern st) \<and>
      state c \<noteq> STATE_END \<and> rbuf_size c < BUF_SIZE \<and> wbuf_sent c \<le> wbuf_size c \<and> wbuf_size c \<le> BUF_SIZE) \<and>
    opened (kern st) \<subseteq> opened (kern st0) \<union> {fd c | p c. conns st p = Some c}"
proof -
  note after = loop_after_start [OF assms]
  obtain M where "served_ok pending clk opened ks ns st M" using after(1) by blast
  then obtain xs where ok: "loop_ok (usec clk (kern st)) st xs M" and op: "fds_open opened st" using served_okE by metis
  then have wf: "loop_wf st xs" and "aged (usec clk (kern st)) st xs"
    and fine: "\<And>p c. conns st p = Some c \<Longrightarrow> conn_fine c" by (simp_all add: loop_ok_def)
  then have "sorted_wrt (\<lambda>p q. idle_start (the (conns st p)) \<le> idle_start (the (conns st q))) xs"
    by (simp add: aged_def idle_of_def)
  moreover have "fd c \<in> opened (kern st) \<and> state c \<noteq> STATE_END \<and> rbuf_size c < BUF_SIZE \<and> wbuf_sent c \<le> wbuf_size c \<and> wbuf_size c \<le> BUF_SIZE"
    if "conns st p = Some c" for p c using fine [OF that] op that by (auto simp: conn_fine_def conn_ok_def not_full_def fds_open_def)
  ultimately show ?thesis using wf after(2) unfolding loop_wf_def conn_fds_def by auto
qed

theorem loop_state_ok_witness:
  "\<exists>lfd tp st0 st xs. server_start (host keys_request 5000) 0 \<lparr>prev = None, nxt = None\<rparr> 0 0 (\<lambda>_. 0) (quiet, False) = ret (lfd, tp, st0) \<and>
     loop_run (host keys_request 5000) lfd 2 st0 = ret st \<and> dlist_at (dnodes st) (idle_list st) xs \<and> set xs = dom (conns st)"
proof -
  obtain lfd tp st0 st where r: "server_start (host keys_request 5000) 0 \<lparr>prev = None, nxt = None\<rparr> 0 0 (\<lambda>_. 0) (quiet, False) = ret (lfd, tp, st0)"
    "loop_run (host keys_request 5000) lfd 2 st0 = ret st" by (rule host_runs)
  note h = host_ok [of 5000 keys_request] host_net_ok host_alloc(1) host_polite [OF keys_vocab] host_alloc(2) small_vocab_empty
  have "5000 < (2 ^ 63 :: nat)" by simp
  from loop_state_ok [OF h(1) [OF this] h(2-6) r] show ?thesis using r by blast
qed



text \<open>
  C8. Let the key space keep to a vocabulary of at most 30 keys and 30 member names, and let a
  request of at most K_MAX_MSG bytes whose key and member name, if it creates any, are of that
  vocabulary have arrived on an idle connection of the event loop. If that connection works (on
  its descriptor writes are taken at least in part, reads do not fail and the peer does not close)
  and EAGAIN is reported only when there are no bytes, then the loop, finding the descriptor
  ready, answers at once: however the kernel cuts the request into pieces, the effect of the
  command is applied to the key space, the kernel has been handed the whole response, the
  connection is idle again, and the loop is in a consistent state for the new key space.
\<close>

theorem loop_answers_request:
  assumes "os_ok os sent pending clk opened" and "net_ok (net os) sent pending intr" and "fresh_alloc (net os)"
    and "prompt (net os) pending" and "healthy (net os) (fd c)" and "small_vocab ks ns" and "allowed ks ns cmd"
    and "serving clk opened ks ns st M" and "conns st p = Some c" and "state c = STATE_REQ" and "received c = []"
    and "pending (kern st) (fd c) = req_image cmd" and "length (req_payload cmd) \<le> K_MAX_MSG"
  shows "\<exists>st' v M' c'. io_step os (fd c) st = ret st' \<and> serves M cmd v M' \<and> serving clk opened ks ns st' M' \<and>
    sent (kern st') (fd c) = sent (kern st) (fd c) @ res_image (reply v) \<and>
    conns st' p = Some c' \<and> fd c' = fd c \<and> state c' = STATE_REQ \<and> received c' = []"
  using assms by (rule io_step_answers)

theorem loop_answers_request_witness:
  "\<exists>st st' v M'. io_step (host keys_request 5000) 3 st = ret st' \<and> serves Map.empty [lit ''keys''] v M' \<and>
     host_sent (kern st') 3 = res_image (reply v)"
proof -
  obtain st :: "host loop" where st: "conns st = [7 \<mapsto> new_conn\<lparr>idle_start := 5\<rparr>]" "kern st = ((\<lambda>_. [], (\<lambda>_. [])(3 := keys_request)), True)"
    "serving (host_clock 5000) host_opened {} {} st Map.empty" by (rule one_client [of keys_request])
  have c: "conns st 7 = Some (new_conn\<lparr>idle_start := 5\<rparr>)" "state (new_conn\<lparr>idle_start := 5\<rparr>) = STATE_REQ"
    "received (new_conn\<lparr>idle_start := 5\<rparr>) = []" using st(1) by (simp_all add: new_conn_def received_def)
  have f: "fd (new_conn\<lparr>idle_start := 5\<rparr>) = 3" by (simp add: new_conn_def)
  have t: "5000 < (2 ^ 63 :: nat)" by simp
  from loop_answers_request [OF host_ok [OF t] host_net_ok host_alloc(1) host_prompt host_healthy small_vocab_empty _ st(3) c, of "[lit ''keys'']" keys_request]
  show ?thesis unfolding f using st(2) by (simp add: allowed_def keys_request_def length_req_payload lit_def K_MAX_MSG_def) blast
qed

text \<open>
  C9. Client and server together, for a key space within a vocabulary of at most 30 keys and 30
  member names: when the client program runs with a command of that vocabulary of at most
  K_MAX_MSG bytes as its arguments and is connected to an idle connection of the server's event
  loop, both ends of which work, it terminates and prints the response that the abstract semantics
  gives for this command on the current key space (or the error that replaces a response that is
  too large), with strings and error messages cut at their first NUL byte as printf does, and the
  server is left serving the key space that the command leads to.
\<close>

theorem client_prints_meaning:
  assumes "os_ok os sent pending clk opened" and "net_ok (net os) sent pending intr" and "fresh_alloc (net os)"
    and "prompt (net os) pending" and "small_vocab ks ns" and "allowed ks ns (map c_string (tl argv))"
    and "serving clk opened ks ns st M" and "length (req_payload (map c_string (tl argv))) \<le> K_MAX_MSG"
    and "joined os sent pending cos csent cpend st kc argv st'"
  shows "\<exists>v M' kc'. serves M (map c_string (tl argv)) v M' \<and> serving clk opened ks ns st' M' \<and>
    client_main cos kc argv = ret (shown (reply v), kc')"
  using assms by (rule joined_prints)

theorem client_prints_meaning_witness:
  "\<exists>st answer st' v M' kc'. joined (host keys_request 5000) host_sent host_pending (desk answer) fst snd st ([], []) [[], lit ''keys''] st' \<and>
     serves Map.empty [lit ''keys''] v M' \<and> client_main (desk answer) ([], []) [[], lit ''keys''] = ret (shown (reply v), kc')"
proof -
  let ?argv = "[[], lit ''keys'']"
  obtain st answer st' where j: "joined (host keys_request 5000) host_sent host_pending (desk answer) fst snd st ([], []) ?argv st'"
    "serving (host_clock 5000) host_opened {} {} st Map.empty" by (rule one_exchange)
  have t: "5000 < (2 ^ 63 :: nat)" by simp
  have cmd: "map c_string (tl ?argv) = [lit ''keys'']" by (simp add: c_string_def lit_def)
  from client_prints_meaning [OF host_ok [OF t] host_net_ok host_alloc(1) host_prompt small_vocab_empty _ j(2) _ j(1), unfolded cmd]
  show ?thesis using j(1) by (simp add: allowed_def length_req_payload lit_def K_MAX_MSG_def) blast
qed

text \<open>
  C10. A value that one run of the client program stores with set is what a later run prints for
  get of the same key, for every key of a vocabulary of at most 30 keys that the server's key
  space keeps to and every value, without NUL bytes and together at most K_MAX_MSG - 19 bytes
  long, whatever the key held before, and whatever the server does between the two runs that
  leaves the key space as it is; both runs are connected to idle connections of the event loop
  that work.
\<close>

theorem clients_set_then_get:
  assumes "os_ok os sent pending clk opened" and "net_ok (net os) sent pending intr" and "fresh_alloc (net os)"
    and "prompt (net os) pending" and "small_vocab ks ns" and "key \<in> ks"
    and "serving clk opened ks ns st M" and "0 \<notin> set key" and "0 \<notin> set x" and "length key + length x \<le> K_MAX_MSG - 19"
    and "joined os sent pending cos csent cpend st kc1 [prog, lit ''set'', key, x] st1"
    and "\<forall>N. serving clk opened ks ns st1 N \<longrightarrow> serving clk opened ks ns st2 N"
    and "joined os sent pending cos csent cpend st2 kc2 [prog, lit ''get'', key] st3"
  shows "(\<exists>kc'. client_main cos kc1 [prog, lit ''set'', key, x] = ret ([PNil], kc')) \<and>
    (\<exists>kc'. client_main cos kc2 [prog, lit ''get'', key] = ret ([PStr x], kc'))"
  using assms by (rule joined_set_get)

theorem clients_set_then_get_witness:
  "\<exists>answer. (\<exists>kc'. client_main (desk answer) ([], []) [[], lit ''set'', [107], [118]] = ret ([PNil], kc')) \<and>
     (\<exists>kc'. client_main (desk answer) ([], []) [[], lit ''get'', [107]] = ret ([PStr [118]], kc'))"
proof -
  obtain st answer st1 st2 st3 where e: "serving (host_clock 5000) host_opened {[107]} {} st Map.empty"
    "joined (host [] 5000) host_sent host_pending (desk answer) fst snd st ([], []) [[], lit ''set'', [107], [118]] st1"
    "\<forall>N. serving (host_clock 5000) host_opened {[107]} {} st1 N \<longrightarrow> serving (host_clock 5000) host_opened {[107]} {} st2 N"
    "joined (host [] 5000) host_sent host_pending (desk answer) fst snd st2 ([], []) [[], lit ''get'', [107]] st3" by (rule two_exchanges)
  have t: "5000 < (2 ^ 63 :: nat)" by simp
  have v: "small_vocab {[107]} {}" by (simp add: small_vocab_def)
  from clients_set_then_get [OF host_ok [OF t] host_net_ok host_alloc(1) host_prompt v _ e(1) _ _ _ e(2,3,4)]
  show ?thesis by (simp add: K_MAX_MSG_def) blast
qed

text \<open>
  C11. In a consistent state of the loop (which has fewer than 32 keys, so that the limit of
  k_max_works on the work of one call is not reached): process_timers closes exactly the
  connections that have been idle for more than the timeout and deletes exactly the keys whose
  deadline has passed, in both cases up to one millisecond early with respect to the clock it
  reads; it stops at the first connection of the idle list that is not due without missing a later
  one, and leaves a consistent state. And the limit works as meant: its expiry loop, entered with
  the work counter at nworks, deletes exactly min(number of due keys, k_max_works + 1 - nworks)
  keys (at least one if one is due), and always those with the earliest deadlines.
\<close>

theorem process_timers_correct:
  assumes "os_ok os sent pending clk opened" and "loop_ok t st xs M" and "t < 2 ^ 63" and "fds_open opened st"
    and "get_monotonic_usec os (kern st) = (clock, k)"
  shows "\<exists>st' xs'. process_timers os st = ret st' \<and>
    loop_ok t st' xs' (\<lambda>k. case M k of None \<Rightarrow> None | Some it \<Rightarrow>
      (case it_ttl it of Some d \<Rightarrow> if d < clock + 1000 then None else Some it | None \<Rightarrow> Some it)) \<and> fds_open opened st' \<and>
    (\<forall>p. conns st' p = (case conns st p of None \<Rightarrow> None | Some c \<Rightarrow>
      if idle_start c + K_IDLE_TIMEOUT_MS * 1000 < clock + 1000 then None else Some c)) \<and>
    (\<forall>nworks. \<exists>s D. expire_loop (clock + 1000) (srv st) nworks = ret s \<and> server_at s (M |` (- D)) \<and>
      D \<subseteq> due_keys (clock + 1000) M \<and> card D = min (card (due_keys (clock + 1000) M)) (Suc (K_MAX_WORKS - nworks)) \<and>
      (\<forall>k \<in> D. \<forall>k' \<in> due_keys (clock + 1000) M - D. ttl_of M k \<le> ttl_of M k'))"
proof -
  let ?due = "due_keys (clock + 1000) M"
  have "server_at (srv st) M" using assms(2) by (simp add: loop_ok_def)
  then have works: "\<forall>nworks. \<exists>s D. expire_loop (clock + 1000) (srv st) nworks = ret s \<and> server_at s (M |` (- D)) \<and>
      D \<subseteq> ?due \<and> card D = min (card ?due) (Suc (K_MAX_WORKS - nworks)) \<and> (\<forall>k \<in> D. \<forall>k' \<in> ?due - D. ttl_of M k \<le> ttl_of M k')"
    using expire_loop_works unfolding earliest_def by blast
  obtain st' xs' where s: "process_timers os st = ret st'" "loop_ok t st' xs' (expired (clock + 1000) M)"
    "conns st' = still_active (clock + 1000) (conns st)" "carried sent pending clk opened (st\<lparr>kern := k\<rparr>) st'" "tidy opened st st'"
    using process_timers_ok [OF assms] .
  have "expired (clock + 1000) M = (\<lambda>k. case M k of None \<Rightarrow> None | Some it \<Rightarrow>
      (case it_ttl it of Some d \<Rightarrow> if d < clock + 1000 then None else Some it | None \<Rightarrow> Some it))"
    by (auto simp: fun_eq_iff expired_def due_def split: option.splits)
  moreover have "conns st' p = (case conns st p of None \<Rightarrow> None | Some c \<Rightarrow>
      if idle_start c + K_IDLE_TIMEOUT_MS * 1000 < clock + 1000 then None else Some c)" for p
    using s(3) by (cases "conns st p") (simp_all add: still_active_def idle_due_def)
  moreover have "fds_open opened st'" using s(4) by (simp add: carried_def)
  ultimately show ?thesis using s(1,2) works by (intro exI [of _ st'] exI [of _ xs'] conjI) simp_all
qed

theorem process_timers_correct_witness:
  "\<exists>st st'. conns st = [7 \<mapsto> new_conn\<lparr>idle_start := 5\<rparr>] \<and> process_timers (host [] 9000000000) st = ret st' \<and> conns st' 7 = None"
proof -
  obtain st :: "host loop" where st: "loop_ok 5 st [7] Map.empty" "conns st = [7 \<mapsto> new_conn\<lparr>idle_start := 5\<rparr>]" "fds_open host_opened st"
    by (rule one_client)
  have t: "9000000000 < (2 ^ 63 :: nat)" by simp
  have c: "get_monotonic_usec (host [] 9000000000) (kern st) = (9000000, kern st)" using host_usec [OF t] by simp
  from process_timers_correct [OF host_ok [OF t] st(1) _ st(3) c] obtain st' where "process_timers (host [] 9000000000) st = ret st'"
    "conns st' 7 = (case conns st 7 of None \<Rightarrow> None | Some c \<Rightarrow>
      if idle_start c + K_IDLE_TIMEOUT_MS * 1000 < 9000000 + 1000 then None else Some c)" by auto
  then show ?thesis using st(2) by (auto simp: K_IDLE_TIMEOUT_MS_def)
qed

text \<open>
  C12. In a consistent state of the loop (fewer than 32 keys) and with clock readings below 2^63:
  the timeout that next_timer_ms computes for poll never lasts beyond any timer (connections going
  idle, deadlines of keys) that is still to come, and is 0 if one has passed; and when the timeout
  has elapsed, the earliest timer is due for process_timers, if it is less than 2^32 milliseconds
  away.
\<close>

theorem next_timer_correct:
  assumes "loop_ok t st xs M" and "t \<le> now_us" and "now_us < 2 ^ 63" and "get_monotonic_usec os (kern st) = (now_us, k)"
  shows "\<exists>r. next_timer_ms os st = ret (r, st\<lparr>kern := k\<rparr>) \<and>
    (\<forall>d \<in> timers st M. unat now_us + 1000 * unat r \<le> max (unat now_us) (unat d)) \<and>
    (\<forall>clock. (\<exists>d \<in> timers st M. unat d < unat now_us + 1000 * 2 ^ 32) \<longrightarrow> unat now_us + 1000 * unat r \<le> unat clock \<longrightarrow>
       clock < 2 ^ 63 \<longrightarrow> (\<exists>d \<in> timers st M. (\<forall>e \<in> timers st M. d \<le> e) \<and> d < clock + 1000))"
  using assms by (rule next_timer_sleep)

theorem next_timer_correct_witness:
  "\<exists>st st' r. conns st = [7 \<mapsto> new_conn\<lparr>idle_start := 5\<rparr>] \<and> next_timer_ms (host [] 6000) st = ret (r, st') \<and> 6 + 1000 * unat r \<le> 5000005"
proof -
  obtain st :: "host loop" where st: "loop_ok 5 st [7] Map.empty" "conns st = [7 \<mapsto> new_conn\<lparr>idle_start := 5\<rparr>]" by (rule one_client)
  have d: "5 + K_IDLE_TIMEOUT_MS * 1000 \<in> timers st Map.empty" unfolding timers_def st(2) by force
  have c: "get_monotonic_usec (host [] 6000) (kern st) = (6, kern st)" using host_usec [of 6000 "[]"] by simp
  from next_timer_correct [OF st(1) _ _ c] obtain r where r: "next_timer_ms (host [] 6000) st = ret (r, st\<lparr>kern := kern st\<rparr>)"
    "\<forall>d \<in> timers st Map.empty. unat (6 :: u64) + 1000 * unat r \<le> max (unat (6 :: u64)) (unat d)" by auto
  have "unat (5 + K_IDLE_TIMEOUT_MS * 1000 :: u64) = 5000005" by (simp add: K_IDLE_TIMEOUT_MS_def)
  then have "6 + 1000 * unat r \<le> 5000005" using bspec [OF r(2) d] by simp
  then show ?thesis using st(2) r(1) by blast
qed

section \<open>Key space\<close>

text \<open>
  C13. Creating the 32nd key never returns: the set command starts a resize of the key map whose
  migration loop does not end, unless every key hashes to bucket 0.
\<close>

theorem set_32nd_key_hangs:
  assumes "server_at s M" and "M k = None" and "card (dom M) = 31" and "unused s a"
    and "k' \<in> insert k (dom M)" and "str_hash k' AND 3 \<noteq> 0"
  shows "do_set a s [c, k, v] [] = None"
  using assms by (rule set_32_diverges)

theorem set_32nd_key_hangs_witness:
  "\<exists>s M a. server_at s M \<and> card (dom M) = 31 \<and> do_set a s [lit ''set'', [200], [1]] [] = None"
proof -
  obtain s M where s: "server_at s M" "card (dom M) = 31" "M [200] = None" "[0] \<in> dom M" "unused s (fst (bump s))" by (rule full_server)
  have "str_hash [0] AND 3 \<noteq> 0 \<or> str_hash [200] AND 3 \<noteq> 0" by (simp add: str_hash_def str_hash_step_def)
  then have "do_set (fst (bump s)) s [lit ''set'', [200], [1]] [] = None"
    using set_32nd_key_hangs [OF s(1,3,2,5), of "[0]"] set_32nd_key_hangs [OF s(1,3,2,5), of "[200]"] s(4) by auto
  then show ?thesis using s(1,2) by blast
qed

text \<open>
  C14. In a key space of fewer than 32 keys, setting a time to live of ms milliseconds on an
  existing key and asking for it later returns the whole milliseconds that are left until the
  deadline, and 0 once it has passed, and nothing else about the key space changes; the deadline
  is (now + 1000 * ms) modulo 2^64 microseconds. So the answer is the true remaining time as long
  as now + 1000 * ms is below 2^64, and for larger values, which str2int accepts, the deadline
  wraps around: a time to live of 18446744073709552 milliseconds is over after 384 microseconds.
\<close>

theorem expire_then_ttl:
  assumes "server_at s M" and "M k = Some it" and "str2int ttl = (True, ms)" and "0 \<le> ms"
  shows "\<exists>s1 d. do_expire now_us s [c, k, ttl] [] = ret (s1, encode (VInt 1)) \<and>
    unat d = (unat now_us + 1000 * nat ms) mod 2 ^ 64 \<and>
    (unat now_us + 1000 * nat ms < 2 ^ 64 \<longrightarrow> unat d = unat now_us + 1000 * nat ms) \<and>
    server_at s1 (M(k \<mapsto> it\<lparr>it_ttl := Some d\<rparr>)) \<and>
    (\<forall>later. do_ttl later s1 [c, k] [] = ret (s1, encode (VInt (of_nat ((unat d - unat later) div 1000)))))"
  using expire_ttl_exact [OF assms, of now_us c] by (metis mod_less)

theorem expire_then_ttl_witness:
  "\<exists>s M. server_at s M \<and> M [1] \<noteq> None \<and>
     (\<exists>s1. do_expire 1000000 s [[], [1], [55]] [] = ret (s1, encode (VInt 1)) \<and>
        do_ttl 1002000 s1 [[], [1]] [] = ret (s1, encode (VInt 5))) \<and>
     (\<exists>s1. do_expire 1000000 s [[], [1], dec_int 18446744073709552] [] = ret (s1, encode (VInt 1)) \<and>
        do_ttl 1000384 s1 [[], [1]] [] = ret (s1, encode (VInt 0)))"
proof -
  obtain s M where s: "server_at s M" "M [1] = Some \<lparr>it_val = [1], it_set = None, it_ttl = None\<rparr>"
    using server_with_keys [of "[[1]]"] by auto
  have n: "str2int [55] = (True, 7)" using str2int_dec_int [of 7] by (simp add: dec_int_def dec_digits.simps LLONG_MIN_def LLONG_MAX_def)
  have big: "str2int (dec_int 18446744073709552) = (True, 18446744073709552)" by (rule str2int_dec_int) (simp_all add: LLONG_MIN_def LLONG_MAX_def)
  have z: "(0 :: int) \<le> 7" "(0 :: int) \<le> 18446744073709552" by simp_all
  from expire_then_ttl [OF s n z(1), of 1000000 "[]"] obtain s1 and d :: u64 where
    1: "do_expire 1000000 s [[], [1], [55]] [] = ret (s1, encode (VInt 1))" "unat d = (unat (1000000 :: u64) + 1000 * nat 7) mod 2 ^ 64"
      "\<forall>later. do_ttl later s1 [[], [1]] [] = ret (s1, encode (VInt (of_nat ((unat d - unat later) div 1000))))" by blast
  from expire_then_ttl [OF s big z(2), of 1000000 "[]"] obtain s2 and e :: u64 where
    2: "do_expire 1000000 s [[], [1], dec_int 18446744073709552] [] = ret (s2, encode (VInt 1))"
      "unat e = (unat (1000000 :: u64) + 1000 * nat 18446744073709552) mod 2 ^ 64"
      "\<forall>later. do_ttl later s2 [[], [1]] [] = ret (s2, encode (VInt (of_nat ((unat e - unat later) div 1000))))" by blast
  have "do_ttl 1002000 s1 [[], [1]] [] = ret (s1, encode (VInt 5))" using 1(3) [rule_format, of 1002000] 1(2) by simp
  moreover have "do_ttl 1000384 s2 [[], [1]] [] = ret (s2, encode (VInt 0))" using 2(3) [rule_format, of 1000384] 2(2) by simp
  moreover have "M [1] \<noteq> None" using s(2) by simp
  ultimately show ?thesis using s(1) 1(1) 2(1) by blast
qed

text \<open>
  C15. str2int accepts exactly the decimal literals - optional white space, an optional sign, at
  least one digit - and also the empty string; and it reads the usual decimal notation of every
  64-bit integer back as that integer.
\<close>

theorem str2int_exact:
  "(fst (str2int s) = (s = [] \<or> (\<exists>ws sg ds. s = ws @ sg @ ds \<and> list_all is_space ws \<and> sg \<in> {[], [43], [45]} \<and>
      ds \<noteq> [] \<and> list_all is_digit ds))) \<and>
   (i \<in> {- (2 ^ 63) ..< 2 ^ 63} \<longrightarrow> str2int (dec_int i) = (True, i))"
  using str2int_accepts [of s] str2int_dec_int [of i] unfolding int_literal_def LLONG_MIN_def LLONG_MAX_def by auto

theorem str2int_exact_witness: "str2int (dec_int (-42)) = (True, -42) \<and> fst (str2int [])"
  using str2int_exact [of "[]" "-42"] by simp

section \<open>Sorted set\<close>

text \<open>
  C16. On a well-formed sorted set of fewer than 31 members, zset_add returns and implements an
  update of the map from names to scores (a score that compares equal to the old one is not
  written); it reports whether the name was new, keeps both indices consistent and the tree sorted
  by (score, name), and touches no memory outside the set and the new node.
\<close>

theorem zset_add_correct:
  assumes "zset_ok m zset t" and "size t + 1 < 32" and "\<not> dbl_nan sc" and "length nm < 2 ^ 32"
    and "tnodes m a = None" and "hnodes m a = None" and "znodes m a = None"
  shows "\<exists>m' zset' t'. zset_add m zset (Some a) nm sc = ret (m', zset', zscores m t nm = None) \<and>
    zset_ok m' zset' t' \<and> zscores m' t' = (zscores m t)(nm \<mapsto> new_score (zscores m t nm) sc) \<and>
    zframe (insert a (set_tree t)) m m'"
proof (cases "zscores m t nm")
  case None
  obtain m' zset' t' where "zset_add m zset (Some a) nm sc = ret (m', zset', True)" "zset_ok m' zset' t'"
    "zscores m' t' = (zscores m t)(nm \<mapsto> sc)" "zframe (insert a (set_tree t)) m m'"
    using zset_add_new [OF assms(1) None assms(3,4,2,5,6,7)] by metis
  then show ?thesis using None by (auto simp: new_score_def)
next
  case (Some s)
  obtain m' zset' t' where "zset_add m zset (Some a) nm sc = ret (m', zset', False)" "zset_ok m' zset' t'"
    "zscores m' t' = (zscores m t)(nm \<mapsto> new_score (Some s) sc)" "zframe (set_tree t) m m'"
    using zset_add_existing [OF assms(1) Some assms(3)] by metis
  moreover from this(4) have "zframe (insert a (set_tree t)) m m'" by (simp add: zframe_def)
  ultimately show ?thesis using Some by auto
qed

theorem zset_add_correct_witness:
  "zset_ok empty_mem ZSet_default \<langle>\<rangle> \<and>
   (\<exists>m zset t. zset_add empty_mem ZSet_default (Some 7) [97] 0 = ret (m, zset, True) \<and> zset_ok m zset t \<and>
      zscores m t = [[97] \<mapsto> 0])"
  using zset_add_correct [OF zset_ok_empty, of 0 "[97]" empty_mem 7] zset_ok_empty
  by (auto simp: new_score_def)

text \<open>
  C17. On a well-formed sorted set of fewer than 32 members, zset_pop of a name returns the node
  with that name, or null when there is none, removes exactly that node from both indices and that
  name from the map of scores, and touches no memory outside the set.
\<close>

theorem zset_pop_correct:
  assumes "zset_ok m zset t"
  shows "\<exists>m' zset' p t'. zset_pop m zset nm = ret (m', zset', p) \<and>
    (case p of Some a \<Rightarrow> a \<in> set_tree t \<and> (\<exists>sc. znodes m a = Some \<lparr>score = sc, name = nm\<rparr>)
     | None \<Rightarrow> zscores m t nm = None) \<and>
    zset_ok m' zset' t' \<and> set_tree t' = set_tree t - set_option p \<and>
    zscores m' t' = (zscores m t)(nm := None) \<and> zframe (set_tree t) m m'"
proof -
  obtain m' zset' p t' where p: "zset_pop m zset nm = ret (m', zset', p)"
    "at_key (set_tree t) (zname (znodes m)) nm p" "zset_ok m' zset' t'"
    "set_tree t' = set_tree t - set_option p" "znodes m' = znodes m" "zframe (set_tree t) m m'"
    using zset_pop_ok [OF assms] by metis
  have "case p of Some a \<Rightarrow> a \<in> set_tree t \<and> (\<exists>sc. znodes m a = Some \<lparr>score = sc, name = nm\<rparr>)
     | None \<Rightarrow> zscores m t nm = None"
    using p(2) at_key_payload [OF assms] by blast
  then show ?thesis using p zscores_removed [OF assms p(3,2,4,5)] by blast
qed

theorem zset_pop_correct_witness:
  "\<exists>m zset t m' zset' p t'. zset_ok m zset t \<and> zscores m t [97] = Some 0 \<and>
     zset_pop m zset [97] = ret (m', zset', p) \<and> zset_ok m' zset' t' \<and> zscores m' t' [97] = None"
proof -
  obtain m zset t where ok: "zset_ok m zset t" "zscores m t [97] = Some 0" by (rule one_member)
  obtain m' zset' p t' where "zset_pop m zset [97] = ret (m', zset', p)" "zset_ok m' zset' t'"
    "zscores m' t' = (zscores m t)([97] := None)" using zset_pop_correct [OF ok(1), of "[97]"] by blast
  moreover from this(3) have "zscores m' t' [97] = None" by simp
  ultimately show ?thesis using ok by blast
qed

text \<open>
  C18. In a well-formed sorted set of fewer than 32 members, zset_query for a score that is not
  NaN and a name below 2^32 bytes returns the node at the given offset, forwards or backwards,
  from the first member that is not below (score, name) in the order of the set, and null when
  there is no such member or the offset leaves the set.
\<close>

theorem zset_query_correct:
  assumes "zset_ok m zset t" and "\<not> dbl_nan sc" and "length nm < 2 ^ 32"
  shows "zset_query m zset sc nm off =
    (let xs = inorder t; i = length (filter (\<lambda>a. zkey_of (znodes m) a < (dbl_key sc, nm)) xs) in
     ret (if i < length xs then nth_opt xs (int i + off) else None)) \<and>
    sorted_wrt (\<lambda>a b. zkey_of (znodes m) a < zkey_of (znodes m) b) (inorder t)"
  using zset_query_ok [OF assms, of off] zset_okD(5) [OF assms(1)] by (simp add: zrank_def zsorted_def)

theorem zset_query_correct_witness:
  "\<exists>m zset t. zset_ok m zset t \<and> zscores m t [97] = Some 0 \<and> zset_query m zset 0 [] 1 = ret None"
proof -
  obtain m zset t where ok: "zset_ok m zset t" "set_tree t = {7}" "zscores m t [97] = Some 0" by (rule one_member)
  have "distinct (inorder t)" using zset_okD(1) [OF ok(1)] avl_repD(2) by blast
  then have "length (inorder t) = 1" using ok(2) distinct_card [of "inorder t"] by (simp del: length_inorder)
  then have "zset_query m zset 0 [] 1 = ret None"
    using zset_query_correct [OF ok(1), of 0 "[]" 1]
    by (auto simp: nth_opt_def Let_def split: if_splits)
  then show ?thesis using ok(1,3) by blast
qed

text \<open>
  C19. In a well-formed sorted set of fewer than 32 members (whose hash map is in its first table,
  so no resize is in progress) zset_lookup returns the node whose name is the argument, with its
  current score, or null exactly when no member has that name, and changes nothing.
\<close>

theorem zset_lookup_correct:
  assumes "zset_ok m zset t"
  shows "\<exists>p. zset_lookup m zset nm = ret (m, zset, p) \<and>
    (case p of None \<Rightarrow> zscores m t nm = None
     | Some a \<Rightarrow> \<exists>sc. znodes m a = Some \<lparr>score = sc, name = nm\<rparr> \<and> zscores m t nm = Some sc)"
proof -
  obtain p where p: "zset_lookup m zset nm = ret (m, zset, p)" "at_key (set_tree t) (zname (znodes m)) nm p"
    using zset_lookup_ok [OF assms] by blast
  from at_key_payload [OF assms p(2)] zscores_iff [OF assms]
  have "case p of None \<Rightarrow> zscores m t nm = None
     | Some a \<Rightarrow> \<exists>sc. znodes m a = Some \<lparr>score = sc, name = nm\<rparr> \<and> zscores m t nm = Some sc"
    by (auto split: option.splits)
  with p(1) show ?thesis by blast
qed

theorem zset_lookup_correct_witness:
  "\<exists>m zset t p. zset_ok m zset t \<and> zscores m t [97] = Some 0 \<and> zset_lookup m zset [97] = ret (m, zset, p)"
proof -
  obtain m zset t where ok: "zset_ok m zset t" "zscores m t [97] = Some 0" by (rule one_member)
  then show ?thesis using zset_lookup_correct [OF ok(1), of "[97]"] by blast
qed

text \<open>
  C20. zset_dispose of a well-formed sorted set of fewer than 32 members frees every node of it
  exactly once - no double free, no access to a freed node - leaves all other memory as it was and
  resets the hash map.
\<close>

theorem zset_dispose_frees:
  assumes "zset_ok m zset t"
  shows "zset_dispose m zset = ret (zfree (set_tree t) m, zset\<lparr>hmap := HMap_default\<rparr>)"
  using assms by (rule zset_dispose_ok)

theorem zset_dispose_frees_witness:
  "\<exists>m zset t. zset_ok m zset t \<and> zscores m t [97] = Some 0 \<and>
     zset_dispose m zset = ret (zfree {7} m, zset\<lparr>hmap := HMap_default\<rparr>)"
proof -
  obtain m zset t where ok: "zset_ok m zset t" "set_tree t = {7}" "zscores m t [97] = Some 0" by (rule one_member)
  then have "zset_dispose m zset = ret (zfree {7} m, zset\<lparr>hmap := HMap_default\<rparr>)"
    using zset_dispose_frees [OF ok(1)] by simp
  with ok(1,3) show ?thesis by blast
qed

text \<open>
  C21. For scores that are not NaN and names below 2^32 bytes, zless is the lexicographic order on
  (score, name), with scores compared as IEEE doubles and names as unsigned bytes, a proper prefix
  coming first.
\<close>

theorem zless_lexicographic:
  assumes "zs a = Some z" and "\<not> dbl_nan (score z)" and "length (name z) < 2 ^ 32"
    and "\<not> dbl_nan sc" and "length nm < 2 ^ 32"
  shows "zless zs (Some a) sc nm = ret (dbl_key (score z) < dbl_key sc \<or> dbl_key (score z) = dbl_key sc \<and> name z < nm)"
  using zless_key [of zs a z sc nm] assms by (auto simp: zvalid_def zkey_def less_prod_def)

theorem zless_lexicographic_witness:
  "zless [3 \<mapsto> \<lparr>score = 0, name = [97]\<rparr>] (Some 3) 0 [97, 98] = ret True"
  using zless_lexicographic [of "[3 \<mapsto> \<lparr>score = 0, name = [97]\<rparr>]" 3 "\<lparr>score = 0, name = [97]\<rparr>" 0 "[97, 98]"]
  by (simp add: dbl_nan_def dbl_mag_def)

section \<open>AVL tree\<close>

text \<open>
  C22. On a well-formed AVL tree of any shape, avl_delete of a node returns (no null or dangling
  access, no endless loop) a well-formed AVL tree - pointers, parent links, stored depths and
  counts and balance - whose in-order sequence is the old one without that node, and it writes
  only to nodes of the tree.
\<close>

theorem avl_delete_correct:
  assumes "avl_rep h root t" and "a \<in> set_tree t"
  shows "\<exists>h' root' t'. avl_delete h (Some a) = ret (h', root') \<and> avl_rep h' root' t' \<and>
    inorder t' = remove1 a (inorder t) \<and> same_outside (set_tree t) h h'"
  using avl_rep_delete [OF assms] by metis

theorem avl_delete_correct_witness:
  "avl_rep three_nodes (Some 1) three_tree \<and>
   (\<exists>h' root' t'. avl_delete three_nodes (Some 1) = ret (h', root') \<and> avl_rep h' root' t' \<and> inorder t' = [0, 2])"
  using avl_delete_correct [OF three_nodes_rep, of 1] three_nodes_rep by (auto simp: three_tree_def)

text \<open>
  C23. avl_offset from the node of rank i by off returns the node of rank i + off of the same
  tree, or null when that rank does not exist, for negative and positive offsets alike; in
  particular its loop ends.
\<close>

theorem avl_offset_correct:
  assumes "avl_rep h root t" and "i < length (inorder t)"
  shows "avl_offset h (Some (inorder t ! i)) off = ret (nth_opt (inorder t) (int i + off))"
  using avl_rep_offset assms by blast

theorem avl_offset_correct_witness:
  "avl_rep three_nodes (Some 1) three_tree \<and> avl_offset three_nodes (Some 0) 2 = ret (Some 2) \<and>
   avl_offset three_nodes (Some 0) (-1) = ret None"
  using avl_offset_correct [OF three_nodes_rep, of 0 2] avl_offset_correct [OF three_nodes_rep, of 0 "-1"]
    three_nodes_rep by (simp add: three_tree_def nth_opt_def)

section \<open>Hash map\<close>

text \<open>
  C24. In a map of fewer than 31 nodes with pairwise different keys, hm_insert of a node with a
  new key returns, and hm_lookup of that key then returns that node.
\<close>

theorem hm_insert_found:
  assumes "hm_small hs m N" and "keyed hs N key code" and "hs a = Some n" and "hcode n = code (key a)"
    and "key a \<notin> key ` N" and "card N + 1 < 32" and "\<And>b. b \<in> insert a N \<Longrightarrow> cmp b = ret (key b = key a)"
  shows "\<exists>hs' m'. hm_insert hs m (Some a) = ret (hs', m') \<and>
    hm_lookup hs' m' (code (key a)) cmp = ret (hs', m', Some a)"
  using assms by (rule first_table.insert_then_lookup)

theorem hm_insert_found_witness:
  "\<exists>hs' m'. hm_insert [7 \<mapsto> \<lparr>hnext = None, hcode = 9\<rparr>] HMap_default (Some 7) = ret (hs', m') \<and>
    hm_lookup hs' m' 9 (\<lambda>b. ret (b = 7)) = ret (hs', m', Some 7)"
  using hm_insert_found [OF hm_small_empty, of "[7 \<mapsto> \<lparr>hnext = None, hcode = 9\<rparr>]" id "\<lambda>_. 9" 7
      "\<lparr>hnext = None, hcode = 9\<rparr>" "\<lambda>b. ret (b = 7)"]
  by (simp add: keyed_def)

text \<open>
  C25. In a map of fewer than 32 nodes with pairwise different keys, hm_pop of a key returns the
  node with that key if there is one and null otherwise, leaves exactly the other nodes in the
  map, and the key is not found afterwards.
\<close>

theorem hm_pop_removes:
  assumes "hm_small hs m N" and "keyed hs N key code" and "\<And>b. b \<in> N \<Longrightarrow> cmp b = ret (key b = k)"
  shows "\<exists>hs' m' p. hm_pop hs m (code k) cmp = ret (hs', m', p) \<and> at_key N key k p \<and>
    hm_small hs' m' (N - set_option p) \<and> hm_lookup hs' m' (code k) cmp = ret (hs', m', None)"
  using first_table.pop_key [OF assms] first_table.pop_then_lookup [OF assms] by fastforce

theorem hm_pop_removes_witness:
  "hm_small full_nodes full_map {0..<31} \<and>
   (\<exists>hs' m' p. hm_pop full_nodes full_map 1 (\<lambda>b. ret (b = 4)) = ret (hs', m', p) \<and> at_key {0..<31} id 4 p)"
proof -
  have "keyed full_nodes {0..<31} id (\<lambda>_. 1)" by (simp add: keyed_def code_of_def full_nodes_def)
  from hm_pop_removes [OF full_map_small this, where k = 4 and cmp = "\<lambda>b. ret (b = 4)"]
  show ?thesis using full_map_small by auto
qed

text \<open>
  C26. For every well-formed map, also in the middle of a resize: hm_lookup runs forever exactly
  when the bucket it migrates from is too short (hm_stuck), and otherwise returns a node of the
  map that the callback accepts, or null when there is none, with the set of nodes unchanged.
\<close>

theorem hm_lookup_exact:
  assumes "hm_at hs m bt bf" and "finds hs (hm_nodes bt bf) c cmp P"
  shows "if hm_stuck m bf 0 then hm_lookup hs m c cmp = None
    else \<exists>hs' m' p. hm_lookup hs m c cmp = ret (hs', m', p) \<and> hm_inv hs' m' (hm_nodes bt bf) \<and>
      (case p of Some a \<Rightarrow> a \<in> hm_nodes bt bf \<and> P a | None \<Rightarrow> \<forall>a \<in> hm_nodes bt bf. \<not> P a)"
proof (cases "hm_stuck m bf 0")
  case True
  then show ?thesis using hm_help_resizing_diverges [OF assms(1)] by (simp add: hm_lookup_def)
next
  case False
  obtain hs' m' p bt' bf' where r: "hm_lookup hs m c cmp = ret (hs', m', p)" "hm_at hs' m' bt' bf'"
    "hm_nodes bt' bf' = hm_nodes bt bf"
    "case p of Some a \<Rightarrow> a \<in> hm_nodes bt bf \<and> P a | None \<Rightarrow> \<forall>a \<in> hm_nodes bt bf. \<not> P a"
    using hm_lookup_at [OF assms(1) False assms(2)] by blast
  then have "hm_inv hs' m' (hm_nodes bt bf)" unfolding hm_inv_def by metis
  with r(1,4) False show ?thesis by auto
qed

theorem hm_lookup_exact_witness:
  "hm_at full_nodes full_map [[], rev [0..<31], [], []] [] \<and>
   (\<exists>hs' m' p. hm_lookup full_nodes full_map 1 (\<lambda>b. ret (b = 4)) = ret (hs', m', p))"
proof -
  let ?bt = "[[], rev [0..<31], [], []]"
  have at: "hm_at full_nodes full_map ?bt []" using full_tab by (simp add: hm_at_def full_map_def)
  have "finds full_nodes (hm_nodes ?bt []) 1 (\<lambda>b. ret (b = 4)) (\<lambda>b. b = 4)"
    by (simp add: finds_def code_of_def full_nodes_def hm_nodes_def)
  from hm_lookup_exact [OF at this] at show ?thesis by (auto simp: hm_stuck_def full_map_def split: if_splits)
qed

text \<open>
  C27. The insertion of the 32nd node into a map never returns when some node's hash code does not
  fall into the first of the four buckets: hm_help_resizing restarts its loop at an empty bucket
  without advancing resizing_pos.
\<close>

theorem hm_insert_32_diverges:
  assumes "hm_small hs m N" and "hs a = Some n" and "a \<notin> N" and "card N = 31"
    and "b \<in> insert a N" and "code_of hs b = Some k" and "k AND 3 \<noteq> 0"
  shows "hm_insert hs m (Some a) = None"
  using assms by (rule hm_small_insert_32)

theorem hm_insert_32_diverges_witness:
  "hm_small full_nodes full_map {0..<31} \<and> hm_insert full_nodes full_map (Some 31) = None"
  using hm_insert_32_diverges [OF full_map_small, of 31 "\<lparr>hnext = None, hcode = 1\<rparr>" 31 1] full_map_small
  by (simp add: full_nodes_def code_of_def)

text \<open>
  C28. hm_size counts the nodes through all operations on every well-formed map, also in the
  middle of a resize: hm_insert of a new node, when it returns, has added exactly one, and it does
  return when no resize is in progress and the table stays below its load factor; when the
  migration does not get stuck, hm_pop returns and has taken away exactly one if it found a node
  that the callback accepts and none otherwise, and hm_lookup returns and leaves the number as it
  is.
\<close>

theorem hm_size_follows:
  assumes "hm_at hs m bt bf" and "finds hs (hm_nodes bt bf) c cmp P"
    and "hs a = Some n" and "a \<notin> hm_nodes bt bf" and "card (hm_nodes bt bf) + 1 < 2 ^ 64"
  shows "(hm_insert hs m (Some a) = None \<or>
      (\<exists>hs' m'. hm_insert hs m (Some a) = ret (hs', m') \<and> unat (hm_size m') = unat (hm_size m) + 1)) \<and>
    (bf = [] \<longrightarrow> unat (hm_size m) + 1 < 8 * (if bt = [] then 4 else length bt) \<longrightarrow> hm_insert hs m (Some a) \<noteq> None) \<and>
    (\<not> hm_stuck m bf 0 \<longrightarrow>
      (\<exists>hs' m' p. hm_pop hs m c cmp = ret (hs', m', p) \<and> (p = None \<longleftrightarrow> (\<forall>b \<in> hm_nodes bt bf. \<not> P b)) \<and>
         unat (hm_size m) = unat (hm_size m') + (if p = None then 0 else 1)) \<and>
      (\<exists>hs' m' p. hm_lookup hs m c cmp = ret (hs', m', p) \<and> hm_size m' = hm_size m))"
  using hm_insert_size [OF assms(1,3-5)] hm_pop_size [OF assms(1) _ assms(2)] hm_lookup_size [OF assms(1) _ assms(2)] by blast

theorem hm_size_follows_witness:
  "hm_at full_nodes full_map [[], rev [0..<31], [], []] [] \<and>
   (\<exists>hs' m' p. hm_pop full_nodes full_map 1 (\<lambda>b. ret (b = 4)) = ret (hs', m', p) \<and> p \<noteq> None \<and>
      unat (hm_size full_map) = unat (hm_size m') + 1)"
proof -
  let ?bt = "[[], rev [0..<31], [], []]"
  have at: "hm_at full_nodes full_map ?bt []" using full_tab by (simp add: hm_at_def full_map_def)
  have f: "finds full_nodes (hm_nodes ?bt []) 1 (\<lambda>b. ret (b = 4)) (\<lambda>b. b = 4)"
    by (simp add: finds_def code_of_def full_nodes_def hm_nodes_def)
  have n: "full_nodes 31 = Some \<lparr>hnext = None, hcode = 1\<rparr>" "31 \<notin> hm_nodes ?bt []" "card (hm_nodes ?bt []) + 1 < 2 ^ 64"
    by (simp_all add: full_nodes_def hm_nodes_def)
  have e: "\<exists>b \<in> hm_nodes ?bt []. b = 4" by (simp add: hm_nodes_def)
  have "\<not> hm_stuck full_map [] 0" by (simp add: hm_stuck_def)
  with hm_size_follows [OF at f n] obtain hs' m' p where
    "hm_pop full_nodes full_map 1 (\<lambda>b. ret (b = 4)) = ret (hs', m', p)" "p = None \<longleftrightarrow> (\<forall>b \<in> hm_nodes ?bt []. b \<noteq> 4)"
    "unat (hm_size full_map) = unat (hm_size m') + (if p = None then 0 else 1)" by blast
  with e at show ?thesis by auto
qed

text \<open>
  C29. h_scan on a table of a map in its first table calls its function exactly once on every
  node, in some order, threading its argument, and nothing else.
\<close>

theorem h_scan_visits:
  assumes "hm_small hs m N"
  shows "\<exists>xs. distinct xs \<and> set xs = N \<and> (\<forall>s. h_scan hs (ht_to m) f s = foldE f xs s)"
  using hm_small_scan [OF assms] by metis

theorem h_scan_visits_witness:
  "hm_small full_nodes full_map {0..<31} \<and>
   (\<exists>xs. distinct xs \<and> set xs = {0..<31} \<and> h_scan full_nodes (ht_to full_map) (\<lambda>a ys. ret (a # ys)) [] = ret (rev xs))"
proof -
  have "foldE (\<lambda>a ys. ret (a # ys)) xs ys = ret (rev xs @ ys)" for xs ys :: "addr list"
    by (induction xs arbitrary: ys) simp_all
  then show ?thesis
    using h_scan_visits [OF full_map_small, of "\<lambda>a ys. ret (a # ys)"] full_map_small by fastforce
qed

section \<open>Timers\<close>

text \<open>
  C30. On a consistent timer heap, entry_set_ttl returns and implements an update of the map from
  entries to deadlines: a negative ttl removes the entry's deadline and any other sets it to now +
  ttl * 1000 in 64-bit arithmetic; all other deadlines, the heap order and the links between array
  and entries are kept.
\<close>

theorem entry_set_ttl_correct:
  assumes "ttl_inv hp idx" and "idx a = Some pos" and "length hp + 1 < 2 ^ 62"
  shows "\<exists>hp' idx'. entry_set_ttl now_us hp idx (Some a) ttl_ms = ret (hp', idx') \<and>
    ttl_inv hp' idx' \<and> dom idx' = dom idx \<and>
    deadline hp' idx' =
      (deadline hp idx)(a := if sint ttl_ms < 0 then None else Some (now_us + ttl_ms * 1000))"
  using entry_set_ttl_refines [OF assms, of now_us ttl_ms] unfolding deadline_set_def by (metis prod.collapse)

theorem entry_set_ttl_correct_witness:
  "ttl_inv two_timers two_slots \<and>
   (\<exists>hp' idx'. entry_set_ttl 0 two_timers two_slots (Some 12) 3 = ret (hp', idx') \<and> ttl_inv hp' idx' \<and>
      deadline hp' idx' 12 = Some 3000)"
  using entry_set_ttl_correct [OF two_timers_inv, of 12 SIZE_MAX 0 3] two_timers_inv
  by (auto simp: two_slots_def two_timers_def)

section \<open>Requests and responses\<close>

text \<open>
  C31. A command that fits the limits (at most K_MAX_ARGS strings, at most K_MAX_MSG bytes) is
  sent by send_req as a length-prefixed message: it returns 0 and has handed over the whole
  message, or -1 because a write call on the bytes still to be sent failed, in which case exactly
  the bytes before them were sent; and parse_req on the payload of that message gives back exactly
  the command.
\<close>

theorem request_roundtrip:
  assumes "writes_prefix write_call sent" and "length cmd \<le> K_MAX_ARGS" and "length (req_payload cmd) \<le> K_MAX_MSG"
  shows "\<exists>rv k' len payload. send_req write_call k cmd = ret (rv, k') \<and> unat len = length payload \<and>
    (\<forall>rest. parse_req (payload @ rest) (unat len) [] = ret (0, cmd)) \<and>
    (rv = 0 \<and> sent k' = sent k @ le32 len @ payload \<or>
     rv = -1 \<and> (\<exists>m k0. m < length (le32 len @ payload) \<and> sent k' = sent k @ take m (le32 len @ payload) \<and>
       sent k0 = sent k' \<and> fst (write_call k0 (drop m (le32 len @ payload))) \<le> 0))"
proof -
  let ?p = "req_payload cmd" and ?len = "of_nat (length (req_payload cmd)) :: u32"
  have len: "unat ?len = length ?p" using assms(3) by (simp add: unat_of_nat_u32 K_MAX_MSG_def)
  have parse: "\<forall>rest. parse_req (?p @ rest) (unat ?len) [] = ret (0, cmd)"
    using parse_req_payload [OF assms(2,3), of _ "[]"] len by simp
  have img: "req_image cmd = le32 ?len @ ?p" by (simp add: req_image_def)
  obtain rv k' m where w: "send_req write_call k cmd = ret (rv, k')" "sent k' = sent k @ take m (le32 ?len @ ?p)"
    "rv = 0 \<and> m = length (le32 ?len @ ?p) \<or> rv = -1 \<and> m < length (le32 ?len @ ?p) \<and>
      (\<exists>k0. sent k0 = sent k @ take m (le32 ?len @ ?p) \<and> fst (write_call k0 (drop m (le32 ?len @ ?p))) \<le> 0)"
    using write_all_outcome [OF assms(1), of k "req_image cmd"] send_req_image [OF assms(3)] unfolding img by metis
  then have "rv = 0 \<and> sent k' = sent k @ le32 ?len @ ?p \<or>
     rv = -1 \<and> (\<exists>m k0. m < length (le32 ?len @ ?p) \<and> sent k' = sent k @ take m (le32 ?len @ ?p) \<and>
       sent k0 = sent k' \<and> fst (write_call k0 (drop m (le32 ?len @ ?p))) \<le> 0)" by (metis take_all_iff order_refl)
  then show ?thesis using w(1) len parse by blast
qed

theorem request_roundtrip_witness:
  "writes_prefix slow_write (\<lambda>k. k) \<and>
   (\<exists>k' len payload. send_req slow_write [] [[103, 101, 116], [107]] = ret (0, k') \<and> k' = le32 len @ payload \<and>
      parse_req payload (unat len) [] = ret (0, [[103, 101, 116], [107]]))"
proof -
  let ?cmd = "[[103, 101, 116], [107]] :: bytes list"
  have pos: "0 < fst (slow_write k (drop m buf))" if "m < length buf" for k m buf
    using that by (cases "drop m buf") (simp_all add: slow_write_def)
  have fits: "length ?cmd \<le> K_MAX_ARGS" "length (req_payload ?cmd) \<le> K_MAX_MSG"
    by (simp_all add: K_MAX_ARGS_def K_MAX_MSG_def length_req_payload)
  from request_roundtrip [OF slow_write_prefix fits, of "[]"] obtain rv k' len payload where
    r: "send_req slow_write [] ?cmd = ret (rv, k')" "\<forall>rest. parse_req (payload @ rest) (unat len) [] = ret (0, ?cmd)"
      "rv = 0 \<and> k' = [] @ le32 len @ payload \<or> rv = -1 \<and> (\<exists>m k0. m < length (le32 len @ payload) \<and>
         fst (slow_write k0 (drop m (le32 len @ payload))) \<le> 0)" by blast
  then have "rv = 0 \<and> k' = le32 len @ payload" using pos by (metis append_Nil not_less)
  then show ?thesis using r(1,2) slow_write_prefix by (metis append_Nil2)
qed

text \<open>
  C32. On arbitrary bytes parse_req never reads outside the announced payload and always returns
  -1 or 0; it yields at most K_MAX_ARGS strings, and it returns 0 only if the payload is exactly
  the encoding of the strings it produced, with no trailing bytes.
\<close>

theorem parse_req_exact:
  assumes "len \<le> length data"
  shows "\<exists>rv out. parse_req data len [] = ret (rv, out) \<and> rv \<in> {-1, 0} \<and> length out \<le> K_MAX_ARGS \<and>
    (rv = 0 \<longrightarrow> take len data = req_payload out)"
  using assms by (rule parse_req_decodes)

theorem parse_req_exact_witness:
  "\<exists>rv out. parse_req [1, 0, 0, 0, 9] 5 [] = ret (rv, out) \<and> rv \<in> {-1, 0}"
  using parse_req_exact [of 5 "[1, 0, 0, 0, 9]"] by auto



text \<open>
  C34. On arbitrary bytes, whatever the announced size and the array they are in, on_response
  always comes to an end, and a non-negative result never exceeds the number of bytes it was
  given, so the element loop of an array never underflows the remaining size.
\<close>

theorem on_response_bounded:
  "on_response data sz \<noteq> None \<and>
   (\<forall>rv p. on_response data sz = ret (rv, p) \<longrightarrow> sint rv < 0 \<or> unat rv \<le> unat sz)"
  using on_response_within [of sz data] unfolding within_def .

theorem on_response_bounded_witness:
  "on_response [0, 9] 2 = ret (1, [PNil]) \<and> (sint (1 :: u32) < 0 \<or> unat (1 :: u32) \<le> unat (2 :: u64))"
proof -
  have r: "on_response [0, 9] 2 = ret (1, [PNil])" by (subst on_response.simps) (simp add: ser_defs read_u8_def)
  with on_response_bounded [of "[0, 9]" 2] show ?thesis by blast
qed

text \<open>
  C35. A string response with any length field from 0xFFFFFFFB on passes the size check, because 1
  + 4 + len wraps in 32 bits, whatever number of bytes (at least 5) was received; its precision is
  negative, so printf prints everything up to the next NUL byte in the array, past the bytes
  received, and reads past the end of the array if there is none. In read_res, with such a body of
  n bytes without NUL, what is printed goes on into the old contents of the 4101-byte read buffer
  behind the body, and past its end when they hold no NUL byte.
\<close>

theorem on_response_overread:
  assumes "0xFFFFFFFB \<le> unat len"
  shows "(5 \<le> unat sz \<longrightarrow> on_response (SER_STR # le32 len @ body) sz =
      (if 0 \<in> set body then ret (len + 5, [PStr (c_string body)]) else fault OutOfBounds)) \<and>
    (read_full read_call k 4 [] = ret (0, le32 n, k1) \<longrightarrow> unat n = 5 + length body \<longrightarrow> unat n \<le> K_MAX_MSG \<longrightarrow>
     read_full read_call k1 (unat n) [] = ret (0, SER_STR # le32 len @ body, k2) \<longrightarrow> 0 \<notin> set body \<longrightarrow>
     read_res raw read_call k = (let old = map raw [4 + unat n ..< 4101] in
       if 0 \<in> set old then ret (if len + 5 = 0 then 0 else -1, [PStr (body @ c_string old)], k2) else fault OutOfBounds))"
proof -
  have l: "2 ^ 32 - 5 \<le> unat len" using assms by simp
  have buf: "read_buf_from raw (4 + unat n) = map raw [4 + unat n ..< 4101]" by (simp add: read_buf_from_def K_MAX_MSG_def)
  show ?thesis
  proof (intro conjI impI)
    assume "5 \<le> unat sz"
    then show "on_response (SER_STR # le32 len @ body) sz =
      (if 0 \<in> set body then ret (len + 5, [PStr (c_string body)]) else fault OutOfBounds)" by (rule on_response_wraps [OF l])
  next
    assume r: "read_full read_call k 4 [] = ret (0, le32 n, k1)" "unat n = 5 + length body" "unat n \<le> K_MAX_MSG"
      "read_full read_call k1 (unat n) [] = ret (0, SER_STR # le32 len @ body, k2)" "0 \<notin> set body"
    from read_res_wraps [OF r(1,3,4,2) l r(5), of raw] show "read_res raw read_call k = (let old = map raw [4 + unat n ..< 4101] in
       if 0 \<in> set old then ret (if len + 5 = 0 then 0 else -1, [PStr (body @ c_string old)], k2) else fault OutOfBounds)"
      unfolding buf .
  qed
qed

theorem on_response_overread_witness:
  "on_response [SER_STR, 0xFF, 0xFF, 0xFF, 0xFF] 5 = fault OutOfBounds \<and>
   on_response [SER_STR, 0xFB, 0xFF, 0xFF, 0xFF, 97, 98, 0] 5 = ret (0, [PStr [97, 98]])"
proof -
  have e: "le32 0xFFFFFFFF = [0xFF, 0xFF, 0xFF, 0xFF]" "le32 0xFFFFFFFB = [0xFB, 0xFF, 0xFF, 0xFF]" by (simp_all add: le32_def)
  have "0xFFFFFFFB \<le> unat (0xFFFFFFFF :: u32)" "0xFFFFFFFB \<le> unat (0xFFFFFFFB :: u32)" by simp_all
  note r = on_response_overread [OF this(1), of 5 "[]", THEN conjunct1] on_response_overread [OF this(2), of 5 "[97, 98, 0]", THEN conjunct1]
  show ?thesis using r unfolding e by (simp add: c_string_def)
qed

section \<open>Thread pool\<close>

text \<open>
  C36. In every reachable state of the thread pool, for any positive number of started threads and
  any interleaving, the jobs taken are a prefix of the jobs pushed, in the order they were pushed,
  and every job taken has been started exactly once or is in the hands of exactly one worker: no
  job is lost or run twice.
\<close>

theorem pool_jobs_fifo_once:
  assumes "reachable n tp"
  shows "pushed tp = popped tp @ queue tp \<and>
    mset (popped tp) = mset (ran tp) + sum_list (map in_hand (threads tp))"
  using reachable_inv [OF assms] by (simp add: pool_inv_def fifo_def accounted_def)

theorem pool_jobs_fifo_once_witness: "reachable 1 one_job \<and> pushed one_job = popped one_job @ queue one_job"
  using pool_jobs_fifo_once [OF one_job_reachable] one_job_reachable by blast

text \<open>
  C37. In every reachable state of a pool with at least one worker and with a job in the queue
  some thread can take a step: the pool cannot deadlock, and no signal is lost in a way that
  leaves all workers asleep while a job waits.
\<close>

theorem pool_never_stuck:
  assumes "reachable n tp" and "queue tp \<noteq> []"
  shows "(\<exists>tp'. pool_step tp tp') \<and> ((\<exists>x \<in> set (threads tp). x \<noteq> WBlocked) \<or> caller tp = PSignal)"
  using queued_job_enabled [OF reachable_inv [OF assms(1)] assms(2)] reachable_inv [OF assms(1)] assms(2)
  by (simp add: pool_inv_def no_lost_wakeup_def)

theorem pool_never_stuck_witness: "reachable 1 one_job \<and> (\<exists>tp'. pool_step one_job tp')"
  using pool_never_stuck [OF one_job_reachable] one_job_reachable by (simp add: one_job_def)

text \<open>
  C38. In every reachable state at most one thread is between taking and releasing the mutex, and
  a worker about to pop finds the job it copied at the front of the queue, so front and pop_front
  never act on an empty or changed queue.
\<close>

theorem pool_mutual_exclusion:
  assumes "reachable n tp"
  shows "(\<forall>i < length (threads tp). \<forall>j < length (threads tp).
      in_worker_section (threads tp ! i) \<and> in_worker_section (threads tp ! j) \<longrightarrow> i = j) \<and>
    (\<forall>i < length (threads tp). \<not> (in_worker_section (threads tp ! i) \<and> in_producer_section (caller tp))) \<and>
    (\<forall>i < length (threads tp). \<forall>w. threads tp ! i = WPop w \<longrightarrow> (\<exists>ws. queue tp = w # ws))"
  using reachable_inv [OF assms] by (auto simp: pool_inv_def exclusive_def front_held_def)

theorem pool_mutual_exclusion_witness:
  "reachable 1 one_job \<and> \<not> (in_worker_section (threads one_job ! 0) \<and> in_producer_section (caller one_job))"
  using pool_mutual_exclusion [OF one_job_reachable] one_job_reachable by (simp add: one_job_def)

section \<open>Idle list\<close>

text \<open>
  C39. Detaching a connection from the idle list and inserting it before the head, as
  connection_io does, moves it to the end and keeps the order of the others, with all pointers
  consistent.
\<close>

theorem idle_touch_moves_to_end:
  assumes "dlist_at h s xs" and "x \<in> set xs"
  shows "\<exists>h'. bindE (dlist_detach h (Some x)) (\<lambda>h. dlist_insert_before h (Some s) (Some x)) = ret h' \<and>
    dlist_at h' s (remove1 x xs @ [x])"
  using assms by (rule idle_list.touch_moves_to_end)

theorem idle_touch_moves_to_end_witness:
  "dlist_at two_conns 0 [1, 2] \<and>
   (\<exists>h'. bindE (dlist_detach two_conns (Some 1)) (\<lambda>h. dlist_insert_before h (Some 0) (Some 1)) = ret h' \<and>
      dlist_at h' 0 [2, 1])"
  using idle_touch_moves_to_end [OF two_conns_at, of 1] two_conns_at by simp

section \<open>Test program of the AVL tree\<close>

text \<open>
  C40. The test program runs to its end and returns 0 for every sequence of numbers that rand may
  produce and every allocator that returns unused memory: no assertion fails in any of its tests,
  every loop ends, and no node is used after it was deleted.
\<close>

theorem test_avl_passes:
  assumes "news new_data" and "finite (dom (dtree m))" and "finite (dom (dvals m))"
  shows "\<exists>m'. test_main new_data rnd m = ret (0, m')"
  using test_main_ok [OF assms(1)] assms(2,3) by (simp add: mem_ok_def)

theorem test_avl_passes_witness:
  "news fresh_data \<and> (\<exists>m'. test_main fresh_data (\<lambda>_. 7) \<lparr>dtree = Map.empty, dvals = Map.empty\<rparr> = ret (0, m'))"
  using test_avl_passes [OF fresh_data_news, of "\<lparr>dtree = Map.empty, dvals = Map.empty\<rparr>" "\<lambda>_. 7"] fresh_data_news by simp

section \<open>Further results\<close>

text \<open>
  In a consistent timer heap the first item is the deadline of some entry and no entry has an
  earlier one.
\<close>

theorem heap_first_is_earliest:
  assumes "ttl_inv hp idx" and "hp \<noteq> []"
  shows "(\<exists>a. deadline hp idx a = Some (val (hp ! 0))) \<and>
    (\<forall>b v. deadline hp idx b = Some v \<longrightarrow> val (hp ! 0) \<le> v)"
  using earliest_deadline [OF assms] by blast

text \<open>
  If the peer's next bytes are a framed value of at most K_MAX_MSG bytes, read_res returns its
  size and prints that value (strings up to their first NUL byte), consuming exactly the frame, or
  returns -1 because a read failed or ended early.
\<close>

theorem read_res_correct:
  assumes "reads_prefix read_call pending" and "pending k = res_image v @ rest" and "val_size v \<le> K_MAX_MSG"
  shows "\<exists>rv p k'. read_res raw read_call k = ret (rv, p, k') \<and>
    (rv = int (val_size v) \<and> p = shown v \<and> pending k' = rest \<or> rv = -1 \<and> p = [])"
  using assms by (rule read_res_image)

text \<open>
  With a write that reports how many bytes it took, write_all always returns; it returns 0 exactly
  when the whole buffer was handed over in order, and -1 when only a proper prefix was.
\<close>

theorem write_all_correct:
  assumes "writes_prefix write_call sent"
  shows "\<exists>rv k' n. write_all write_call k buf = ret (rv, k') \<and> sent k' = sent k @ take n buf \<and>
    (rv = 0 \<and> n = length buf \<or> rv = -1 \<and> n < length buf)"
  using assms by (rule write_all_prefix)

text \<open>
  dlist_detach of a member unlinks exactly that member, wherever it stands, and writes only to
  nodes of the list; dlist_is_empty then tells whether it was the only one.
\<close>

theorem dlist_detach_correct:
  assumes "dlist_at h s xs" and "x \<in> set xs"
  shows "\<exists>h'. dlist_detach h (Some x) = ret h' \<and> dlist_at h' s (remove1 x xs) \<and>
    same_outside (insert s (set xs)) h h' \<and> dlist_is_empty h' (Some s) = ret (xs = [x])"
proof -
  obtain h' where h': "dlist_detach h (Some x) = ret h'" "dlist_at h' s (remove1 x xs)"
    "same_outside (insert s (set xs)) h h'" using dlist_detach_at [OF assms] by blast
  have "remove1 x xs = [] \<longleftrightarrow> xs = [x]" using assms(2) by (cases xs) auto
  then show ?thesis using h' dlist_is_empty_iff [OF h'(2)] by auto
qed

end
